(* ===== verification/Prelude.thy ===== *)
theory Prelude
  imports Main "HOL-Library.Word" "HOL-Library.Monad_Syntax"
begin

unbundle bit_operations_syntax

text \<open>
  Shared vocabulary of the development: the machine integers of the Rust sources as words, slices
  and indexing with their panics, the little-endian byte codecs of the standard library, and the
  generic lemmas on bits and lists that the component theories use.

  Conventions.
  \<^item> \<^verbatim>\<open>u8/u16/u32/u64\<close> and \<^verbatim>\<open>i16/i32/i64\<close> are words; a signed type is the word of its width,
    read with \<^const>\<open>sint\<close>. Arithmetic wraps, as the release profile of the crate does (it sets no
    \<^verbatim>\<open>overflow-checks\<close>).
  \<^item> \<^verbatim>\<open>usize\<close> positions and lengths are \<^typ>\<open>nat\<close>; where the source narrows one (\<^verbatim>\<open>as u32\<close>) the
    narrowing is written with \<^const>\<open>word_of_nat\<close>, which truncates.
  \<^item> A panic (slice index out of range, \<^verbatim>\<open>assert!\<close>, \<^verbatim>\<open>expect\<close>) is \<^const>\<open>None\<close>: pgrx turns it
    into an ERROR of the statement, so no value is produced.
\<close>

section \<open>Types\<close>

type_synonym u8 = "8 word"
type_synonym u16 = "16 word"
type_synonym u32 = "32 word"
type_synonym u64 = "64 word"
type_synonym u128 = "128 word"
type_synonym i16 = "16 word"
type_synonym i32 = "32 word"
type_synonym i64 = "64 word"
type_synonym bytes = "u8 list"

named_theorems bit_specs \<open>what the bits of a buffer are after an operation\<close>
named_theorems roundtrips \<open>decode after encode\<close>

section \<open>Slices, indexing and in-place updates\<close>

text \<open>\<^verbatim>\<open>data[i]\<close>, \<^verbatim>\<open>data[a..b]\<close>, \<^verbatim>\<open>data[a..]\<close> and \<^verbatim>\<open>buf[i] = f(buf[i])\<close>, with the bounds panic.\<close>

definition index :: "'a list \<Rightarrow> nat \<Rightarrow> 'a option" where
  "index xs i = (if i < length xs then Some (xs ! i) else None)"

definition slice :: "'a list \<Rightarrow> nat \<Rightarrow> nat \<Rightarrow> 'a list option" where
  "slice xs a b = (if a \<le> b \<and> b \<le> length xs then Some (take (b - a) (drop a xs)) else None)"

definition slice_from :: "'a list \<Rightarrow> nat \<Rightarrow> 'a list option" where
  "slice_from xs a = (if a \<le> length xs then Some (drop a xs) else None)"

definition modify :: "'a list \<Rightarrow> nat \<Rightarrow> ('a \<Rightarrow> 'a) \<Rightarrow> 'a list option" where
  "modify xs i f = (if i < length xs then Some (xs[i := f (xs ! i)]) else None)"

text \<open>\<^verbatim>\<open>n.div_ceil(d)\<close> on unsigned integers.\<close>

definition div_ceil :: "nat \<Rightarrow> nat \<Rightarrow> nat" where
  "div_ceil n d = (if n mod d = 0 then n div d else n div d + 1)"

lemma index_Some [simp]: "i < length xs \<Longrightarrow> index xs i = Some (xs ! i)"
  by (simp add: index_def)

lemma index_None [simp]: "length xs \<le> i \<Longrightarrow> index xs i = None"
  by (simp add: index_def)

lemma index_append_left [simp]: "i < length xs \<Longrightarrow> index (xs @ ys) i = Some (xs ! i)"
  by (simp add: index_def nth_append)

lemma index_append_right: "length xs \<le> i \<Longrightarrow> index (xs @ ys) i = index ys (i - length xs)"
  by (auto simp: index_def nth_append)

lemma slice_Some [simp]: "a \<le> b \<Longrightarrow> b \<le> length xs \<Longrightarrow> slice xs a b = Some (take (b - a) (drop a xs))"
  by (simp add: slice_def)

lemma slice_prefix: "slice (xs @ ys) 0 (length xs) = Some xs"
  by (simp add: slice_def)

lemma slice_middle:
  "length xs = a \<Longrightarrow> length ys = n \<Longrightarrow> slice (xs @ ys @ zs) a (a + n) = Some ys"
  by (simp add: slice_def)

lemma slice_length: "slice xs a b = Some ys \<Longrightarrow> length ys = b - a"
  by (auto simp: slice_def split: if_splits)

lemma slice_from_suffix [simp]: "length xs = a \<Longrightarrow> slice_from (xs @ ys) a = Some ys"
  by (simp add: slice_from_def)

lemma div_ceil_le_iff: "0 < d \<Longrightarrow> n \<le> div_ceil n d * d"
  by (auto simp: div_ceil_def) (metis add.commute div_mod_decomp less_imp_le_nat mod_less_divisor
      nat_add_left_cancel_le)

lemma less_div_ceil: "0 < d \<Longrightarrow> k < n \<Longrightarrow> k div d < div_ceil n d"
  using div_ceil_le_iff [of d n] by (simp add: less_mult_imp_div_less order.strict_trans2)

section \<open>Little-endian byte codecs\<close>

text \<open>
  \<^verbatim>\<open>to_le_bytes\<close> and \<^verbatim>\<open>from_le_bytes\<close> of the standard library, at any width: \<open>to_le n w\<close> are the
  \<open>n\<close> low bytes of \<open>w\<close>, least significant first.
\<close>

fun to_le :: "nat \<Rightarrow> 'w::len word \<Rightarrow> bytes" where
  "to_le 0 w = []"
| "to_le (Suc n) w = ucast w # to_le n (drop_bit 8 w)"

fun from_le :: "bytes \<Rightarrow> 'w::len word" where
  "from_le [] = 0"
| "from_le (b # bs) = ucast b OR push_bit 8 (from_le bs)"

lemma length_to_le [simp]: "length (to_le n w) = n"
  by (induction n arbitrary: w) auto

lemma nth_to_le: "i < n \<Longrightarrow> to_le n w ! i = ucast (drop_bit (8 * i) w)"
proof (induction n arbitrary: w i)
  case (Suc n)
  then show ?case by (cases i) (auto simp: drop_bit_drop_bit algebra_simps)
qed simp

lemma bit_from_le [bit_specs]:
  fixes bs :: bytes
  shows "bit (from_le bs :: 'w::len word) k
    \<longleftrightarrow> k < LENGTH('w) \<and> k < 8 * length bs \<and> bit (bs ! (k div 8)) (k mod 8)"
proof (induction bs arbitrary: k)
  case (Cons b bs)
  show ?case
  proof (cases "k < 8")
    case True
    then show ?thesis by (auto simp: bit_or_iff bit_push_bit_iff bit_ucast_iff)
  next
    case False
    then have "\<not> bit b k" using bit_imp_le_length [of b k] by auto
    moreover have "k div 8 = Suc ((k - 8) div 8)" "(k - 8) mod 8 = k mod 8"
      using False by (simp_all add: le_div_geq le_mod_geq)
    ultimately show ?thesis using False Cons.IH [of "k - 8"]
      by (auto simp: bit_or_iff bit_push_bit_iff bit_ucast_iff)
  qed
qed simp

lemma from_le_to_le: "from_le (to_le n w) = take_bit (8 * n) (w :: 'w::len word)"
proof (rule bit_word_eqI)
  fix k
  assume k: "k < LENGTH('w)"
  have "bit (to_le n w ! (k div 8)) (k mod 8) = bit w k" if "k < 8 * n"
  proof -
    from that have "k div 8 < n" by (simp add: less_mult_imp_div_less mult.commute)
    then show ?thesis using k by (simp add: nth_to_le bit_ucast_iff bit_drop_bit_eq)
  qed
  then show "bit (from_le (to_le n w) :: 'w word) k = bit (take_bit (8 * n) w) k"
    using k by (auto simp: bit_from_le bit_take_bit_iff)
qed

lemma from_le_to_le_id [simp]: "LENGTH('w) \<le> 8 * n \<Longrightarrow> from_le (to_le n w) = (w :: 'w::len word)"
  by (simp add: from_le_to_le take_bit_word_eq_self)

text \<open>\<^verbatim>\<open>T::from_le_bytes(data[a..a+n].try_into().unwrap())\<close>: read \<open>n\<close> bytes at \<open>a\<close>.\<close>

definition read_le :: "bytes \<Rightarrow> nat \<Rightarrow> nat \<Rightarrow> 'w::len word option" where
  "read_le data a n = do { bs \<leftarrow> slice data a (a + n); Some (from_le bs) }"

lemma read_le_middle:
  fixes w :: "'w::len word"
  assumes "length xs = a" and "LENGTH('w) \<le> 8 * n"
  shows "read_le (xs @ to_le n w @ zs) a n = Some w"
  using assms slice_middle [of xs a "to_le n w" n zs] by (simp add: read_le_def)

lemma read_le_front:
  fixes w :: "'w::len word"
  assumes "LENGTH('w) \<le> 8 * n"
  shows "read_le (to_le n w @ zs) 0 n = Some w"
  using assms read_le_middle [of "[]" 0 n w zs] by simp

text \<open>A table of little-endian words.\<close>

lemma read_le_table:
  fixes ws :: "'w::len word list"
  assumes "i < length ws" and "length pre = p" and "LENGTH('w) \<le> 8 * n"
  shows "read_le (pre @ concat (map (to_le n) ws) @ post) (p + i * n) n = Some (ws ! i)"
  using assms
proof (induction ws arbitrary: i pre p)
  case (Cons w ws)
  show ?case
  proof (cases i)
    case 0
    then show ?thesis using read_le_middle [of pre p n w "concat (map (to_le n) ws) @ post"] Cons.prems by simp
  next
    case (Suc j)
    then show ?thesis using Cons.IH [of j "pre @ to_le n w" "p + n"] Cons.prems by (simp add: algebra_simps)
  qed
qed simp

section \<open>Bit addressing in byte buffers\<close>

text \<open>
  The least-significant-bit-first addressing shared by the null bitmap, the boolean bitmap, the
  bloom filter and the bit-packed integers: \<^verbatim>\<open>buf[i / 8] |= 1 << (i % 8)\<close> and
  \<^verbatim>\<open>(buf[i / 8] >> (i % 8)) & 1 == 1\<close>.
\<close>

definition or_bit :: "bytes \<Rightarrow> nat \<Rightarrow> bytes option" where
  "or_bit buf i = modify buf (i div 8) (\<lambda>b. b OR push_bit (i mod 8) 1)"

definition get_bit :: "bytes \<Rightarrow> nat \<Rightarrow> bool option" where
  "get_bit buf i = do { b \<leftarrow> index buf (i div 8); Some (drop_bit (i mod 8) b AND 1 = 1) }"

text \<open>The abstraction: a buffer as the set of its one bits.\<close>

definition buf_bit :: "bytes \<Rightarrow> nat \<Rightarrow> bool" where
  "buf_bit buf k \<longleftrightarrow> k div 8 < length buf \<and> bit (buf ! (k div 8)) (k mod 8)"

lemma and_one_eq_one_iff: "w AND 1 = 1 \<longleftrightarrow> bit w 0" for w :: "'w::len word"
  by (auto simp: bit_0 and_one_eq odd_iff_mod_2_eq_one)

lemma get_bit_Some [simp]: "i div 8 < length buf \<Longrightarrow> get_bit buf i = Some (buf_bit buf i)"
  by (simp add: get_bit_def buf_bit_def and_one_eq_one_iff bit_drop_bit_eq)

lemma div_mod_8_eq_iff: "(k div 8 = i div 8 \<and> k mod 8 = i mod 8) \<longleftrightarrow> k = (i::nat)"
  by (metis div_mult_mod_eq)

lemma bit_or_exp:
  "m < LENGTH('w) \<Longrightarrow> bit (w OR 2 ^ m) j \<longleftrightarrow> bit w j \<or> j = m" for w :: "'w::len word"
  by (auto simp: bit_or_iff bit_exp_iff)

lemma or_bit_spec [bit_specs]:
  assumes "i div 8 < length buf"
  shows "\<exists>buf'. or_bit buf i = Some buf' \<and> length buf' = length buf
    \<and> (\<forall>k. buf_bit buf' k \<longleftrightarrow> buf_bit buf k \<or> k = i)"
proof -
  let ?b' = "buf[i div 8 := buf ! (i div 8) OR push_bit (i mod 8) 1]"
  have "buf_bit ?b' k \<longleftrightarrow> buf_bit buf k \<or> k = i" for k
  proof (cases "k div 8 = i div 8")
    case True
    then have "buf_bit ?b' k \<longleftrightarrow> buf_bit buf k \<or> k mod 8 = i mod 8"
      using assms by (simp add: buf_bit_def bit_or_exp)
    with True show ?thesis by (metis div_mod_8_eq_iff)
  next
    case False
    then have "k \<noteq> i" by auto
    with False show ?thesis by (simp add: buf_bit_def)
  qed
  with assms show ?thesis by (auto simp: or_bit_def modify_def)
qed

lemma buf_bit_replicate_0 [simp]: "\<not> buf_bit (replicate n 0) k"
  by (simp add: buf_bit_def)

lemma buf_bit_append:
  "buf_bit (xs @ ys) k \<longleftrightarrow> (if k < 8 * length xs then buf_bit xs k else buf_bit ys (k - 8 * length xs))"
proof (cases "k < 8 * length xs")
  case True
  then have "k div 8 < length xs" by auto
  with True show ?thesis by (auto simp: buf_bit_def nth_append)
next
  case False
  then obtain m where m: "k = 8 * length xs + m" by (metis le_iff_add not_less)
  have "(8 * length xs + m) mod 8 = m mod 8" by simp
  with m False show ?thesis by (auto simp: buf_bit_def nth_append)
qed

section \<open>Words\<close>

lemma unat_drop_bit_div: "unat (drop_bit n w) = unat w div 2 ^ n"
  by (simp only: unat_drop_bit_eq drop_bit_eq_div [of n "unat w"])

lemma word_of_nat_inverse: "n < 2 ^ LENGTH('w) \<Longrightarrow> unat (word_of_nat n :: 'w::len word) = n"
  by (simp add: unsigned_of_nat take_bit_nat_eq_self)

text \<open>\<^verbatim>\<open>x << s\<close> where the amount is not bounded by the code: release Rust masks it to the width.\<close>

definition shl :: "'w::len word \<Rightarrow> nat \<Rightarrow> 'w word" where
  "shl w s = push_bit (s mod LENGTH('w)) w"

text \<open>\<^verbatim>\<open>w.leading_zeros()\<close> and \<^verbatim>\<open>w.trailing_zeros()\<close>.\<close>

definition leading_zeros :: "'w::len word \<Rightarrow> nat" where
  "leading_zeros w = length (takeWhile (\<lambda>i. \<not> bit w i) (rev [0..<LENGTH('w)]))"

definition trailing_zeros :: "'w::len word \<Rightarrow> nat" where
  "trailing_zeros w = length (takeWhile (\<lambda>i. \<not> bit w i) [0..<LENGTH('w)])"

lemma length_takeWhile_nth:
  "k < length (takeWhile P xs) \<Longrightarrow> P (xs ! k)"
  by (metis nth_mem set_takeWhileD takeWhile_nth)

lemma leading_zeros_le: "leading_zeros w \<le> LENGTH('w)" for w :: "'w::len word"
  using length_takeWhile_le [of "\<lambda>i. \<not> bit w i" "rev [0..<LENGTH('w)]"] by (simp add: leading_zeros_def)

lemma trailing_zeros_le: "trailing_zeros w \<le> LENGTH('w)" for w :: "'w::len word"
  using length_takeWhile_le [of "\<lambda>i. \<not> bit w i" "[0..<LENGTH('w)]"] by (simp add: trailing_zeros_def)

lemma leading_zeros_bit: "bit w j \<Longrightarrow> j < LENGTH('w) - leading_zeros w" for w :: "'w::len word"
proof (rule ccontr)
  assume b: "bit w j" and "\<not> j < LENGTH('w) - leading_zeros w"
  with bit_imp_le_length [OF b] have k: "LENGTH('w) - 1 - j < leading_zeros w" by linarith
  then have "\<not> bit w (rev [0..<LENGTH('w)] ! (LENGTH('w) - 1 - j))"
    unfolding leading_zeros_def by (rule length_takeWhile_nth)
  moreover have "rev [0..<LENGTH('w)] ! (LENGTH('w) - 1 - j) = j"
    using bit_imp_le_length [OF b] by (simp add: rev_nth)
  ultimately show False using b by simp
qed

lemma leading_zeros_top:
  assumes "w \<noteq> (0 :: 'w::len word)"
  shows "leading_zeros w < LENGTH('w)" and "bit w (LENGTH('w) - 1 - leading_zeros w)"
proof -
  let ?ks = "rev [0..<LENGTH('w)]"
  from assms obtain j where j: "bit w j" using bit_word_eqI [of w 0] by auto
  with leading_zeros_bit [OF j] show lt: "leading_zeros w < LENGTH('w)" by linarith
  have "\<not> \<not> bit w (?ks ! leading_zeros w)"
    unfolding leading_zeros_def
    by (rule nth_length_takeWhile) (use lt in \<open>simp add: leading_zeros_def\<close>)
  with lt show "bit w (LENGTH('w) - 1 - leading_zeros w)" by (simp add: rev_nth)
qed

lemma leading_zeros_0 [simp]: "leading_zeros (0 :: 'w::len word) = LENGTH('w)"
proof -
  have "takeWhile (\<lambda>i. \<not> bit (0 :: 'w word) i) (rev [0..<LENGTH('w)]) = rev [0..<LENGTH('w)]"
    by (subst takeWhile_eq_all_conv) simp
  then show ?thesis by (simp only: leading_zeros_def length_rev length_upt)
qed

lemma trailing_zeros_bit: "bit w j \<Longrightarrow> trailing_zeros w \<le> j" for w :: "'w::len word"
proof (rule ccontr)
  assume b: "bit w j" and "\<not> trailing_zeros w \<le> j"
  then have k: "j < trailing_zeros w" by linarith
  then have "\<not> bit w ([0..<LENGTH('w)] ! j)"
    unfolding trailing_zeros_def by (rule length_takeWhile_nth)
  with b bit_imp_le_length [OF b] show False by simp
qed

text \<open>The largest offset a width can hold, on words and on naturals.\<close>

lemma not_bit_above: "unat w < 2 ^ n \<Longrightarrow> n \<le> k \<Longrightarrow> \<not> bit w k" for w :: "'w::len word"
proof -
  assume w: "unat w < 2 ^ n" and nk: "n \<le> k"
  have "(2::nat) ^ n \<le> 2 ^ k" using nk by simp
  with w have "unat w < 2 ^ k" by linarith
  then have "unat w div 2 ^ k = 0" by (rule div_less)
  then have "\<not> bit (unat w) k" by (simp add: bit_iff_odd)
  then show ?thesis by (auto simp: bit_unsigned_iff dest: bit_imp_le_length)
qed

text \<open>Narrowing casts are ring homomorphisms; widening casts are undone by them.\<close>

lemma ucast_of_int: "LENGTH('v) \<le> LENGTH('w) \<Longrightarrow> (ucast (word_of_int k :: 'w::len word) :: 'v::len word) = word_of_int k"
  by transfer (simp add: take_bit_take_bit min_def)

lemma ucast_diff:
  assumes "LENGTH('v) \<le> LENGTH('w)"
  shows "(ucast ((a::'w::len word) - b) :: 'v::len word) = ucast a - ucast b"
proof -
  have "(ucast (word_of_int (uint a - uint b) :: 'w word) :: 'v word) = word_of_int (uint a) - word_of_int (uint b)"
    using assms by (simp only: ucast_of_int wi_hom_sub)
  then show ?thesis by (simp only: wi_hom_sub [symmetric] word_of_int_uint ucast_eq)
qed

lemma ucast_add:
  assumes "LENGTH('v) \<le> LENGTH('w)"
  shows "(ucast ((a::'w::len word) + b) :: 'v::len word) = ucast a + ucast b"
proof -
  have "(ucast (word_of_int (uint a + uint b) :: 'w word) :: 'v word) = word_of_int (uint a) + word_of_int (uint b)"
    using assms by (simp only: ucast_of_int wi_hom_add)
  then show ?thesis by (simp only: wi_hom_add [symmetric] word_of_int_uint ucast_eq)
qed

lemma word_of_int_sint: "word_of_int (sint a) = a"
  by (simp only: of_int_sint scast_id)

lemma ucast_scast_up:
  assumes "LENGTH('v) \<le> LENGTH('w)"
  shows "(ucast (scast (a :: 'v::len word) :: 'w::len word) :: 'v word) = a"
proof -
  have "(ucast (word_of_int (sint a) :: 'w word) :: 'v word) = word_of_int (sint a)"
    using assms by (simp only: ucast_of_int)
  then show ?thesis by (simp only: scast_eq word_of_int_sint)
qed

lemma ucast_ucast_up: "LENGTH('v) \<le> LENGTH('w) \<Longrightarrow> (ucast (ucast (a :: 'v::len word) :: 'w::len word) :: 'v word) = a"
  by transfer (simp add: take_bit_take_bit min_def)
lemma unat_diff_sint:
  assumes le: "sint b \<le> sint a"
  shows "int (unat (a - b)) = sint a - sint (b::'w::len word)"
proof -
  have "a - b = word_of_int (sint a - sint b)" by (simp only: wi_hom_sub [symmetric] word_of_int_sint)
  then have "int (unat (a - b)) = (sint a - sint b) mod 2 ^ LENGTH('w)"
    by (simp only: uint_nat [symmetric] uint_word_of_int)
  moreover have "sint a - sint b < 2 ^ LENGTH('w)"
    using sint_range_size [of a] sint_range_size[of b]
    by (cases "LENGTH('w)") (auto simp: word_size)
  ultimately show ?thesis using le by simp
qed
lemma unat_ucast_up:
  assumes "LENGTH('v) \<le> LENGTH('w)"
  shows "unat (ucast (a :: 'v::len word) :: 'w::len word) = unat a"
proof -
  have "unat a < 2 ^ LENGTH('v)" by (rule unsigned_less)
  also have "(2::nat) ^ LENGTH('v) \<le> 2 ^ LENGTH('w)" using assms by simp
  finally show ?thesis by (simp add: unsigned_ucast_eq take_bit_nat_eq_self)
qed

text \<open>\<^verbatim>\<open>a - b\<close> on \<^verbatim>\<open>u8\<close> values held as naturals: it wraps.\<close>

definition sub_u8 :: "nat \<Rightarrow> nat \<Rightarrow> nat" where
  "sub_u8 a b = (256 + a - b) mod 256"

lemma sub_u8_eq [simp]: "b \<le> a \<Longrightarrow> a < 256 \<Longrightarrow> sub_u8 a b = a - b"
proof -
  assume "b \<le> a" "a < 256"
  then have "256 + a - b = (a - b) + 256" "a - b < 256" by simp_all
  then show ?thesis by (simp only: sub_u8_def mod_add_self2 mod_less)
qed

lemma uint_sint_nonneg: "0 \<le> sint w \<Longrightarrow> uint w = sint w" for w :: "'w::len word"
  using unat_diff_sint [of 0 w] by simp

lemma uint_minus_sint: "sint w < 0 \<Longrightarrow> uint (- w) = - sint w" for w :: "'w::len word"
  using unat_diff_sint [of w 0] by simp

section \<open>Lists and options\<close>

text \<open>\<^verbatim>\<open>iter().position(p)\<close>.\<close>

fun position :: "('a \<Rightarrow> bool) \<Rightarrow> 'a list \<Rightarrow> nat option" where
  "position p [] = None"
| "position p (x # xs) = (if p x then Some 0 else map_option Suc (position p xs))"

lemma position_None: "position p xs = None \<longleftrightarrow> (\<forall>x \<in> set xs. \<not> p x)"
  by (induction xs) auto

lemma position_Some: "position p xs = Some i \<Longrightarrow> i < length xs \<and> p (xs ! i)"
  by (induction xs arbitrary: i) (auto split: if_splits)

lemma those_map_Some: "(\<And>x. x \<in> set xs \<Longrightarrow> f x = Some (g x)) \<Longrightarrow> those (map f xs) = Some (map g xs)"
  by (induction xs) auto

end
