(* ===== verification/Blob_Cache.thy ===== *)
theory Blob_Cache
  imports Prelude "HOL-Library.Multiset"
begin

text \<open>
  The process-shared cache of detoasted segment blobs: src/src/blob_cache/mod.rs and
  src/src/blob_cache/storage.rs.  The shared memory is an explicit store: entries, payloads and
  bucket arrays live at DSA pointers, bucket chains and the LRU list of a shard are threaded through
  the entries by pointer, and every operation is a function of that store.  Dereferencing a
  pointer at which nothing is allocated, and a pointer walk that does not end, are both
  \<^term>\<open>None\<close>, so that "the operation returns" means memory safety and termination at once.

  The dynamic shared memory area is not code of this repository: allocation is the parameter
  \<open>alloc\<close>, asked with the number of the call within the operation, the current area and the size, and
  returning 0 when there is no memory (DSA_ALLOC_NO_OOM).  Each operation runs under the LWLock of
  its shard (releasing a pin is a single atomic subtraction), so operations are steps; the lock
  itself, and the moment between the check of the soft cap and the update of the counter in which an
  insert into another shard may run, are not modelled.
\<close>

section \<open>Keys, configuration and hashing\<close>

type_synonym dsa_pointer = nat

record BlobCacheKey =
  companion_oid :: u32
  segment_id :: u32
  col_idx :: u16
  kind :: u16
  qual_fp :: u64

definition KEY_KIND_BLOB :: u16 where
  "KEY_KIND_BLOB = 0"

definition KEY_KIND_CONDITION :: u16 where
  "KEY_KIND_CONDITION = 1"

definition blob_key :: "u32 \<Rightarrow> u32 \<Rightarrow> nat \<Rightarrow> BlobCacheKey" where
  "blob_key oid segment col =
    \<lparr>companion_oid = oid, segment_id = segment, col_idx = of_nat col, kind = KEY_KIND_BLOB,
     qual_fp = 0\<rparr>"

definition condition_key :: "u32 \<Rightarrow> u32 \<Rightarrow> u64 \<Rightarrow> BlobCacheKey" where
  "condition_key oid segment fp =
    \<lparr>companion_oid = oid, segment_id = segment, col_idx = 0, kind = KEY_KIND_CONDITION,
     qual_fp = fp\<rparr>"

definition clamp_auto_mb :: "int \<Rightarrow> int" where
  "clamp_auto_mb phys_mb =
    (if phys_mb \<le> 0 then 256 else max 256 (min 16384 (phys_mb div 6)))"

definition resolve_configured_bytes :: "int \<Rightarrow> int option \<Rightarrow> nat" where
  "resolve_configured_bytes mb phys =
    (if mb = 0 then 0
     else let effective = (if mb < 0 then clamp_auto_mb (case phys of None \<Rightarrow> 0 | Some m \<Rightarrow> m) else mb)
          in min (nat effective * (1024 * 1024)) (2 ^ 64 - 1))"

function next_power_of_two_from :: "nat \<Rightarrow> nat \<Rightarrow> nat" where
  "next_power_of_two_from p n = (if p = 0 \<or> n \<le> p then p else next_power_of_two_from (2 * p) n)"
  by pat_completeness auto
termination
  by (relation "measure (\<lambda>(p, n). n - p)") auto

declare next_power_of_two_from.simps [simp del]

definition configured_shards :: "int \<Rightarrow> nat" where
  "configured_shards s = min (next_power_of_two_from 1 (nat (max s 1))) 1024"

definition MAX_SHARDS :: nat where
  "MAX_SHARDS = 1024"

definition BUCKETS_PER_SHARD :: nat where
  "BUCKETS_PER_SHARD = 256"

definition hash_key :: "BlobCacheKey \<Rightarrow> 64 word" where
  "hash_key k =
    (let h = ucast (companion_oid k) * 0x9E3779B97F4A7C15;
         h = h XOR ucast (segment_id k) * 0xBF58476D1CE4E5B9;
         h = h XOR ucast (col_idx k) * 0x94D049BB133111EB;
         h = h XOR ucast (kind k) * 0xD6E8FEB86659FD93;
         h = h XOR qual_fp k * 0xA24BAED4963EE407;
         h = h XOR drop_bit 32 h
     in h)"

definition bucket_of :: "BlobCacheKey \<Rightarrow> nat" where
  "bucket_of k = unat ((ucast (hash_key k) :: 32 word) AND (of_nat BUCKETS_PER_SHARD - 1))"

definition hash_to_shard_bucket :: "BlobCacheKey \<Rightarrow> nat \<Rightarrow> nat \<times> nat" where
  "hash_to_shard_bucket k n_shards =
    (let h = hash_key k
     in (unat (drop_bit 8 h AND (of_nat n_shards - 1)), bucket_of k))"

section \<open>The shared memory\<close>

record Entry =
  key :: BlobCacheKey
  data_ptr :: dsa_pointer
  data_len :: u32
  pin_count :: u32
  last_used :: u64
  bucket_next :: dsa_pointer
  lru_prev :: dsa_pointer
  lru_next :: dsa_pointer

record Area =
  entries :: "dsa_pointer \<Rightarrow> Entry option"
  payloads :: "dsa_pointer \<Rightarrow> bytes option"
  arrays :: "dsa_pointer \<Rightarrow> dsa_pointer list option"

record Shard =
  bucket_array :: dsa_pointer
  shard_entries :: u32
  bytes_used :: u64
  lru_head :: dsa_pointer
  lru_tail :: dsa_pointer

record BlobCacheCtl =
  usable :: bool
  n_shards :: nat
  shards :: "nat \<Rightarrow> Shard"
  area :: Area
  total_bytes :: u64
  max_bytes :: u64
  last_used_counter :: u64
  n_entries :: u64
  hits_total :: u64
  misses_total :: u64
  evictions_total :: u64
  insert_failures_total :: u64
  cond_hits_total :: u64
  cond_misses_total :: u64
  cond_inserts_total :: u64

type_synonym dsa_alloc = "nat \<Rightarrow> Area \<Rightarrow> nat \<Rightarrow> dsa_pointer"

definition empty_area :: Area where
  "empty_area = \<lparr>entries = (\<lambda>_. None), payloads = (\<lambda>_. None), arrays = (\<lambda>_. None)\<rparr>"

definition zero_shard :: Shard where
  "zero_shard = \<lparr>bucket_array = 0, shard_entries = 0, bytes_used = 0, lru_head = 0, lru_tail = 0\<rparr>"

definition zero_entry :: Entry where
  "zero_entry =
    \<lparr>key = \<lparr>companion_oid = 0, segment_id = 0, col_idx = 0, kind = 0, qual_fp = 0\<rparr>, data_ptr = 0,
     data_len = 0, pin_count = 0, last_used = 0, bucket_next = 0, lru_prev = 0, lru_next = 0\<rparr>"

definition startup :: "nat \<Rightarrow> nat \<Rightarrow> BlobCacheCtl" where
  "startup bytes shard_count =
    \<lparr>usable = (bytes \<noteq> 0), n_shards = max 1 (min MAX_SHARDS shard_count),
     shards = (\<lambda>_. zero_shard), area = empty_area, total_bytes = 0, max_bytes = of_nat bytes,
     last_used_counter = 0, n_entries = 0, hits_total = 0, misses_total = 0, evictions_total = 0,
     insert_failures_total = 0, cond_hits_total = 0, cond_misses_total = 0, cond_inserts_total = 0\<rparr>"

definition bucket_head :: "Area \<Rightarrow> dsa_pointer \<Rightarrow> nat \<Rightarrow> dsa_pointer option" where
  "bucket_head a buckets idx = do { arr \<leftarrow> arrays a buckets;
     if idx < length arr then Some (arr ! idx) else None }"

definition bucket_head_store :: "Area \<Rightarrow> dsa_pointer \<Rightarrow> nat \<Rightarrow> dsa_pointer \<Rightarrow> Area option" where
  "bucket_head_store a buckets idx v = do { arr \<leftarrow> arrays a buckets;
     if idx < length arr then Some (a\<lparr>arrays := (arrays a)(buckets \<mapsto> arr[idx := v])\<rparr>) else None }"

definition store_entry :: "Area \<Rightarrow> dsa_pointer \<Rightarrow> (Entry \<Rightarrow> Entry) \<Rightarrow> Area option" where
  "store_entry a dp f = do { e \<leftarrow> entries a dp;
     Some (a\<lparr>entries := (entries a)(dp \<mapsto> f e)\<rparr>) }"

definition dsa_free_entry :: "Area \<Rightarrow> dsa_pointer \<Rightarrow> Area" where
  "dsa_free_entry a dp = a\<lparr>entries := (entries a)(dp := None)\<rparr>"

definition dsa_free_payload :: "Area \<Rightarrow> dsa_pointer \<Rightarrow> Area" where
  "dsa_free_payload a dp = a\<lparr>payloads := (payloads a)(dp := None)\<rparr>"


section \<open>Looking up and pinning\<close>

text \<open>The walk of a bucket chain that \<^verbatim>\<open>get_pinned\<close> and \<^verbatim>\<open>insert\<close> share; 0 when the key is not there.\<close>

partial_function (option) find_in_bucket :: "Area \<Rightarrow> dsa_pointer \<Rightarrow> BlobCacheKey \<Rightarrow> dsa_pointer option"
where
  "find_in_bucket a entry_dp k =
    (if entry_dp = 0 then Some 0
     else do { entry \<leftarrow> entries a entry_dp;
               if key entry = k then Some entry_dp else find_in_bucket a (bucket_next entry) k })"

definition count_hit :: "bool \<Rightarrow> BlobCacheCtl \<Rightarrow> BlobCacheCtl" where
  "count_hit is_cond c =
    (if is_cond then c\<lparr>cond_hits_total := cond_hits_total c + 1\<rparr>
     else c\<lparr>hits_total := hits_total c + 1\<rparr>)"

definition count_miss :: "bool \<Rightarrow> BlobCacheCtl \<Rightarrow> BlobCacheCtl" where
  "count_miss is_cond c =
    (if is_cond then c\<lparr>cond_misses_total := cond_misses_total c + 1\<rparr>
     else c\<lparr>misses_total := misses_total c + 1\<rparr>)"

definition get_pinned :: "BlobCacheKey \<Rightarrow> BlobCacheCtl \<Rightarrow> (BlobCacheCtl \<times> dsa_pointer option) option" where
  "get_pinned k c =
    (if \<not> usable c \<or> n_shards c = 0 then Some (c, None)
     else let (shard_idx, bucket_idx) = hash_to_shard_bucket k (n_shards c);
              is_cond = (kind k = KEY_KIND_CONDITION);
              buckets_dp = bucket_array (shards c shard_idx)
          in if buckets_dp = 0 then Some (count_miss is_cond c, None)
             else do {
               head \<leftarrow> bucket_head (area c) buckets_dp bucket_idx;
               entry_dp \<leftarrow> find_in_bucket (area c) head k;
               if entry_dp = 0 then Some (count_miss is_cond c, None)
               else do {
                 a \<leftarrow> store_entry (area c) entry_dp (\<lambda>e. e\<lparr>pin_count := pin_count e + 1\<rparr>);
                 let tick = last_used_counter c;
                 a \<leftarrow> store_entry a entry_dp (\<lambda>e. e\<lparr>last_used := tick\<rparr>);
                 Some (count_hit is_cond (c\<lparr>area := a, last_used_counter := tick + 1\<rparr>), Some entry_dp) } })"

definition as_slice :: "BlobCacheCtl \<Rightarrow> dsa_pointer \<Rightarrow> bytes option" where
  "as_slice c entry_dp =
    (if entry_dp = 0 then Some []
     else do { entry \<leftarrow> entries (area c) entry_dp;
               if data_ptr entry = 0 \<or> data_len entry = 0 then Some []
               else do { data \<leftarrow> payloads (area c) (data_ptr entry);
                         slice data 0 (unat (data_len entry)) } })"

definition release :: "dsa_pointer \<Rightarrow> BlobCacheCtl \<Rightarrow> BlobCacheCtl option" where
  "release entry_dp c =
    (if entry_dp = 0 then Some c
     else do { a \<leftarrow> store_entry (area c) entry_dp (\<lambda>e. e\<lparr>pin_count := pin_count e - 1\<rparr>);
               Some (c\<lparr>area := a\<rparr>) })"

section \<open>The LRU list and eviction\<close>

definition lru_prepend :: "Area \<Rightarrow> Shard \<Rightarrow> dsa_pointer \<Rightarrow> (Area \<times> Shard) option" where
  "lru_prepend a shard new_dp = do {
     let old_head = lru_head shard;
     a \<leftarrow> store_entry a new_dp (\<lambda>e. e\<lparr>lru_prev := 0\<rparr>);
     a \<leftarrow> store_entry a new_dp (\<lambda>e. e\<lparr>lru_next := old_head\<rparr>);
     (a, shard) \<leftarrow>
       (if old_head \<noteq> 0
        then do { a \<leftarrow> store_entry a old_head (\<lambda>e. e\<lparr>lru_prev := new_dp\<rparr>); Some (a, shard) }
        else Some (a, shard\<lparr>lru_tail := new_dp\<rparr>));
     Some (a, shard\<lparr>lru_head := new_dp\<rparr>) }"

definition unlink_from_lru :: "Area \<Rightarrow> Shard \<Rightarrow> dsa_pointer \<Rightarrow> (Area \<times> Shard) option" where
  "unlink_from_lru a shard target_dp = do {
     target \<leftarrow> entries a target_dp;
     let prev_dp = lru_prev target;
     let next_dp = lru_next target;
     (a, shard) \<leftarrow>
       (if prev_dp \<noteq> 0
        then do { a \<leftarrow> store_entry a prev_dp (\<lambda>e. e\<lparr>lru_next := next_dp\<rparr>); Some (a, shard) }
        else Some (a, shard\<lparr>lru_head := next_dp\<rparr>));
     (a, shard) \<leftarrow>
       (if next_dp \<noteq> 0
        then do { a \<leftarrow> store_entry a next_dp (\<lambda>e. e\<lparr>lru_prev := prev_dp\<rparr>); Some (a, shard) }
        else Some (a, shard\<lparr>lru_tail := prev_dp\<rparr>));
     a \<leftarrow> store_entry a target_dp (\<lambda>e. e\<lparr>lru_prev := 0\<rparr>);
     a \<leftarrow> store_entry a target_dp (\<lambda>e. e\<lparr>lru_next := 0\<rparr>);
     Some (a, shard) }"

partial_function (option) unlink_after :: "Area \<Rightarrow> dsa_pointer \<Rightarrow> dsa_pointer \<Rightarrow> Area option" where
  "unlink_after a cursor_dp target_dp =
    (if cursor_dp = 0 then Some a
     else do {
       cursor \<leftarrow> entries a cursor_dp;
       let next_dp = bucket_next cursor;
       if next_dp = target_dp
       then do { target \<leftarrow> entries a target_dp;
                 let target_next = bucket_next target;
                 store_entry a cursor_dp (\<lambda>e. e\<lparr>bucket_next := target_next\<rparr>) }
       else unlink_after a next_dp target_dp })"

definition unlink_from_bucket :: "Area \<Rightarrow> dsa_pointer \<Rightarrow> nat \<Rightarrow> dsa_pointer \<Rightarrow> Area option" where
  "unlink_from_bucket a buckets_dp bucket_idx target_dp = do {
     head \<leftarrow> bucket_head a buckets_dp bucket_idx;
     if head = target_dp
     then do { target \<leftarrow> entries a target_dp;
               bucket_head_store a buckets_dp bucket_idx (bucket_next target) }
     else unlink_after a head target_dp }"

text \<open>Unlinking, freeing and accounting for one unpinned entry: the body of the eviction loop.\<close>

definition evict_entry :: "BlobCacheCtl \<Rightarrow> nat \<Rightarrow> dsa_pointer \<Rightarrow> (BlobCacheCtl \<times> u64) option" where
  "evict_entry c shard_idx cur = do {
     let shard = shards c shard_idx;
     entry \<leftarrow> entries (area c) cur;
     a \<leftarrow> unlink_from_bucket (area c) (bucket_array shard) (bucket_of (key entry)) cur;
     (a, shard) \<leftarrow> unlink_from_lru a shard cur;
     let dlen = (ucast (data_len entry) :: u64);
     let dptr = data_ptr entry;
     let a = (if dptr \<noteq> 0 then dsa_free_payload a dptr else a);
     let a = dsa_free_entry a cur;
     let shard = shard\<lparr>bytes_used := bytes_used shard - dlen,
                       shard_entries := shard_entries shard - 1\<rparr>;
     Some (c\<lparr>area := a, shards := (shards c)(shard_idx := shard),
             total_bytes := total_bytes c - dlen, n_entries := n_entries c - 1,
             evictions_total := evictions_total c + 1\<rparr>, dlen) }"

definition saturating_add :: "u64 \<Rightarrow> u64 \<Rightarrow> u64" where
  "saturating_add x y = (if x \<le> x + y then x + y else - 1)"

definition saturating_sub :: "u64 \<Rightarrow> u64 \<Rightarrow> u64" where
  "saturating_sub x y = (if y \<le> x then x - y else 0)"

partial_function (option) evict_loop ::
  "BlobCacheCtl \<Rightarrow> nat \<Rightarrow> u64 \<Rightarrow> u64 \<Rightarrow> dsa_pointer \<Rightarrow> (BlobCacheCtl \<times> u64) option"
where
  "evict_loop c shard_idx bytes_needed freed cur =
    (if freed < bytes_needed \<and> cur \<noteq> 0
     then do {
       entry \<leftarrow> entries (area c) cur;
       let prev = lru_prev entry;
       if pin_count entry = 0
       then do { (c, dlen) \<leftarrow> evict_entry c shard_idx cur;
                 evict_loop c shard_idx bytes_needed (saturating_add freed dlen) prev }
       else evict_loop c shard_idx bytes_needed freed prev }
     else Some (c, freed))"

definition evict_in_shard :: "BlobCacheCtl \<Rightarrow> nat \<Rightarrow> u64 \<Rightarrow> (BlobCacheCtl \<times> u64) option" where
  "evict_in_shard c shard_idx bytes_needed =
    evict_loop c shard_idx bytes_needed 0 (lru_tail (shards c shard_idx))"

section \<open>Inserting\<close>

definition count_failure :: "BlobCacheCtl \<Rightarrow> BlobCacheCtl" where
  "count_failure c = c\<lparr>insert_failures_total := insert_failures_total c + 1\<rparr>"

text \<open>
  The capacity and allocation loop: the state with a zeroed entry allocated and the addresses of the
  entry and of its payload, or \<^verbatim>\<open>None\<close> inside when nothing more can be evicted.
\<close>

partial_function (option) alloc_loop ::
  "dsa_alloc \<Rightarrow> nat \<Rightarrow> BlobCacheCtl \<Rightarrow> nat \<Rightarrow> nat \<Rightarrow> (BlobCacheCtl \<times> (dsa_pointer \<times> dsa_pointer) option) option"
where
  "alloc_loop alloc calls c shard_idx len =
    (let cur = total_bytes c; needed = (of_nat len :: u64) in
     if saturating_add cur needed > max_bytes c
     then do {
       (c, freed) \<leftarrow>
         evict_in_shard c shard_idx (saturating_sub (saturating_add cur needed) (max_bytes c));
       if freed = 0 then Some (c, None) else alloc_loop alloc calls c shard_idx len }
     else
       let entry_alloc = alloc calls (area c) 80 in
       if entry_alloc = 0
       then do {
         (c, freed) \<leftarrow> evict_in_shard c shard_idx 4096;
         if freed = 0 then Some (c, None) else alloc_loop alloc (calls + 1) c shard_idx len }
       else
         let a = (area c)\<lparr>entries := (entries (area c))(entry_alloc \<mapsto> zero_entry)\<rparr>;
             data_alloc = alloc (calls + 1) a len in
         if data_alloc = 0
         then do {
           (c, freed) \<leftarrow> evict_in_shard (c\<lparr>area := dsa_free_entry a entry_alloc\<rparr>) shard_idx needed;
           if freed = 0 then Some (c, None) else alloc_loop alloc (calls + 2) c shard_idx len }
         else Some (c\<lparr>area := a\<rparr>, Some (entry_alloc, data_alloc)))"

text \<open>Filling the new entry, linking it into its bucket and into the LRU list, and the counters.\<close>

definition link_entry ::
  "BlobCacheCtl \<Rightarrow> BlobCacheKey \<Rightarrow> bytes \<Rightarrow> nat \<Rightarrow> nat \<Rightarrow> dsa_pointer \<Rightarrow> dsa_pointer \<Rightarrow> BlobCacheCtl option"
where
  "link_entry c k data shard_idx bucket_idx entry_dp data_dp = do {
     let shard = shards c shard_idx;
     let a = (area c)\<lparr>payloads := (payloads (area c))(data_dp \<mapsto> data)\<rparr>;
     let tick = last_used_counter c;
     a \<leftarrow> store_entry a entry_dp
       (\<lambda>e. e\<lparr>key := k, data_ptr := data_dp, data_len := of_nat (length data), last_used := tick\<rparr>);
     prev_head \<leftarrow> bucket_head a (bucket_array shard) bucket_idx;
     a \<leftarrow> store_entry a entry_dp (\<lambda>e. e\<lparr>bucket_next := prev_head\<rparr>);
     a \<leftarrow> bucket_head_store a (bucket_array shard) bucket_idx entry_dp;
     (a, shard) \<leftarrow> lru_prepend a shard entry_dp;
     let shard = shard\<lparr>shard_entries := shard_entries shard + 1,
                       bytes_used := bytes_used shard + of_nat (length data)\<rparr>;
     Some (c\<lparr>area := a, shards := (shards c)(shard_idx := shard), last_used_counter := tick + 1,
             n_entries := n_entries c + 1, total_bytes := total_bytes c + of_nat (length data),
             cond_inserts_total := cond_inserts_total c
               + (if kind k = KEY_KIND_CONDITION then 1 else 0)\<rparr>) }"

text \<open>The bucket array of a shard, allocated on first use; 0 when there is no memory for it.\<close>

definition ensure_buckets :: "dsa_alloc \<Rightarrow> BlobCacheCtl \<Rightarrow> nat \<Rightarrow> BlobCacheCtl \<times> dsa_pointer" where
  "ensure_buckets alloc c shard_idx =
    (let shard = shards c shard_idx in
     if bucket_array shard \<noteq> 0 then (c, bucket_array shard)
     else let new_dp = alloc 0 (area c) (BUCKETS_PER_SHARD * 8) in
       if new_dp = 0 then (c, 0)
       else (c\<lparr>area := (area c)\<lparr>arrays :=
                 (arrays (area c))(new_dp \<mapsto> replicate BUCKETS_PER_SHARD 0)\<rparr>,
               shards := (shards c)(shard_idx := shard\<lparr>bucket_array := new_dp\<rparr>)\<rparr>, new_dp))"

definition insert_blob :: "dsa_alloc \<Rightarrow> BlobCacheKey \<Rightarrow> bytes \<Rightarrow> BlobCacheCtl \<Rightarrow> BlobCacheCtl option" where
  "insert_blob alloc k data c =
    (if \<not> usable c \<or> data = [] \<or> n_shards c = 0 then Some c
     else let (shard_idx, bucket_idx) = hash_to_shard_bucket k (n_shards c);
              (c, buckets_dp) = ensure_buckets alloc c shard_idx
          in if buckets_dp = 0 then Some (count_failure c)
             else do {
               head \<leftarrow> bucket_head (area c) buckets_dp bucket_idx;
               found \<leftarrow> find_in_bucket (area c) head k;
               if found \<noteq> 0 then Some c
               else do {
                 (c, r) \<leftarrow> alloc_loop alloc 1 c shard_idx (length data);
                 case r of
                   None \<Rightarrow> Some (count_failure c)
                 | Some (entry_dp, data_dp) \<Rightarrow>
                     link_entry c k data shard_idx bucket_idx entry_dp data_dp } })"

declare find_in_bucket.simps [code] unlink_after.simps [code] evict_loop.simps [code] alloc_loop.simps [code]

section \<open>Diagnostics\<close>

text \<open>The LRU walk of one shard from its tail, counting pinned and unpinned entries.\<close>

fun diag_walk :: "nat \<Rightarrow> Area \<Rightarrow> dsa_pointer \<Rightarrow> nat \<times> nat \<Rightarrow> (nat \<times> nat) option" where
  "diag_walk 0 a cur (pinned, unpinned) = Some (pinned, unpinned)"
| "diag_walk (Suc fuel) a cur (pinned, unpinned) =
    (if cur = 0 then Some (pinned, unpinned)
     else do { entry \<leftarrow> entries a cur;
               diag_walk fuel a (lru_prev entry)
                 (if pin_count entry = 0 then (pinned, unpinned + 1) else (pinned + 1, unpinned)) })"

record BlobCacheStats =
  st_entries :: u64
  st_bytes_used :: u64
  st_bytes_max :: u64
  st_hits_total :: u64
  st_misses_total :: u64
  st_evictions_total :: u64
  st_insert_failures_total :: u64
  st_cond_hits_total :: u64
  st_cond_misses_total :: u64
  st_cond_inserts_total :: u64

definition stats :: "nat \<Rightarrow> BlobCacheCtl \<Rightarrow> BlobCacheStats" where
  "stats configured c =
    (if \<not> usable c
     then \<lparr>st_entries = 0, st_bytes_used = 0, st_bytes_max = of_nat configured, st_hits_total = 0,
           st_misses_total = 0, st_evictions_total = 0, st_insert_failures_total = 0,
           st_cond_hits_total = 0, st_cond_misses_total = 0, st_cond_inserts_total = 0\<rparr>
     else \<lparr>st_entries = n_entries c, st_bytes_used = total_bytes c, st_bytes_max = max_bytes c,
           st_hits_total = hits_total c, st_misses_total = misses_total c,
           st_evictions_total = evictions_total c,
           st_insert_failures_total = insert_failures_total c,
           st_cond_hits_total = cond_hits_total c, st_cond_misses_total = cond_misses_total c,
           st_cond_inserts_total = cond_inserts_total c\<rparr>)"

end
