(* ===== verification/Blob_Chains.thy ===== *)
theory Blob_Chains
  imports Blob_Cache
begin

text \<open>
  Linked lists in the store of the blob cache.  The bucket chains and the two directions of the LRU
  list are read through field functions on the entries; one predicate, \<open>chain\<close>, says that a list of
  addresses is threaded by such a field, and one lemma each covers prepending to and removing from a
  chain.
\<close>

section \<open>Chains\<close>

primrec chain :: "(nat \<Rightarrow> nat) \<Rightarrow> nat \<Rightarrow> nat list \<Rightarrow> bool" where
  "chain f p [] \<longleftrightarrow> p = 0"
| "chain f p (x # xs) \<longleftrightarrow> p = x \<and> x \<noteq> 0 \<and> chain f (f x) xs"

lemma chain_null [simp]: "chain f 0 xs \<longleftrightarrow> xs = []"
  by (cases xs) auto

lemma chain_cases:
  assumes "chain f p xs"
  obtains (end_of_chain) "p = 0" "xs = []" | (link) ys where "p \<noteq> 0" "xs = p # ys" "chain f (f p) ys"
proof (cases xs)
  case Nil
  then show ?thesis using assms end_of_chain by simp
next
  case (Cons x ys)
  then show ?thesis using assms link [of ys] by simp
qed

lemma chain_cong: "(\<And>x. x \<in> set xs \<Longrightarrow> f x = g x) \<Longrightarrow> chain f p xs \<longleftrightarrow> chain g p xs"
  by (induction xs arbitrary: p) auto

lemma chain_upd [simp]: "a \<notin> set xs \<Longrightarrow> chain (f(a := v)) p xs \<longleftrightarrow> chain f p xs"
  by (rule chain_cong) auto

lemma chain_nonzero: "chain f p xs \<Longrightarrow> 0 \<notin> set xs"
  by (induction xs arbitrary: p) auto

lemma chain_unique: "chain f p xs \<Longrightarrow> chain f p ys \<Longrightarrow> xs = ys"
proof (induction xs arbitrary: p ys)
  case (Cons x xs)
  then show ?case by (cases ys) auto
qed simp

lemma chain_suffix: "chain f p (xs @ a # ys) \<Longrightarrow> chain f a (a # ys)"
  by (induction xs arbitrary: p) auto

lemma chain_distinct: "chain f p xs \<Longrightarrow> distinct xs"
proof (induction xs arbitrary: p)
  case (Cons x xs)
  have "x \<notin> set xs"
  proof
    assume "x \<in> set xs"
    then obtain us vs where xs: "xs = us @ x # vs" by (meson split_list)
    then have "chain f (f x) vs" and "chain f (f x) (us @ x # vs)"
      using chain_suffix [of f "f x" us x vs] Cons.prems by auto
    then show False using chain_unique [of f "f x" vs "us @ x # vs"] by (auto dest: arg_cong [of _ _ length])
  qed
  then show ?case using Cons by auto
qed simp

lemma chain_next:
  assumes "chain f p (xs @ a # ys)"
  shows "f a = (if ys = [] then 0 else hd ys)"
  using chain_suffix [OF assms] by (cases ys) auto

lemma chain_first: "chain f p xs \<Longrightarrow> p = (if xs = [] then 0 else hd xs)"
  by (cases xs) auto

text \<open>Removing an element: its predecessor, or the head of the list, takes over its successor.\<close>

lemma chain_remove_head: "chain f p (a # ys) \<Longrightarrow> chain f (f a) ys"
  by simp

lemma chain_remove_inner:
  assumes "chain f p (xs @ a # ys)" and "xs \<noteq> []"
  shows "chain (f(last xs := f a)) p (xs @ ys)"
  using assms
proof (induction xs arbitrary: p)
  case (Cons x xs)
  have x: "x \<notin> set (xs @ a # ys)" using chain_distinct [of f p "x # xs @ a # ys"] Cons.prems by simp
  show ?case
  proof (cases "xs = []")
    case True
    then have "chain (f(x := f a)) (f a) ys" and "p = x" "x \<noteq> 0" using Cons.prems x by auto
    then show ?thesis using True by (simp del: fun_upd_apply) (simp only: fun_upd_same)
  next
    case False
    then have "last xs \<noteq> x" using x last_in_set [of xs] by auto
    then show ?thesis using False Cons by simp
  qed
qed simp

lemma chain_snoc:
  assumes "chain f p xs" and "xs \<noteq> []" and "x \<noteq> 0" and "f x = 0" and "x \<notin> set xs"
  shows "chain (f(last xs := x)) p (xs @ [x])"
  using assms
proof (induction xs arbitrary: p)
  case (Cons y xs)
  have y: "y \<notin> set xs" using chain_distinct [OF Cons.prems(1)] by simp
  show ?case
  proof (cases "xs = []")
    case True
    then show ?thesis using Cons.prems by auto
  next
    case False
    then have "last xs \<noteq> y" using y last_in_set [of xs] by auto
    then show ?thesis using False Cons by simp
  qed
qed simp

section \<open>Field functions\<close>

definition fld :: "(Entry \<Rightarrow> dsa_pointer) \<Rightarrow> (dsa_pointer \<Rightarrow> Entry option) \<Rightarrow> dsa_pointer \<Rightarrow> dsa_pointer"
where
  "fld f E x = (case E x of None \<Rightarrow> 0 | Some e \<Rightarrow> f e)"

lemma fld_Some [simp]: "E x = Some e \<Longrightarrow> fld f E x = f e"
  by (simp add: fld_def)

lemma fld_update [simp]: "fld f (E(x \<mapsto> e)) = (fld f E)(x := f e)"
  by (auto simp: fld_def)

lemma fld_free [simp]: "fld f (E(x := None)) = (fld f E)(x := 0)"
  by (auto simp: fld_def)

text \<open>What pointer updates leave alone: the key, the payload and the pin count of every entry.\<close>

definition core :: "Entry \<Rightarrow> BlobCacheKey \<times> dsa_pointer \<times> u32 \<times> u32" where
  "core e = (key e, data_ptr e, data_len e, pin_count e)"

definition cores :: "(dsa_pointer \<Rightarrow> Entry option) \<Rightarrow> dsa_pointer \<Rightarrow> (BlobCacheKey \<times> dsa_pointer \<times> u32 \<times> u32) option"
where
  "cores E x = map_option core (E x)"

lemma cores_update [simp]: "cores (E(x \<mapsto> e)) = (cores E)(x \<mapsto> core e)"
  by (auto simp: cores_def)

lemma cores_free [simp]: "cores (E(x := None)) = (cores E)(x := None)"
  by (auto simp: cores_def)

lemma dom_cores [simp]: "dom (cores E) = dom E"
  by (auto simp: cores_def)

lemma cores_self: "E x = Some e \<Longrightarrow> core e' = core e \<Longrightarrow> (cores E)(x \<mapsto> core e') = cores E"
  by (auto simp: cores_def)

lemma core_pointer_fields [simp]:
  "core (e\<lparr>bucket_next := p\<rparr>) = core e" "core (e\<lparr>lru_prev := p\<rparr>) = core e"
  "core (e\<lparr>lru_next := p\<rparr>) = core e" "core (e\<lparr>last_used := t\<rparr>) = core e"
  by (simp_all add: core_def)

lemma store_entry_Some [simp]:
  "entries a dp = Some e \<Longrightarrow>
    store_entry a dp f = Some (a\<lparr>entries := (entries a)(dp \<mapsto> f e)\<rparr>)"
  by (simp add: store_entry_def)


abbreviation bucket_chain :: "(dsa_pointer \<Rightarrow> Entry option) \<Rightarrow> dsa_pointer \<Rightarrow> dsa_pointer list \<Rightarrow> bool" where
  "bucket_chain E \<equiv> chain (fld bucket_next E)"

definition lru_list :: "(dsa_pointer \<Rightarrow> Entry option) \<Rightarrow> Shard \<Rightarrow> dsa_pointer list \<Rightarrow> bool" where
  "lru_list E s xs \<longleftrightarrow> chain (fld lru_next E) (lru_head s) xs \<and> chain (fld lru_prev E) (lru_tail s) (rev xs)"

section \<open>The walks and the updates, on chains\<close>

lemma find_in_bucket_chain:
  assumes "bucket_chain (entries a) p xs" and "set xs \<subseteq> dom (entries a)"
  shows "\<exists>r. find_in_bucket a p k = Some r
    \<and> (if r = 0 then \<forall>x\<in>set xs. \<forall>e. entries a x = Some e \<longrightarrow> key e \<noteq> k
       else r \<in> set xs \<and> (\<exists>e. entries a r = Some e \<and> key e = k))"
  using assms
proof (induction xs arbitrary: p)
  case Nil
  then show ?case by (simp add: find_in_bucket.simps)
next
  case (Cons x xs)
  then obtain e where e: "entries a x = Some e" "p = x" "x \<noteq> 0" by auto
  show ?case
  proof (cases "key e = k")
    case True
    then show ?thesis using e by (subst find_in_bucket.simps) simp
  next
    case False
    obtain r where r: "find_in_bucket a (bucket_next e) k = Some r"
      "if r = 0 then \<forall>x\<in>set xs. \<forall>e. entries a x = Some e \<longrightarrow> key e \<noteq> k
       else r \<in> set xs \<and> (\<exists>e. entries a r = Some e \<and> key e = k)"
      using Cons.IH [of "bucket_next e"] Cons.prems e by auto
    have "find_in_bucket a p k = Some r"
      using e False r(1) by (subst find_in_bucket.simps) simp
    then show ?thesis using r(2) e False by (auto split: if_splits)
  qed
qed

lemma unlink_after_chain:
  assumes "bucket_chain (entries a) p (us @ t # vs)" and "us \<noteq> []"
    and "set (us @ t # vs) \<subseteq> dom (entries a)"
  shows "\<exists>e. entries a (last us) = Some e \<and> unlink_after a p t =
    Some (a\<lparr>entries := (entries a)(last us \<mapsto> e\<lparr>bucket_next := fld bucket_next (entries a) t\<rparr>)\<rparr>)"
  using assms
proof (induction us arbitrary: p)
  case (Cons u us)
  then obtain e where e: "entries a u = Some e" "p = u" "u \<noteq> 0" by auto
  obtain et where et: "entries a t = Some et" using Cons.prems(3) by auto
  show ?case
  proof (cases "us = []")
    case True
    then have "bucket_next e = t" using Cons.prems e by simp
    then show ?thesis using e et True by (subst unlink_after.simps) simp
  next
    case False
    have "distinct (us @ t # vs)" using chain_distinct [OF Cons.prems(1)] by simp
    moreover have tail: "bucket_chain (entries a) (bucket_next e) (us @ t # vs)"
      using Cons.prems(1) e by simp
    ultimately have "bucket_next e \<noteq> t" using False chain_first [OF tail] by (cases us) auto
    then have "unlink_after a p t = unlink_after a (bucket_next e) t"
      using e by (subst unlink_after.simps) simp
    then show ?thesis using Cons.IH [OF tail False] Cons.prems(3) False by simp
  qed
qed simp

lemma unlink_from_bucket_chain:
  assumes arr: "arrays a dp = Some arr" "b < length arr"
    and chain: "bucket_chain (entries a) (arr ! b) xs" and t: "t \<in> set xs"
    and dom: "set xs \<subseteq> dom (entries a)"
  shows "\<exists>E p. unlink_from_bucket a dp b t
      = Some (a\<lparr>entries := E, arrays := (arrays a)(dp \<mapsto> arr[b := p])\<rparr>)
    \<and> bucket_chain E p (remove1 t xs) \<and> cores E = cores (entries a)
    \<and> fld lru_prev E = fld lru_prev (entries a) \<and> fld lru_next E = fld lru_next (entries a)
    \<and> (\<forall>x. x \<notin> set xs \<longrightarrow> E x = entries a x)"
proof -
  obtain us vs where xs: "xs = us @ t # vs" and "t \<notin> set us" using t by (meson split_list_first)
  then have rm: "remove1 t xs = us @ vs" by (simp add: remove1_append)
  obtain et where et: "entries a t = Some et" using dom t by auto
  have head: "bucket_head a dp b = Some (arr ! b)" using arr by (simp add: bucket_head_def)
  show ?thesis
  proof (cases "us = []")
    case True
    then have "arr ! b = t" "bucket_chain (entries a) (bucket_next et) vs"
      using chain xs et by auto
    then show ?thesis using head et arr rm True
      by (intro exI [of _ "entries a"] exI [of _ "bucket_next et"])
        (simp add: unlink_from_bucket_def bucket_head_store_def)
  next
    case False
    have "arr ! b \<noteq> t"
      using chain_first [OF chain] xs False \<open>t \<notin> set us\<close> by (cases us) auto
    moreover obtain e where e: "entries a (last us) = Some e" "unlink_after a (arr ! b) t =
        Some (a\<lparr>entries := (entries a)(last us \<mapsto> e\<lparr>bucket_next := fld bucket_next (entries a) t\<rparr>)\<rparr>)"
      using unlink_after_chain [of a "arr ! b" us t vs] chain dom xs False by auto
    moreover have "bucket_chain ((entries a)(last us \<mapsto> e\<lparr>bucket_next := fld bucket_next (entries a) t\<rparr>))
        (arr ! b) (us @ vs)"
      using chain_remove_inner [of "fld bucket_next (entries a)" "arr ! b" us t vs] chain xs False
      by simp
    ultimately show ?thesis using head arr rm xs False
      by (intro exI [of _ "(entries a)(last us \<mapsto> e\<lparr>bucket_next := fld bucket_next (entries a) t\<rparr>)"]
            exI [of _ "arr ! b"])
        (auto simp: unlink_from_bucket_def cores_self fun_upd_idem_iff fld_def fun_eq_iff)
  qed
qed

text \<open>Redirecting one pointer field of one entry, as every step of the list surgery does.\<close>

lemma redirect_fields:
  assumes "E x = Some e"
  shows "cores (E(x \<mapsto> e\<lparr>lru_next := v\<rparr>)) = cores E" "cores (E(x \<mapsto> e\<lparr>lru_prev := v\<rparr>)) = cores E"
    and "fld bucket_next (E(x \<mapsto> e\<lparr>lru_next := v\<rparr>)) = fld bucket_next E"
    and "fld bucket_next (E(x \<mapsto> e\<lparr>lru_prev := v\<rparr>)) = fld bucket_next E"
    and "fld lru_prev (E(x \<mapsto> e\<lparr>lru_next := v\<rparr>)) = fld lru_prev E"
    and "fld lru_next (E(x \<mapsto> e\<lparr>lru_prev := v\<rparr>)) = fld lru_next E"
  using assms by (auto simp: cores_def fld_def)

definition same_but_lru :: "(dsa_pointer \<Rightarrow> Entry option) \<Rightarrow> (dsa_pointer \<Rightarrow> Entry option) \<Rightarrow> dsa_pointer set \<Rightarrow> bool"
where
  "same_but_lru E E' X \<longleftrightarrow> cores E' = cores E \<and> fld bucket_next E' = fld bucket_next E
     \<and> (\<forall>x. x \<notin> X \<longrightarrow> E' x = E x)"

lemma same_but_lru_trans:
  "same_but_lru E E1 X \<Longrightarrow> same_but_lru E1 E2 Y \<Longrightarrow> same_but_lru E E2 (X \<union> Y)"
  by (auto simp: same_but_lru_def)

lemma same_but_lru_dom: "same_but_lru E E' X \<Longrightarrow> dom E' = dom E"
  by (metis same_but_lru_def dom_cores)

lemma same_but_lru_clear:
  "E t = Some e \<Longrightarrow> same_but_lru E (E(t \<mapsto> e\<lparr>lru_prev := 0, lru_next := 0\<rparr>)) {t}"
  by (auto simp: same_but_lru_def cores_def core_def fld_def)

text \<open>
  The two halves of an unlink: the forward pointer of the predecessor (or the head) takes over the
  successor, the backward pointer of the successor (or the tail) takes over the predecessor.
\<close>

lemma unlink_forward:
  assumes ch: "chain (fld lru_next E) (lru_head s) (us @ t # vs)" and dom: "set us \<subseteq> dom E"
    and E: "entries a = E" and p: "p = (if us = [] then 0 else last us)" and n: "n = fld lru_next E t"
  shows "\<exists>E1 h. (if p \<noteq> 0 then do { a \<leftarrow> store_entry a p (\<lambda>e. e\<lparr>lru_next := n\<rparr>); Some (a, s) }
                 else Some (a, s\<lparr>lru_head := n\<rparr>)) = Some (a\<lparr>entries := E1\<rparr>, s\<lparr>lru_head := h\<rparr>)
    \<and> chain (fld lru_next E1) h (us @ vs) \<and> fld lru_prev E1 = fld lru_prev E
    \<and> same_but_lru E E1 (set us)"
proof (cases "us = []")
  case True
  then show ?thesis using ch E p n by (intro exI [of _ E] exI [of _ n]) (auto simp: same_but_lru_def)
next
  case False
  then have pin: "p \<in> set us" and "p = last us" using p by auto
  moreover have "p \<noteq> 0" using chain_nonzero [OF ch] pin by (metis UnI1 set_append)
  moreover obtain e where e: "E p = Some e" using dom pin by auto
  moreover have "chain (fld lru_next (E(p \<mapsto> e\<lparr>lru_next := n\<rparr>))) (lru_head s) (us @ vs)"
    using chain_remove_inner [OF ch False] n \<open>p = last us\<close> by simp
  ultimately show ?thesis using E redirect_fields [of E p e n]
    by (intro exI [of _ "E(p \<mapsto> e\<lparr>lru_next := n\<rparr>)"] exI [of _ "lru_head s"])
      (simp add: same_but_lru_def del: fld_update cores_update)
qed

lemma unlink_backward:
  assumes ch: "chain (fld lru_prev E) (lru_tail s) (rev (us @ t # vs))" and dom: "set vs \<subseteq> dom E"
    and E: "entries a = E" and n: "n = (if vs = [] then 0 else hd vs)" and p: "p = fld lru_prev E t"
  shows "\<exists>E1 l. (if n \<noteq> 0 then do { a \<leftarrow> store_entry a n (\<lambda>e. e\<lparr>lru_prev := p\<rparr>); Some (a, s) }
                 else Some (a, s\<lparr>lru_tail := p\<rparr>)) = Some (a\<lparr>entries := E1\<rparr>, s\<lparr>lru_tail := l\<rparr>)
    \<and> chain (fld lru_prev E1) l (rev (us @ vs)) \<and> fld lru_next E1 = fld lru_next E
    \<and> same_but_lru E E1 (set vs)"
proof (cases "vs = []")
  case True
  then show ?thesis using ch E p n by (intro exI [of _ E] exI [of _ p]) (auto simp: same_but_lru_def)
next
  case False
  then have nin: "n \<in> set vs" and "n = hd vs" using n by auto
  moreover have "n \<noteq> 0" using chain_nonzero [OF ch] nin by (metis UnI2 insertCI list.set(2) set_append set_rev)
  moreover obtain e where e: "E n = Some e" using dom nin by auto
  moreover have "chain (fld lru_prev (E(n \<mapsto> e\<lparr>lru_prev := p\<rparr>))) (lru_tail s) (rev (us @ vs))"
    using chain_remove_inner [of "fld lru_prev E" "lru_tail s" "rev vs" t "rev us"] ch False p \<open>n = hd vs\<close>
    by (simp add: last_rev)
  ultimately show ?thesis using E redirect_fields [of E n e p]
    by (intro exI [of _ "E(n \<mapsto> e\<lparr>lru_prev := p\<rparr>)"] exI [of _ "lru_tail s"])
      (simp add: same_but_lru_def del: fld_update cores_update)
qed

lemma unlink_from_lru_list:
  assumes L: "lru_list (entries a) s (us @ t # vs)" and dom: "set (us @ t # vs) \<subseteq> dom (entries a)"
  shows "\<exists>E h l. unlink_from_lru a s t = Some (a\<lparr>entries := E\<rparr>, s\<lparr>lru_head := h, lru_tail := l\<rparr>)
    \<and> lru_list E (s\<lparr>lru_head := h, lru_tail := l\<rparr>) (us @ vs)
    \<and> same_but_lru (entries a) E (set (us @ t # vs))"
proof -
  have ch: "chain (fld lru_next (entries a)) (lru_head s) (us @ t # vs)"
    and hc: "chain (fld lru_prev (entries a)) (lru_tail s) (rev (us @ t # vs))"
    using L by (auto simp: lru_list_def)
  have dist: "distinct (us @ t # vs)" by (rule chain_distinct [OF ch])
  obtain et where et: "entries a t = Some et" using dom by auto
  let ?p = "lru_prev et" and ?n = "lru_next et"
  have p: "?p = (if us = [] then 0 else last us)"
    using chain_next [of "fld lru_prev (entries a)" "lru_tail s" "rev vs" t "rev us"] hc et
    by (simp add: hd_rev)
  have n: "?n = (if vs = [] then 0 else hd vs)"
    using chain_next [OF ch] et by simp
  obtain E1 h where 1: "(if ?p \<noteq> 0 then do { a \<leftarrow> store_entry a ?p (\<lambda>e. e\<lparr>lru_next := ?n\<rparr>); Some (a, s) }
        else Some (a, s\<lparr>lru_head := ?n\<rparr>)) = Some (a\<lparr>entries := E1\<rparr>, s\<lparr>lru_head := h\<rparr>)"
    "chain (fld lru_next E1) h (us @ vs)" "fld lru_prev E1 = fld lru_prev (entries a)"
    "same_but_lru (entries a) E1 (set us)"
    using unlink_forward [OF ch _ refl p, of ?n] dom et by auto
  obtain E2 l where 2: "(if ?n \<noteq> 0
        then do { a \<leftarrow> store_entry (a\<lparr>entries := E1\<rparr>) ?n (\<lambda>e. e\<lparr>lru_prev := ?p\<rparr>); Some (a, s\<lparr>lru_head := h\<rparr>) }
        else Some (a\<lparr>entries := E1\<rparr>, s\<lparr>lru_head := h, lru_tail := ?p\<rparr>))
      = Some (a\<lparr>entries := E2\<rparr>, s\<lparr>lru_head := h, lru_tail := l\<rparr>)"
    "chain (fld lru_prev E2) l (rev (us @ vs))" "fld lru_next E2 = fld lru_next E1"
    "same_but_lru E1 E2 (set vs)"
    using unlink_backward [of E1 "s\<lparr>lru_head := h\<rparr>" us t vs "a\<lparr>entries := E1\<rparr>" ?n ?p] hc n
      same_but_lru_dom [OF 1(4)] dom 1(3) et by auto
  have same: "same_but_lru (entries a) E2 (set us \<union> set vs)"
    using 1(4) 2(4) by (rule same_but_lru_trans)
  then obtain e2 where e2: "E2 t = Some e2" using dist et by (simp add: same_but_lru_def)
  let ?E = "E2(t \<mapsto> e2\<lparr>lru_prev := 0, lru_next := 0\<rparr>)"
  have "unlink_from_lru a s t = Some (a\<lparr>entries := ?E\<rparr>, s\<lparr>lru_head := h, lru_tail := l\<rparr>)"
    unfolding unlink_from_lru_def Let_def using et 1(1) 2(1) e2 by simp
  moreover have "lru_list ?E (s\<lparr>lru_head := h, lru_tail := l\<rparr>) (us @ vs)"
    using 1(2) 2(2,3) dist by (simp add: lru_list_def)
  moreover have "same_but_lru (entries a) ?E (set (us @ t # vs))"
    using same_but_lru_trans [OF same same_but_lru_clear [of E2 t e2, OF e2]] by (simp add: Un_commute)
  ultimately show ?thesis by blast
qed

lemma lru_prepend_list:
  assumes L: "lru_list (entries a) s xs" and dom: "set xs \<subseteq> dom (entries a)"
    and x: "entries a x = Some ex" "x \<noteq> 0" "x \<notin> set xs"
  shows "\<exists>E l. lru_prepend a s x = Some (a\<lparr>entries := E\<rparr>, s\<lparr>lru_head := x, lru_tail := l\<rparr>)
    \<and> lru_list E (s\<lparr>lru_head := x, lru_tail := l\<rparr>) (x # xs)
    \<and> same_but_lru (entries a) E (insert x (set xs))"
proof -
  let ?h = "lru_head s"
  let ?E1 = "(entries a)(x \<mapsto> ex\<lparr>lru_prev := 0, lru_next := ?h\<rparr>)"
  have ch: "chain (fld lru_next (entries a)) ?h xs" and hc: "chain (fld lru_prev (entries a)) (lru_tail s) (rev xs)"
    using L by (auto simp: lru_list_def)
  have same1: "same_but_lru (entries a) ?E1 {x}"
    using x by (auto simp: same_but_lru_def cores_def core_def fld_def)
  show ?thesis
  proof (cases "xs = []")
    case True
    then show ?thesis using ch x same1
      by (intro exI [of _ ?E1] exI [of _ x]) (simp add: lru_prepend_def lru_list_def Let_def)
  next
    case False
    then have "?h = hd xs" "?h \<in> set xs" using chain_first [OF ch] by auto
    moreover have "?h \<noteq> 0" using calculation chain_nonzero [OF ch] by metis
    moreover have "?h \<noteq> x" using calculation x by metis
    ultimately have h: "?h = hd xs" "?h \<in> set xs" "?h \<noteq> 0" "?h \<noteq> x" .
    then obtain eh where eh: "entries a ?h = Some eh" using dom by auto
    let ?E2 = "?E1(?h \<mapsto> eh\<lparr>lru_prev := x\<rparr>)"
    have "lru_prepend a s x = Some (a\<lparr>entries := ?E2\<rparr>, s\<lparr>lru_head := x, lru_tail := lru_tail s\<rparr>)"
      using x h eh by (simp add: lru_prepend_def Let_def)
    moreover have "chain (fld lru_next ?E2) x (x # xs)"
      using x ch h chain_upd [of x xs "fld lru_next (entries a)" ?h ?h] eh
      by (simp add: fun_upd_idem fun_upd_twist [of ?h x])
    moreover have "chain (fld lru_prev ?E2) (lru_tail s) (rev xs @ [x])"
      using chain_snoc [of "(fld lru_prev (entries a))(x := 0)" "lru_tail s" "rev xs" x] hc False h x
      by (simp add: last_rev)
    moreover have "same_but_lru (entries a) ?E2 (insert x (set xs))"
      using x h eh by (auto simp: same_but_lru_def cores_def core_def fld_def)
    ultimately show ?thesis unfolding lru_list_def by (intro exI [of _ ?E2] exI [of _ "lru_tail s"]) simp
  qed
qed

end
