(* ===== verification/Blob_Invariant.thy ===== *)
theory Blob_Invariant
  imports Blob_Chains
begin

text \<open>
  The invariant of the blob cache and its preservation.  Every entry of a shard is on exactly one
  bucket chain and on the LRU list of its shard, keys and payload pointers are unique, the atomic
  counters are the sums they stand for, the payload bytes stay within the configured maximum, and the
  pin count of an entry is the number of pins that reference it.
\<close>

section \<open>Slots\<close>

definition shard_of :: "nat \<Rightarrow> BlobCacheKey \<Rightarrow> nat" where
  "shard_of n k = fst (hash_to_shard_bucket k n)"

lemma hash_to_shard_bucket_split: "hash_to_shard_bucket k n = (shard_of n k, bucket_of k)"
  by (simp add: shard_of_def hash_to_shard_bucket_def Let_def)

lemma and_less_word:
  fixes w m :: "'a::len word"
  assumes "m \<noteq> 0"
  shows "unat (w AND (m - 1)) < unat m"
proof -
  have "w AND (m - 1) \<le> m - 1" by (rule word_and_le1)
  then have "unat (w AND (m - 1)) \<le> unat (m - 1)" by (simp add: word_le_nat_alt)
  also have "unat (m - 1) < unat m"
    using assms by (metis measure_unat)
  finally show ?thesis .
qed

lemma bucket_of_less: "bucket_of k < BUCKETS_PER_SHARD"
  using and_less_word [of "256 :: u32"] by (simp add: bucket_of_def BUCKETS_PER_SHARD_def)

lemma shard_of_less:
  assumes "0 < n" and "n \<le> MAX_SHARDS"
  shows "shard_of n k < n"
proof -
  have n: "unat (of_nat n :: u64) = n"
    using assms by (simp add: MAX_SHARDS_def unat_of_nat take_bit_nat_eq_self)
  then have "(of_nat n :: u64) \<noteq> 0" using assms by (metis less_numeral_extra(3) unat_0)
  then show ?thesis using and_less_word [of "of_nat n :: u64"] n
    by (simp add: shard_of_def hash_to_shard_bucket_def Let_def)
qed

section \<open>The invariant\<close>

type_synonym core = "BlobCacheKey \<times> dsa_pointer \<times> u32 \<times> u32"
type_synonym cores = "dsa_pointer \<Rightarrow> core option"

definition members :: "cores \<Rightarrow> nat \<Rightarrow> nat \<Rightarrow> dsa_pointer set" where
  "members C n i = {x. \<exists>k r. C x = Some (k, r) \<and> shard_of n k = i}"

definition in_bucket :: "cores \<Rightarrow> nat \<Rightarrow> dsa_pointer set" where
  "in_bucket C b = {x. \<exists>k r. C x = Some (k, r) \<and> bucket_of k = b}"

definition len_at :: "cores \<Rightarrow> dsa_pointer \<Rightarrow> nat" where
  "len_at C x = (case C x of None \<Rightarrow> 0 | Some (k, d, l, p) \<Rightarrow> unat l)"

definition stored_bytes :: "cores \<Rightarrow> nat" where
  "stored_bytes C = (\<Sum>x\<in>dom C. len_at C x)"

definition buckets_inv :: "(dsa_pointer \<Rightarrow> Entry option) \<Rightarrow> (dsa_pointer \<Rightarrow> dsa_pointer list option)
    \<Rightarrow> dsa_pointer \<Rightarrow> dsa_pointer list \<Rightarrow> bool" where
  "buckets_inv E A dp L \<longleftrightarrow>
    (if dp = 0 then L = []
     else \<exists>arr. A dp = Some arr \<and> length arr = BUCKETS_PER_SHARD
       \<and> (\<forall>b < BUCKETS_PER_SHARD. \<exists>xs. bucket_chain E (arr ! b) xs
            \<and> set xs = set L \<inter> in_bucket (cores E) b))"

definition shard_inv :: "nat \<Rightarrow> Area \<Rightarrow> nat \<Rightarrow> Shard \<Rightarrow> dsa_pointer list \<Rightarrow> bool" where
  "shard_inv n a i s L \<longleftrightarrow>
    lru_list (entries a) s L \<and> set L = members (cores (entries a)) n i
    \<and> shard_entries s = of_nat (length L)
    \<and> bytes_used s = of_nat (sum_list (map (len_at (cores (entries a))) L))
    \<and> buckets_inv (entries a) (arrays a) (bucket_array s) L"

definition shards_inv :: "nat \<Rightarrow> Area \<Rightarrow> (nat \<Rightarrow> Shard) \<Rightarrow> bool" where
  "shards_inv n a S \<longleftrightarrow>
    (\<forall>i < n. \<exists>L. shard_inv n a i (S i) L)
    \<and> (\<forall>i < n. \<forall>j < n. bucket_array (S i) = bucket_array (S j) \<longrightarrow> bucket_array (S i) \<noteq> 0 \<longrightarrow> i = j)"

definition store_inv :: "cores \<Rightarrow> (dsa_pointer \<Rightarrow> bytes option) \<Rightarrow> bool" where
  "store_inv C P \<longleftrightarrow> finite (dom C) \<and> C 0 = None
    \<and> (\<forall>x k d l p. C x = Some (k, d, l, p) \<longrightarrow>
         d \<noteq> 0 \<and> l \<noteq> 0 \<and> (\<exists>bs. P d = Some bs \<and> length bs = unat l))
    \<and> (\<forall>x y k r r'. C x = Some (k, r) \<longrightarrow> C y = Some (k, r') \<longrightarrow> x = y)
    \<and> (\<forall>x y k k' d r r'. C x = Some (k, d, r) \<longrightarrow> C y = Some (k', d, r') \<longrightarrow> x = y)"

definition pins_inv :: "dsa_pointer multiset \<Rightarrow> cores \<Rightarrow> bool" where
  "pins_inv pins C \<longleftrightarrow> size pins < 2 ^ 32 \<and> set_mset pins \<subseteq> dom C
    \<and> (\<forall>x k d l p. C x = Some (k, d, l, p) \<longrightarrow> p = of_nat (count pins x))"

definition finite_area :: "Area \<Rightarrow> bool" where
  "finite_area a \<longleftrightarrow> finite (dom (entries a)) \<and> finite (dom (payloads a)) \<and> finite (dom (arrays a))"

definition cache_inv :: "dsa_pointer multiset \<Rightarrow> BlobCacheCtl \<Rightarrow> bool" where
  "cache_inv pins c \<longleftrightarrow>
    (let C = cores (entries (area c)) in
     0 < n_shards c \<and> n_shards c \<le> MAX_SHARDS
     \<and> store_inv C (payloads (area c)) \<and> pins_inv pins C
     \<and> shards_inv (n_shards c) (area c) (shards c)
     \<and> total_bytes c = of_nat (stored_bytes C) \<and> stored_bytes C \<le> unat (max_bytes c)
     \<and> unat (max_bytes c) < 2 ^ 63 \<and> finite_area (area c)
     \<and> n_entries c = of_nat (card (dom C)))"

lemma members_dom: "members C n i \<subseteq> dom C"
  by (auto simp: members_def)

lemma len_at_cong: "C x = C' x \<Longrightarrow> len_at C x = len_at C' x"
  by (simp add: len_at_def)

lemma lru_list_distinct: "lru_list E s L \<Longrightarrow> distinct L"
  using chain_distinct unfolding lru_list_def by blast

lemma shard_inv_distinct: "shard_inv n a i s L \<Longrightarrow> distinct L"
  using lru_list_distinct unfolding shard_inv_def by blast

text \<open>A shard is untouched by updates that stay outside it.\<close>

lemma shard_inv_frame:
  assumes inv: "shard_inv n a j s L"
    and E: "\<And>x. x \<in> set L \<Longrightarrow> entries a' x = entries a x"
    and mem: "members (cores (entries a')) n j = members (cores (entries a)) n j"
    and arr: "bucket_array s \<noteq> 0 \<Longrightarrow> arrays a' (bucket_array s) = arrays a (bucket_array s)"
  shows "shard_inv n a' j s L"
proof -
  have fld: "fld f (entries a') x = fld f (entries a) x" if "x \<in> set L" for f x
    using E [OF that] by (simp add: fld_def)
  have C: "cores (entries a') x = cores (entries a) x" if "x \<in> set L" for x
    using E [OF that] by (simp add: cores_def)
  have lens: "map (len_at (cores (entries a'))) L = map (len_at (cores (entries a))) L"
    by (rule map_cong [OF refl], rule len_at_cong, rule C)
  have "chain (fld lru_next (entries a')) p L = chain (fld lru_next (entries a)) p L" for p
    by (rule chain_cong) (rule fld)
  moreover have "chain (fld lru_prev (entries a')) p (rev L) = chain (fld lru_prev (entries a)) p (rev L)" for p
    by (rule chain_cong) (simp add: fld)
  ultimately have lru: "lru_list (entries a') s L"
    using inv by (simp add: shard_inv_def lru_list_def)
  have bucket: "bucket_chain (entries a') q xs \<and> set xs = set L \<inter> in_bucket (cores (entries a')) b"
    if "bucket_chain (entries a) q xs" "set xs = set L \<inter> in_bucket (cores (entries a)) b" for q xs b
  proof -
    have "bucket_chain (entries a') q xs = bucket_chain (entries a) q xs"
      by (rule chain_cong) (use that fld in auto)
    then show ?thesis using that C by (auto simp: in_bucket_def)
  qed
  have "buckets_inv (entries a') (arrays a') (bucket_array s) L"
  proof (cases "bucket_array s = 0")
    case False
    then obtain arr0 where "arrays a' (bucket_array s) = Some arr0" "length arr0 = BUCKETS_PER_SHARD"
      "\<forall>b < BUCKETS_PER_SHARD. \<exists>xs. bucket_chain (entries a) (arr0 ! b) xs
         \<and> set xs = set L \<inter> in_bucket (cores (entries a)) b"
      using inv arr by (auto simp: shard_inv_def buckets_inv_def)
    then show ?thesis using False bucket unfolding buckets_inv_def by metis
  qed (use inv in \<open>auto simp: shard_inv_def buckets_inv_def\<close>)
  then show ?thesis unfolding shard_inv_def lens mem using inv lru by (simp add: shard_inv_def)
qed

text \<open>An operation on shard \<open>i\<close> re-establishes the whole from its own shard.\<close>

lemma shards_inv_local:
  assumes inv: "shards_inv n a S" and i: "i < n"
    and new: "shard_inv n a' i s L"
    and E: "\<And>x. x \<notin> members (cores (entries a)) n i \<union> X \<Longrightarrow> entries a' x = entries a x"
    and X: "\<And>x j. x \<in> X \<Longrightarrow> j \<noteq> i \<Longrightarrow> x \<notin> members (cores (entries a)) n j"
    and mem: "\<And>j. j \<noteq> i \<Longrightarrow> members (cores (entries a')) n j = members (cores (entries a)) n j"
    and arr: "\<And>dp. dp \<noteq> bucket_array s \<Longrightarrow> arrays a dp \<noteq> None \<Longrightarrow> arrays a' dp = arrays a dp"
    and own: "\<And>j. j < n \<Longrightarrow> j \<noteq> i \<Longrightarrow> bucket_array (S j) \<noteq> 0 \<Longrightarrow> bucket_array (S j) \<noteq> bucket_array s"
  shows "shards_inv n a' (S(i := s))"
proof -
  have other: "shard_inv n a' j (S j) L'" if j: "j < n" "j \<noteq> i" and L': "shard_inv n a j (S j) L'" for j L'
  proof (rule shard_inv_frame [OF L'])
    fix x assume "x \<in> set L'"
    then have x: "x \<in> members (cores (entries a)) n j" using L' by (simp add: shard_inv_def)
    then have "x \<notin> members (cores (entries a)) n i" using j by (auto simp: members_def)
    then show "entries a' x = entries a x" using E X j x by blast
  next
    assume nz: "bucket_array (S j) \<noteq> 0"
    then have "arrays a (bucket_array (S j)) \<noteq> None"
      using L' by (auto simp: shard_inv_def buckets_inv_def)
    then show "arrays a' (bucket_array (S j)) = arrays a (bucket_array (S j))"
      using arr own j nz by blast
  qed (use mem j in auto)
  have "\<exists>L'. shard_inv n a' j ((S(i := s)) j) L'" if "j < n" for j
  proof (cases "j = i")
    case False
    then show ?thesis using inv that other by (force simp: shards_inv_def)
  qed (use new in auto)
  moreover have "j = k" if "j < n" "k < n" "bucket_array ((S(i := s)) j) = bucket_array ((S(i := s)) k)"
    "bucket_array ((S(i := s)) j) \<noteq> 0" for j k
    using that inv own [of j] own [of k] unfolding shards_inv_def by (cases "j = i"; cases "k = i") auto
  ultimately show ?thesis unfolding shards_inv_def by blast
qed

section \<open>Evicting one entry\<close>

lemma in_bucket_free: "in_bucket (C(t := None)) b = in_bucket C b - {t}"
  by (auto simp: in_bucket_def)

lemma members_free: "members (C(t := None)) n i = members C n i - {t}"
  by (auto simp: members_def)

lemma unlink_buckets:
  assumes b: "buckets_inv (entries a) (arrays a) dp L" and L: "set L \<subseteq> dom (entries a)" and dist: "distinct L"
    and t: "t \<in> set L" "entries a t = Some e"
  shows "\<exists>E p arr. arrays a dp = Some arr \<and> dp \<noteq> 0
    \<and> unlink_from_bucket a dp (bucket_of (key e)) t
       = Some (a\<lparr>entries := E, arrays := (arrays a)(dp \<mapsto> arr[bucket_of (key e) := p])\<rparr>)
    \<and> cores E = cores (entries a)
    \<and> fld lru_prev E = fld lru_prev (entries a) \<and> fld lru_next E = fld lru_next (entries a)
    \<and> (\<forall>x. x \<notin> set L \<longrightarrow> E x = entries a x)
    \<and> (\<forall>E'. fld bucket_next E' = (fld bucket_next E)(t := 0) \<longrightarrow> cores E' = (cores (entries a))(t := None)
         \<longrightarrow> buckets_inv E' ((arrays a)(dp \<mapsto> arr[bucket_of (key e) := p])) dp (remove1 t L))"
proof -
  let ?b = "bucket_of (key e)" and ?C = "cores (entries a)"
  obtain arr where dp: "dp \<noteq> 0" and arr: "arrays a dp = Some arr" "length arr = BUCKETS_PER_SHARD"
    and chains: "\<And>b. b < BUCKETS_PER_SHARD \<Longrightarrow> \<exists>xs. bucket_chain (entries a) (arr ! b) xs \<and> set xs = set L \<inter> in_bucket ?C b"
    using b t by (auto simp: buckets_inv_def split: if_splits)
  obtain xs where xs: "bucket_chain (entries a) (arr ! ?b) xs" "set xs = set L \<inter> in_bucket ?C ?b"
    using chains [OF bucket_of_less] by blast
  have txs: "t \<in> set xs" using t xs(2) by (auto simp: in_bucket_def cores_def core_def)
  have xsd: "set xs \<subseteq> dom (entries a)" using xs(2) L by auto
  have bl: "?b < length arr" using bucket_of_less arr(2) by simp
  obtain E p where un: "unlink_from_bucket a dp ?b t
      = Some (a\<lparr>entries := E, arrays := (arrays a)(dp \<mapsto> arr[?b := p])\<rparr>)"
    and ch: "bucket_chain E p (remove1 t xs)" and C: "cores E = ?C"
    and lru: "fld lru_prev E = fld lru_prev (entries a)" "fld lru_next E = fld lru_next (entries a)"
    and out: "\<forall>x. x \<notin> set xs \<longrightarrow> E x = entries a x"
    using unlink_from_bucket_chain [OF arr(1) bl xs(1) txs xsd] by blast
  have "buckets_inv E' ((arrays a)(dp \<mapsto> arr[?b := p])) dp (remove1 t L)"
    if E': "fld bucket_next E' = (fld bucket_next E)(t := 0)"
      "cores E' = ?C(t := None)" for E'
  proof -
    have "\<exists>ys. bucket_chain E' (arr[?b := p] ! b) ys \<and> set ys = set (remove1 t L) \<inter> in_bucket (cores E') b"
      if b: "b < BUCKETS_PER_SHARD" for b
    proof (cases "b = ?b")
      case True
      have "distinct xs" using xs(1) by (rule chain_distinct)
      then have "t \<notin> set (remove1 t xs)" "set (remove1 t xs) = set xs - {t}" by auto
      then show ?thesis using True ch E' xs(2) dist arr(2) b
        by (intro exI [of _ "remove1 t xs"]) (auto simp: in_bucket_free)
    next
      case False
      obtain ys where ys: "bucket_chain (entries a) (arr ! b) ys" "set ys = set L \<inter> in_bucket ?C b"
        using chains [OF b] by blast
      have disj: "x \<notin> set xs" if "x \<in> set ys" for x
        using that ys(2) xs(2) False by (auto simp: in_bucket_def)
      have "bucket_chain E' (arr ! b) ys = bucket_chain (entries a) (arr ! b) ys"
        by (rule chain_cong) (use E' out disj txs in \<open>auto simp: fld_def\<close>)
      then show ?thesis using ys False dist E'(2) disj txs
        by (intro exI [of _ ys]) (auto simp: in_bucket_free)
    qed
    then show ?thesis using dp arr by (simp add: buckets_inv_def)
  qed
  moreover have "\<forall>x. x \<notin> set L \<longrightarrow> E x = entries a x" using out xs(2) by auto
  ultimately show ?thesis using dp arr(1) un C lru by (intro exI conjI) auto
qed

text \<open>What eviction in shard \<open>i\<close> may do to the state.\<close>

abbreviation cores_of :: "BlobCacheCtl \<Rightarrow> cores" where
  "cores_of c \<equiv> cores (entries (area c))"

definition settings :: "BlobCacheCtl \<Rightarrow> bool \<times> nat \<times> u64 \<times> u64 \<times> u64 list" where
  "settings c = (usable c, n_shards c, max_bytes c, last_used_counter c,
     [hits_total c, misses_total c, insert_failures_total c, cond_hits_total c, cond_misses_total c,
      cond_inserts_total c])"

definition evicted :: "nat \<Rightarrow> BlobCacheCtl \<Rightarrow> BlobCacheCtl \<Rightarrow> bool" where
  "evicted i c c' \<longleftrightarrow>
    cores_of c' \<subseteq>\<^sub>m cores_of c \<and> payloads (area c') \<subseteq>\<^sub>m payloads (area c)
    \<and> (\<forall>x \<in> dom (cores_of c) - dom (cores_of c').
         \<exists>k d l. cores_of c x = Some (k, d, l, 0) \<and> shard_of (n_shards c) k = i)
    \<and> dom (arrays (area c')) = dom (arrays (area c))
    \<and> bucket_array (shards c' i) = bucket_array (shards c i)
    \<and> (\<forall>j. j \<noteq> i \<longrightarrow> shards c' j = shards c j)
    \<and> settings c' = settings c"

lemma evicted_refl [simp]: "evicted i c c"
  by (simp add: evicted_def)

lemma settings_fields:
  assumes "settings c' = settings c"
  shows "usable c' = usable c" "n_shards c' = n_shards c" "max_bytes c' = max_bytes c"
    "last_used_counter c' = last_used_counter c" "insert_failures_total c' = insert_failures_total c"
  using assms by (simp_all add: settings_def)

lemma evicted_settings: "evicted i c c' \<Longrightarrow> settings c' = settings c"
  by (simp add: evicted_def)

lemma evicted_trans:
  assumes 1: "evicted i c1 c2" and 2: "evicted i c2 c3"
  shows "evicted i c1 c3"
proof -
  have n: "n_shards c2 = n_shards c1" by (rule settings_fields(2) [OF evicted_settings [OF 1]])
  have "\<exists>k d l. cores_of c1 x = Some (k, d, l, 0) \<and> shard_of (n_shards c1) k = i"
    if x: "x \<in> dom (cores_of c1) - dom (cores_of c3)" for x
  proof (cases "x \<in> dom (cores_of c2)")
    case True
    then have "\<exists>k d l. cores_of c2 x = Some (k, d, l, 0) \<and> shard_of (n_shards c1) k = i"
      using 2 x n unfolding evicted_def by auto
    moreover have "cores_of c2 x = cores_of c1 x"
      using 1 True unfolding evicted_def map_le_def by blast
    ultimately show ?thesis by metis
  next
    case False
    then show ?thesis using 1 x unfolding evicted_def by blast
  qed
  then show ?thesis using 1 2 map_le_trans [of "cores_of c3" "cores_of c2" "cores_of c1"]
      map_le_trans [of "payloads (area c3)" "payloads (area c2)" "payloads (area c1)"]
    unfolding evicted_def by metis
qed

lemma stored_bytes_free:
  assumes "finite (dom C)" and "C t = Some (k, d, l, p)"
  shows "stored_bytes C = stored_bytes (C(t := None)) + unat l"
proof -
  have "(\<Sum>x\<in>dom C - {t}. len_at (C(t := None)) x) = (\<Sum>x\<in>dom C - {t}. len_at C x)"
    by (rule sum.cong) (auto simp: len_at_def)
  moreover have "t \<in> dom C" "len_at C t = unat l" using assms by (auto simp: len_at_def)
  ultimately show ?thesis using assms(1) sum.remove [of "dom C" t "len_at C"]
    by (simp add: stored_bytes_def)
qed

lemma store_inv_free:
  assumes inv: "store_inv C P" and t: "C t = Some (k, d, l, p)"
  shows "store_inv (C(t := None)) (P(d := None))"
proof -
  have "d' \<noteq> d" if "C x = Some (k', d', r)" "x \<noteq> t" for x k' d' r
    using inv t that unfolding store_inv_def by metis
  then show ?thesis using inv unfolding store_inv_def by (auto split: if_splits) metis+
qed

lemma pins_inv_unpinned:
  assumes inv: "pins_inv pins C" and t: "C t = Some (k, d, l, 0)"
  shows "t \<notin># pins" and "pins_inv pins (C(t := None))"
proof -
  have "(of_nat (count pins t) :: u32) = 0" using inv t by (auto simp: pins_inv_def)
  moreover have "count pins t < 2 ^ 32" using inv count_le_size [of pins t] by (simp add: pins_inv_def)
  ultimately have "count pins t = 0" by (simp add: word_of_nat_eq_0_iff) (use nat_dvd_not_less in blast)
  then show "t \<notin># pins" by (simp add: not_in_iff)
  then show "pins_inv pins (C(t := None))" using inv by (auto simp: pins_inv_def)
qed

text \<open>The list surgery of one eviction, on the shard it happens in.\<close>

lemma unlink_shard:
  assumes inv: "shard_inv n a i s (us @ t # vs)" and t: "entries a t = Some e"
  shows "\<exists>a1 a2 h l E A. unlink_from_bucket a (bucket_array s) (bucket_of (key e)) t = Some a1
    \<and> unlink_from_lru a1 s t = Some (a2, s\<lparr>lru_head := h, lru_tail := l\<rparr>)
    \<and> a2 = a\<lparr>entries := E, arrays := A\<rparr> \<and> cores E = cores (entries a)
    \<and> (\<forall>x. x \<notin> set (us @ t # vs) \<longrightarrow> E x = entries a x)
    \<and> dom A = dom (arrays a) \<and> (\<forall>dp. dp \<noteq> bucket_array s \<longrightarrow> A dp = arrays a dp)
    \<and> lru_list (E(t := None)) (s\<lparr>lru_head := h, lru_tail := l\<rparr>) (us @ vs)
    \<and> buckets_inv (E(t := None)) A (bucket_array s) (us @ vs)"
proof -
  let ?L = "us @ t # vs"
  have lru: "lru_list (entries a) s ?L" and mem: "set ?L = members (cores (entries a)) n i"
    and b: "buckets_inv (entries a) (arrays a) (bucket_array s) ?L"
    using inv by (simp_all add: shard_inv_def)
  have dom: "set ?L \<subseteq> dom (entries a)" unfolding mem using members_dom dom_cores by metis
  have dist: "distinct ?L" by (rule lru_list_distinct [OF lru])
  then have rm: "remove1 t ?L = us @ vs" by (simp add: remove1_append)
  obtain E p arr where arr: "arrays a (bucket_array s) = Some arr"
    and un: "unlink_from_bucket a (bucket_array s) (bucket_of (key e)) t
      = Some (a\<lparr>entries := E, arrays := (arrays a)(bucket_array s \<mapsto> arr[bucket_of (key e) := p])\<rparr>)"
    and C: "cores E = cores (entries a)"
    and f: "fld lru_prev E = fld lru_prev (entries a)" "fld lru_next E = fld lru_next (entries a)"
    and out: "\<forall>x. x \<notin> set ?L \<longrightarrow> E x = entries a x"
    and b': "\<forall>E'. fld bucket_next E' = (fld bucket_next E)(t := 0) \<longrightarrow> cores E' = (cores (entries a))(t := None)
         \<longrightarrow> buckets_inv E' ((arrays a)(bucket_array s \<mapsto> arr[bucket_of (key e) := p])) (bucket_array s) (us @ vs)"
    using unlink_buckets [OF b dom dist _ t, unfolded rm] by auto
  define A where "A = (arrays a)(bucket_array s \<mapsto> arr[bucket_of (key e) := p])"
  let ?a1 = "a\<lparr>entries := E, arrays := A\<rparr>"
  have lru1: "lru_list (entries ?a1) s ?L" using lru f by (simp add: lru_list_def)
  have dom1: "set ?L \<subseteq> dom (entries ?a1)" using dom C dom_cores [of E] by simp
  obtain E2 h l where 2: "unlink_from_lru ?a1 s t = Some (?a1\<lparr>entries := E2\<rparr>, s\<lparr>lru_head := h, lru_tail := l\<rparr>)"
    "lru_list E2 (s\<lparr>lru_head := h, lru_tail := l\<rparr>) (us @ vs)" "same_but_lru E E2 (set ?L)"
    using unlink_from_lru_list [OF lru1 dom1] by auto
  have "lru_list (E2(t := None)) (s\<lparr>lru_head := h, lru_tail := l\<rparr>) (us @ vs)"
    using 2(2) dist by (simp add: lru_list_def)
  moreover have "buckets_inv (E2(t := None)) A (bucket_array s) (us @ vs)"
    using b' 2(3) C unfolding A_def same_but_lru_def by simp
  moreover have "cores E2 = cores (entries a)" "\<forall>x. x \<notin> set ?L \<longrightarrow> E2 x = entries a x"
    using 2(3) C out by (simp_all add: same_but_lru_def)
  moreover have "dom A = dom (arrays a)" "\<forall>dp. dp \<noteq> bucket_array s \<longrightarrow> A dp = arrays a dp"
    using arr by (auto simp: A_def)
  moreover have "?a1\<lparr>entries := E2\<rparr> = a\<lparr>entries := E2, arrays := A\<rparr>" by simp
  ultimately show ?thesis using un 2(1) unfolding A_def [symmetric] by blast
qed

lemma evict_entry_step:
  assumes inv: "cache_inv pins c" and i: "i < n_shards c"
    and L: "shard_inv (n_shards c) (area c) i (shards c i) (us @ t # vs)"
    and t: "entries (area c) t = Some e" and unpinned: "pin_count e = 0"
  shows "\<exists>c'. evict_entry c i t = Some (c', ucast (data_len e)) \<and> cache_inv pins c'
    \<and> shard_inv (n_shards c) (area c') i (shards c' i) (us @ vs)
    \<and> evicted i c c' \<and> cores_of c' = (cores_of c)(t := None)"
proof -
  let ?n = "n_shards c" and ?a = "area c" and ?s = "shards c i" and ?C = "cores_of c"
  let ?l = "ucast (data_len e) :: u64"
  have Ct: "?C t = Some (key e, data_ptr e, data_len e, 0)"
    using t unpinned by (simp add: cores_def core_def)
  have store: "store_inv ?C (payloads ?a)" and pins: "pins_inv pins ?C"
    and sh: "shards_inv ?n ?a (shards c)" and tot: "total_bytes c = of_nat (stored_bytes ?C)"
    and cap: "stored_bytes ?C \<le> unat (max_bytes c)" and cnt: "n_entries c = of_nat (card (dom ?C))"
    using inv by (simp_all add: cache_inv_def Let_def)
  have d: "data_ptr e \<noteq> 0" using store Ct unfolding store_inv_def by blast
  have fin: "finite (dom ?C)" using store by (simp add: store_inv_def)
  have mem: "set (us @ t # vs) = members ?C ?n i" using L by (simp add: shard_inv_def)
  have "t \<in> members ?C ?n i" using mem by auto
  then have ki: "shard_of ?n (key e) = i" using Ct by (simp add: members_def)
  obtain a1 a2 h l E A where un: "unlink_from_bucket ?a (bucket_array ?s) (bucket_of (key e)) t = Some a1"
      "unlink_from_lru a1 ?s t = Some (a2, ?s\<lparr>lru_head := h, lru_tail := l\<rparr>)"
    and a2: "a2 = ?a\<lparr>entries := E, arrays := A\<rparr>" and C: "cores E = ?C"
    and out: "\<And>x. x \<notin> set (us @ t # vs) \<Longrightarrow> E x = entries ?a x"
    and A: "dom A = dom (arrays ?a)" "\<And>dp. dp \<noteq> bucket_array ?s \<Longrightarrow> A dp = arrays ?a dp"
    and lru: "lru_list (E(t := None)) (?s\<lparr>lru_head := h, lru_tail := l\<rparr>) (us @ vs)"
    and b: "buckets_inv (E(t := None)) A (bucket_array ?s) (us @ vs)"
    using unlink_shard [OF L t] by blast
  define a' where "a' = ?a\<lparr>entries := E(t := None), arrays := A, payloads := (payloads ?a)(data_ptr e := None)\<rparr>"
  define s' where "s' = ?s\<lparr>lru_head := h, lru_tail := l, bytes_used := bytes_used ?s - ?l,
    shard_entries := shard_entries ?s - 1\<rparr>"
  define c' where "c' = c\<lparr>area := a', shards := (shards c)(i := s'), total_bytes := total_bytes c - ?l,
    n_entries := n_entries c - 1, evictions_total := evictions_total c + 1\<rparr>"
  have run: "evict_entry c i t = Some (c', ?l)"
    using un a2 t d by (simp add: evict_entry_def Let_def dsa_free_payload_def dsa_free_entry_def
        a'_def s'_def c'_def)
  have C': "cores (entries a') = ?C(t := None)" using C by (simp add: a'_def)
  have dist: "distinct (us @ t # vs)" by (rule shard_inv_distinct [OF L])
  have lens: "map (len_at (?C(t := None))) (us @ vs) = map (len_at ?C) (us @ vs)"
    using dist by (auto simp: len_at_def)
  have bytes: "bytes_used ?s - ?l = of_nat (sum_list (map (len_at ?C) (us @ vs)))"
    using L Ct by (simp add: shard_inv_def len_at_def)
  have new: "shard_inv ?n a' i s' (us @ vs)"
    unfolding shard_inv_def C' lens using lru b bytes L mem dist
    by (auto simp: shard_inv_def a'_def s'_def members_free lru_list_def)
  have "shards_inv ?n a' ((shards c)(i := s'))"
  proof (rule shards_inv_local [OF sh i new, of "{}"])
    show "entries a' x = entries ?a x" if "x \<notin> members ?C ?n i \<union> {}" for x
      using that out [of x] mem by (auto simp: a'_def)
    show "members (cores (entries a')) ?n j = members ?C ?n j" if "j \<noteq> i" for j
      using that C' Ct ki by (simp add: members_free) (simp add: members_def)
    show "bucket_array (shards c j) \<noteq> bucket_array s'" if "j < ?n" "j \<noteq> i" "bucket_array (shards c j) \<noteq> 0" for j
      using that sh i by (auto simp: shards_inv_def s'_def)
  qed (use A in \<open>auto simp: a'_def s'_def\<close>)
  moreover have "total_bytes c - ?l = of_nat (stored_bytes (?C(t := None)))"
    "stored_bytes (?C(t := None)) \<le> unat (max_bytes c)"
    using stored_bytes_free [OF fin Ct] tot cap by simp_all
  moreover have "card (dom ?C) = Suc (card (dom (?C(t := None))))"
    using fin t card.remove [of "dom ?C" t] by (simp add: domI)
  then have "n_entries c - 1 = of_nat (card (dom (?C(t := None))))" using cnt by simp
  moreover have "finite_area a'"
    using inv A(1) C dom_cores [of E] by (simp add: cache_inv_def Let_def finite_area_def a'_def)
  ultimately have "cache_inv pins c'"
    using inv store_inv_free [OF store Ct] pins_inv_unpinned(2) [OF pins Ct] C'
    by (simp add: cache_inv_def Let_def c'_def) (simp add: a'_def)
  moreover have "evicted i c c'"
    using C A(1) Ct ki by (simp add: evicted_def c'_def settings_def a'_def s'_def map_le_def) auto
  ultimately show ?thesis using run new C' by (intro exI [of _ c']) (simp add: c'_def)
qed

end
