(* ===== verification/Blob_Operations.thy ===== *)
theory Blob_Operations
  imports Blob_Invariant
begin

text \<open>
  The operations of the blob cache keep its invariant: eviction, the capacity and allocation loop,
  insertion, lookup with pinning and release.  Each lemma also says that the operation returns, so
  the pointer walks end and never leave the allocated memory.
\<close>

section \<open>Eviction\<close>

definition all_pinned :: "nat \<Rightarrow> BlobCacheCtl \<Rightarrow> bool" where
  "all_pinned i c \<longleftrightarrow>
    (\<forall>x k d l p. cores_of c x = Some (k, d, l, p) \<longrightarrow> shard_of (n_shards c) k = i \<longrightarrow> p \<noteq> 0)"

lemma unat_saturating_add: "unat x + unat y < 2 ^ 64 \<Longrightarrow> unat (saturating_add x y) = unat x + unat y"
  using unat_add_lem [of x y] by (simp add: saturating_add_def word_le_nat_alt)

lemma unat_u64: "unat (w :: u64) < 2 ^ 64"
  using unsigned_less [of w, where 'a = nat] by simp

lemma evicted_n_shards: "evicted i c c' \<Longrightarrow> n_shards c' = n_shards c"
  by (rule settings_fields(2) [OF evicted_settings])

lemma evict_loop_step:
  assumes "cache_inv pins c" and "i < n_shards c"
    and "shard_inv (n_shards c) (area c) i (shards c i) (us @ vs)"
    and "\<forall>x\<in>set vs. \<forall>k d l p. cores_of c x = Some (k, d, l, p) \<longrightarrow> p \<noteq> 0"
    and "unat freed + stored_bytes (cores_of c) < 2 ^ 64"
  shows "\<exists>c' freed'. evict_loop c i need freed (if us = [] then 0 else last us) = Some (c', freed')
    \<and> cache_inv pins c' \<and> evicted i c c'
    \<and> unat freed' + stored_bytes (cores_of c') = unat freed + stored_bytes (cores_of c)
    \<and> (freed' < need \<longrightarrow> all_pinned i c')"
  using assms
proof (induction us arbitrary: c vs freed rule: rev_induct)
  case Nil
  have "all_pinned i c"
    using Nil.prems(3,4) by (fastforce simp: all_pinned_def shard_inv_def members_def)
  then show ?case using Nil.prems by (subst evict_loop.simps) simp
next
  case (snoc t us)
  let ?L = "us @ t # vs"
  have L: "shard_inv (n_shards c) (area c) i (shards c i) ?L" using snoc.prems(3) by simp
  then have chain: "chain (fld lru_prev (entries (area c))) (lru_tail (shards c i)) (rev vs @ t # rev us)"
    and mem: "set ?L = members (cores_of c) (n_shards c) i"
    by (simp_all add: shard_inv_def lru_list_def)
  have dist: "distinct ?L" by (rule shard_inv_distinct [OF L])
  have "t \<in> members (cores_of c) (n_shards c) i" using mem by auto
  then have "t \<in> dom (entries (area c))" using members_dom dom_cores by blast
  then obtain e where e: "entries (area c) t = Some e" by auto
  have t0: "t \<noteq> 0" using chain_nonzero [OF chain] by auto
  have prev: "lru_prev e = (if us = [] then 0 else last us)"
    using chain_next [OF chain] e by (simp add: hd_rev)
  show ?case
  proof (cases "freed < need")
    case False
    then show ?thesis using snoc.prems by (subst evict_loop.simps) simp
  next
    case True
    note go = True
    show ?thesis
    proof (cases "pin_count e = 0")
      case True
      obtain c1 where c1: "evict_entry c i t = Some (c1, ucast (data_len e))" "cache_inv pins c1"
        "shard_inv (n_shards c) (area c1) i (shards c1 i) (us @ vs)" "evicted i c c1"
        "cores_of c1 = (cores_of c)(t := None)"
        using evict_entry_step [OF snoc.prems(1,2) L e True] by blast
      have n: "n_shards c1 = n_shards c" using c1(4) by (rule evicted_n_shards)
      have bytes: "stored_bytes (cores_of c) = stored_bytes (cores_of c1) + unat (data_len e)"
        using stored_bytes_free [of "cores_of c" t] snoc.prems(1) e c1(5)
        by (simp add: cache_inv_def Let_def store_inv_def cores_def core_def)
      then have freed: "unat (saturating_add freed (ucast (data_len e))) = unat freed + unat (data_len e)"
        using snoc.prems(5) unat_saturating_add [of freed "ucast (data_len e)"] by (simp add: unat_ucast_up)
      have "\<exists>c' freed'. evict_loop c1 i need (saturating_add freed (ucast (data_len e)))
            (if us = [] then 0 else last us) = Some (c', freed')
        \<and> cache_inv pins c' \<and> evicted i c1 c'
        \<and> unat freed' + stored_bytes (cores_of c')
            = unat (saturating_add freed (ucast (data_len e))) + stored_bytes (cores_of c1)
        \<and> (freed' < need \<longrightarrow> all_pinned i c')"
      proof (rule snoc.IH [of c1 vs])
        show "\<forall>x\<in>set vs. \<forall>k d l p. cores_of c1 x = Some (k, d, l, p) \<longrightarrow> p \<noteq> 0"
          using snoc.prems(4) unfolding c1(5) by simp
        show "unat (saturating_add freed (ucast (data_len e))) + stored_bytes (cores_of c1) < 2 ^ 64"
          using snoc.prems(5) unfolding freed bytes by linarith
      qed (use c1 n snoc.prems(2) in simp_all)
      then obtain c' freed' where "evict_loop c1 i need (saturating_add freed (ucast (data_len e)))
            (if us = [] then 0 else last us) = Some (c', freed')"
        "cache_inv pins c'" "evicted i c1 c'"
        "unat freed' + stored_bytes (cores_of c') = unat freed + stored_bytes (cores_of c)"
        "freed' < need \<longrightarrow> all_pinned i c'"
        unfolding freed bytes by auto
      then show ?thesis using go t0 e True c1(1) prev evicted_trans [OF c1(4)]
        by (subst evict_loop.simps) simp
    next
      case False
      have "\<exists>c' freed'. evict_loop c i need freed (if us = [] then 0 else last us) = Some (c', freed')
        \<and> cache_inv pins c' \<and> evicted i c c'
        \<and> unat freed' + stored_bytes (cores_of c') = unat freed + stored_bytes (cores_of c)
        \<and> (freed' < need \<longrightarrow> all_pinned i c')"
        by (rule snoc.IH [of c "t # vs"]) (use snoc.prems L False e in \<open>auto simp: cores_def core_def\<close>)
      then show ?thesis using go t0 e False prev by (subst evict_loop.simps) simp
    qed
  qed
qed

lemma evict_in_shard_ok:
  assumes inv: "cache_inv pins c" and i: "i < n_shards c"
  shows "\<exists>c' freed. evict_in_shard c i need = Some (c', freed) \<and> cache_inv pins c' \<and> evicted i c c'
    \<and> unat freed + stored_bytes (cores_of c') = stored_bytes (cores_of c)
    \<and> (freed < need \<longrightarrow> all_pinned i c')"
proof -
  obtain L where L: "shard_inv (n_shards c) (area c) i (shards c i) L"
    using inv i by (auto simp: cache_inv_def Let_def shards_inv_def)
  then have tail: "lru_tail (shards c i) = (if L = [] then 0 else last L)"
    using chain_first [of "fld lru_prev (entries (area c))" "lru_tail (shards c i)" "rev L"]
    by (simp add: shard_inv_def lru_list_def hd_rev)
  have "stored_bytes (cores_of c) < 2 ^ 64"
    using inv unat_u64 [of "max_bytes c"] by (simp add: cache_inv_def Let_def)
  then show ?thesis using evict_loop_step [of pins c i L "[]" 0 need] inv i L tail
    by (simp add: evict_in_shard_def)
qed

section \<open>The capacity and allocation loop\<close>

text \<open>
  What the cache relies on in the shared-memory allocator: a non-null pointer it returns is not in
  use.
\<close>

definition dsa_contract :: "dsa_alloc \<Rightarrow> bool" where
  "dsa_contract alloc \<longleftrightarrow> (\<forall>k a n. alloc k a n \<noteq> 0 \<longrightarrow>
     entries a (alloc k a n) = None \<and> payloads a (alloc k a n) = None \<and> arrays a (alloc k a n) = None)"

definition reserved :: "BlobCacheCtl \<Rightarrow> dsa_pointer \<Rightarrow> dsa_pointer \<Rightarrow> BlobCacheCtl \<Rightarrow> bool" where
  "reserved c ed dd c1 \<longleftrightarrow> ed \<noteq> 0 \<and> dd \<noteq> 0 \<and> entries (area c) ed = None \<and> payloads (area c) dd = None
     \<and> c1 = c\<lparr>area := (area c)\<lparr>entries := (entries (area c))(ed \<mapsto> zero_entry)\<rparr>\<rparr>"

definition no_room :: "dsa_alloc \<Rightarrow> nat \<Rightarrow> BlobCacheCtl \<Rightarrow> bool" where
  "no_room alloc len c \<longleftrightarrow>
    unat (max_bytes c) < stored_bytes (cores_of c) + len \<or> (\<exists>k a n. finite_area a \<and> alloc k a n = 0)"

definition alloc_outcome :: "dsa_alloc \<Rightarrow> dsa_pointer multiset \<Rightarrow> nat \<Rightarrow> nat \<Rightarrow> BlobCacheCtl
    \<Rightarrow> BlobCacheCtl \<times> (dsa_pointer \<times> dsa_pointer) option \<Rightarrow> bool" where
  "alloc_outcome alloc pins i len c out \<longleftrightarrow> (case out of
     (c1, None) \<Rightarrow> cache_inv pins c1 \<and> evicted i c c1 \<and> all_pinned i c1 \<and> no_room alloc len c1
   | (c1, Some (ed, dd)) \<Rightarrow> \<exists>c0. cache_inv pins c0 \<and> evicted i c c0 \<and> reserved c0 ed dd c1
       \<and> stored_bytes (cores_of c0) + len \<le> unat (max_bytes c0))"

lemma alloc_outcome_evicted:
  "evicted i c c' \<Longrightarrow> alloc_outcome alloc pins i len c' out \<Longrightarrow> alloc_outcome alloc pins i len c out"
  using evicted_trans [of i c c'] unfolding alloc_outcome_def by (fastforce split: prod.splits option.splits)

lemma evict_and_retry:
  assumes inv: "cache_inv pins c" and i: "i < n_shards c" and need: "0 < need"
    and why: "no_room alloc len c"
    and retry: "\<And>c'. cache_inv pins c' \<Longrightarrow> i < n_shards c' \<Longrightarrow>
      stored_bytes (cores_of c') < stored_bytes (cores_of c) \<Longrightarrow>
      \<exists>out. again c' = Some out \<and> alloc_outcome alloc pins i len c' out"
  shows "\<exists>out. do { (c, freed) \<leftarrow> evict_in_shard c i need;
                     if freed = 0 then Some (c, None) else again c } = Some out
    \<and> alloc_outcome alloc pins i len c out"
proof -
  obtain c' freed where c': "evict_in_shard c i need = Some (c', freed)" "cache_inv pins c'" "evicted i c c'"
    "unat freed + stored_bytes (cores_of c') = stored_bytes (cores_of c)" "freed < need \<longrightarrow> all_pinned i c'"
    using evict_in_shard_ok [OF inv i] by blast
  show ?thesis
  proof (cases "freed = 0")
    case True
    moreover have "no_room alloc len c'"
      using why True c'(4) settings_fields(3) [OF evicted_settings [OF c'(3)]] by (simp add: no_room_def)
    ultimately show ?thesis using c' need by (simp add: alloc_outcome_def)
  next
    case False
    then have "0 < unat freed" by (simp add: unat_gt_0)
    then have "stored_bytes (cores_of c') < stored_bytes (cores_of c)" using c'(4) by simp
    then obtain out where "again c' = Some out" "alloc_outcome alloc pins i len c' out"
      using retry [of c'] c'(2) i evicted_n_shards [OF c'(3)] by auto
    then show ?thesis using c'(1) False alloc_outcome_evicted [OF c'(3)] by auto
  qed
qed

lemma saturating_needed:
  assumes inv: "cache_inv pins c" and len: "len < 2 ^ 32"
  defines "s \<equiv> saturating_add (total_bytes c) (of_nat len)"
  shows "max_bytes c < s \<longleftrightarrow> unat (max_bytes c) < stored_bytes (cores_of c) + len"
    and "max_bytes c < s \<Longrightarrow> 0 < saturating_sub s (max_bytes c)"
proof -
  have cap: "stored_bytes (cores_of c) \<le> unat (max_bytes c)" "unat (max_bytes c) < 2 ^ 63"
    "total_bytes c = of_nat (stored_bytes (cores_of c))"
    using inv by (simp_all add: cache_inv_def Let_def)
  have b: "unat (total_bytes c) = stored_bytes (cores_of c)" and l: "unat (of_nat len :: u64) = len"
    using cap len by (simp_all add: unat_of_nat take_bit_nat_eq_self)
  have "unat s = stored_bytes (cores_of c) + len"
    unfolding s_def using unat_saturating_add [of "total_bytes c" "of_nat len"] b l cap len by simp
  then show "max_bytes c < s \<longleftrightarrow> unat (max_bytes c) < stored_bytes (cores_of c) + len"
    by (simp add: word_less_nat_alt)
  show "0 < saturating_sub s (max_bytes c)" if "max_bytes c < s"
    using that by (auto simp: saturating_sub_def word_neq_0_conv [symmetric])
qed

lemma alloc_loop_ok:
  assumes "cache_inv pins c" and "i < n_shards c" and dsa: "dsa_contract alloc"
    and len: "0 < len" "len < 2 ^ 32"
  shows "\<exists>out. alloc_loop alloc calls c i len = Some out \<and> alloc_outcome alloc pins i len c out"
  using assms(1,2)
proof (induction "stored_bytes (cores_of c)" arbitrary: c calls rule: less_induct)
  case less
  have again: "\<exists>out. alloc_loop alloc m c' i len = Some out \<and> alloc_outcome alloc pins i len c' out"
    if "cache_inv pins c'" "i < n_shards c'" "stored_bytes (cores_of c') < stored_bytes (cores_of c)" for c' m
    using less.hyps that by blast
  have fin: "finite_area (area c)" using less.prems(1) by (simp add: cache_inv_def Let_def)
  let ?need = "of_nat len :: u64"
  have need: "0 < ?need" using len by (simp add: word_neq_0_conv [symmetric] word_of_nat_eq_0_iff nat_dvd_not_less)
  define ed where "ed = alloc calls (area c) 80"
  define a where "a = (area c)\<lparr>entries := (entries (area c))(ed \<mapsto> zero_entry)\<rparr>"
  define dd where "dd = alloc (Suc calls) a len"
  consider (full) "max_bytes c < saturating_add (total_bytes c) ?need"
    | (no_entry) "\<not> max_bytes c < saturating_add (total_bytes c) ?need" "ed = 0"
    | (no_data) "\<not> max_bytes c < saturating_add (total_bytes c) ?need" "ed \<noteq> 0" "dd = 0"
    | (both) "\<not> max_bytes c < saturating_add (total_bytes c) ?need" "ed \<noteq> 0" "dd \<noteq> 0"
    by blast
  then show ?case
  proof cases
    case full
    have room: "no_room alloc len c"
      using full saturating_needed(1) [OF less.prems(1) len(2)] by (simp add: no_room_def)
    show ?thesis
      using evict_and_retry [where again = "\<lambda>c'. alloc_loop alloc calls c' i len",
          OF less.prems saturating_needed(2) [OF less.prems(1) len(2) full] room again] full
      by (subst alloc_loop.simps) (simp add: Let_def)
  next
    case no_entry
    then have room: "no_room alloc len c" using fin by (auto simp: no_room_def ed_def)
    show ?thesis using evict_and_retry [where again = "\<lambda>c'. alloc_loop alloc (calls + 1) c' i len"
          and need = 4096, OF less.prems _ room again] no_entry
      by (subst alloc_loop.simps) (simp add: Let_def ed_def)
  next
    case no_data
    moreover have "finite_area a" using fin by (simp add: finite_area_def a_def)
    ultimately have room: "no_room alloc len c" unfolding no_room_def dd_def by blast
    have "entries (area c) ed = None" using dsa no_data(2) unfolding dsa_contract_def ed_def by blast
    then have restored: "c\<lparr>area := dsa_free_entry a ed\<rparr> = c"
      by (simp add: dsa_free_entry_def a_def fun_upd_idem)
    show ?thesis using evict_and_retry [where again = "\<lambda>c'. alloc_loop alloc (calls + 2) c' i len",
          OF less.prems need room again] no_data restored
      by (subst alloc_loop.simps) (simp add: Let_def ed_def [symmetric] a_def [symmetric] dd_def [symmetric])
  next
    case both
    have run: "alloc_loop alloc calls c i len = Some (c\<lparr>area := a\<rparr>, Some (ed, dd))"
      using both by (subst alloc_loop.simps) (simp add: Let_def ed_def [symmetric] a_def [symmetric] dd_def [symmetric])
    have "entries (area c) ed = None" "payloads a dd = None"
      using dsa both unfolding dsa_contract_def ed_def dd_def by blast+
    then have "reserved c ed dd (c\<lparr>area := a\<rparr>)" using both by (simp add: reserved_def a_def)
    moreover have "stored_bytes (cores_of c) + len \<le> unat (max_bytes c)"
      using saturating_needed(1) [OF less.prems(1) len(2)] both(1) by simp
    ultimately show ?thesis using run less.prems(1) by (auto simp: alloc_outcome_def)
  qed
qed

end
