(* ===== verification/Blob_Insert.thy ===== *)
theory Blob_Insert
  imports Blob_Operations
begin

text \<open>
  Insertion into the blob cache: linking a freshly allocated entry into its bucket and LRU list, the
  lazily allocated bucket array, and \<open>insert_blob\<close> as a whole.
\<close>

section \<open>Linking the new entry\<close>

lemma members_new:
  "C x = None \<Longrightarrow> members (C(x \<mapsto> (k, d, l, p))) n j = (if shard_of n k = j then insert x (members C n j) else members C n j)"
  by (auto simp: members_def)

lemma in_bucket_new:
  "C x = None \<Longrightarrow> in_bucket (C(x \<mapsto> (k, d, l, p))) b = (if bucket_of k = b then insert x (in_bucket C b) else in_bucket C b)"
  by (auto simp: in_bucket_def)

lemma stored_bytes_new:
  assumes "finite (dom C)" and "C x = None"
  shows "stored_bytes (C(x \<mapsto> (k, d, l, p))) = stored_bytes C + unat l"
  using stored_bytes_free [of "C(x \<mapsto> (k, d, l, p))" x k d l p] assms by (simp add: fun_upd_idem)

lemma store_inv_keys: "store_inv C P \<Longrightarrow> C x = Some (k, r) \<Longrightarrow> C y = Some (k, r') \<Longrightarrow> x = y"
  unfolding store_inv_def by metis

lemma store_inv_pointers: "store_inv C P \<Longrightarrow> C x = Some (k, d, r) \<Longrightarrow> C y = Some (k', d, r') \<Longrightarrow> x = y"
  unfolding store_inv_def by metis

lemma store_inv_payload:
  assumes "store_inv C P" and "C x = Some (k, d, l, p)"
  shows "x \<noteq> 0 \<and> d \<noteq> 0 \<and> l \<noteq> 0 \<and> (\<exists>bs. P d = Some bs \<and> length bs = unat l)"
  using assms unfolding store_inv_def by (metis option.distinct(1))

lemma store_inv_new:
  assumes inv: "store_inv C P" and x: "C x = None" "x \<noteq> 0" and d: "P d = None" "d \<noteq> 0"
    and k: "\<And>y r. C y \<noteq> Some (k, r)" and l: "l \<noteq> 0" "length bs = unat l"
  shows "store_inv (C(x \<mapsto> (k, d, l, p))) (P(d \<mapsto> bs))"
proof -
  have "C y \<noteq> Some (k', d, l', p')" for y k' l' p'
    using store_inv_payload [OF inv, of y k' d l' p'] d by auto
  then have dd: "C y \<noteq> Some (k', d, r)" for y k' r by (cases r) simp
  show ?thesis
    unfolding store_inv_def
  proof (intro conjI allI impI)
    show "y = z" if "(C(x \<mapsto> (k, d, l, p))) y = Some (k', r)" "(C(x \<mapsto> (k, d, l, p))) z = Some (k', r')"
      for y z k' r r'
      using that k [of y r] k [of z r'] store_inv_keys [OF inv, of y k' r z r'] by (auto split: if_splits)
    show "y = z" if "(C(x \<mapsto> (k, d, l, p))) y = Some (k', d', r)" "(C(x \<mapsto> (k, d, l, p))) z = Some (k'', d', r')"
      for y z k' k'' d' r r'
      using that dd [of y k' r] dd [of z k'' r'] store_inv_pointers [OF inv, of y k' d' r z k'' r']
      by (auto split: if_splits)
  next
    fix y k' d' l' p'
    assume "(C(x \<mapsto> (k, d, l, p))) y = Some (k', d', l', p')"
    then show "d' \<noteq> 0" "l' \<noteq> 0" "\<exists>bs'. (P(d \<mapsto> bs)) d' = Some bs' \<and> length bs' = unat l'"
      using store_inv_payload [OF inv, of y k' d' l' p'] dd [of y k'] d l by (auto split: if_splits)
  qed (use inv x in \<open>auto simp: store_inv_def\<close>)
qed

lemma pins_inv_new:
  assumes inv: "pins_inv pins C" and x: "C x = None"
  shows "pins_inv pins (C(x \<mapsto> (k, d, l, 0)))"
proof -
  have "x \<notin># pins" using assms by (auto simp: pins_inv_def)
  then show ?thesis using inv by (auto simp: pins_inv_def not_in_iff)
qed

lemma buckets_inv_new:
  assumes b: "buckets_inv E A dp L" and dp: "dp \<noteq> 0" and arr: "A dp = Some arr"
    and x: "E x = None" "x \<noteq> 0" and L: "set L \<subseteq> dom E"
    and f: "fld bucket_next E' = (fld bucket_next E)(x := arr ! bucket_of k)"
    and C: "cores E' = (cores E)(x \<mapsto> (k, d, l, p))"
  shows "buckets_inv E' (A(dp \<mapsto> arr[bucket_of k := x])) dp (x # L)"
proof -
  let ?b = "bucket_of k"
  have len: "length arr = BUCKETS_PER_SHARD" and chains: "\<And>b. b < BUCKETS_PER_SHARD \<Longrightarrow>
      \<exists>xs. bucket_chain E (arr ! b) xs \<and> set xs = set L \<inter> in_bucket (cores E) b"
    using b dp arr by (auto simp: buckets_inv_def)
  have xL: "x \<notin> set L" using L x by auto
  have xC: "cores E x = None" using x by (simp add: cores_def)
  have "\<exists>xs. bucket_chain E' (arr[?b := x] ! b) xs \<and> set xs = set (x # L) \<inter> in_bucket (cores E') b"
    if b: "b < BUCKETS_PER_SHARD" for b
  proof -
    obtain xs where xs: "bucket_chain E (arr ! b) xs" "set xs = set L \<inter> in_bucket (cores E) b"
      using chains [OF b] by blast
    have "x \<notin> set xs" using xs(2) xL by simp
    then have ch: "bucket_chain E' (arr ! b) xs" using xs(1) f by simp
    show ?thesis
    proof (cases "b = ?b")
      case True
      then show ?thesis using ch xs(2) x(2) f len b unfolding C in_bucket_new [where C = "cores E", OF xC]
        by (intro exI [of _ "x # xs"]) auto
    next
      case False
      then show ?thesis using ch xs(2) xL unfolding C in_bucket_new [where C = "cores E", OF xC]
        by (intro exI [of _ xs]) (auto simp: in_bucket_def xC)
    qed
  qed
  then show ?thesis using dp len by (simp add: buckets_inv_def)
qed

definition new_entry :: "BlobCacheKey \<Rightarrow> bytes \<Rightarrow> dsa_pointer \<Rightarrow> u64 \<Rightarrow> dsa_pointer \<Rightarrow> Entry" where
  "new_entry k data dd tick nxt = zero_entry\<lparr>key := k, data_ptr := dd, data_len := of_nat (length data),
     last_used := tick, bucket_next := nxt\<rparr>"

text \<open>The list surgery of an insertion, on the shard it happens in.\<close>

lemma link_shard:
  fixes dd :: dsa_pointer and tick :: u64
  assumes inv: "shard_inv n a i s L" and i: "i = shard_of n k" and x: "entries a x = None" "x \<noteq> 0"
    and arr: "bucket_array s \<noteq> 0" "arrays a (bucket_array s) = Some arr"
    and len: "length data < 2 ^ 32"
  defines "E1 \<equiv> (entries a)(x \<mapsto> new_entry k data dd tick (arr ! bucket_of k))"
    and "A \<equiv> (arrays a)(bucket_array s \<mapsto> arr[bucket_of k := x])"
  shows "\<exists>E l. lru_prepend (a\<lparr>entries := E1, payloads := P, arrays := A\<rparr>) s x
      = Some (a\<lparr>entries := E, payloads := P, arrays := A\<rparr>, s\<lparr>lru_head := x, lru_tail := l\<rparr>)
    \<and> cores E = (cores (entries a))(x \<mapsto> (k, dd, of_nat (length data), 0))
    \<and> (\<forall>y. y \<notin> insert x (set L) \<longrightarrow> E y = entries a y)
    \<and> shard_inv n (a\<lparr>entries := E, payloads := P, arrays := A\<rparr>) i
        (s\<lparr>lru_head := x, lru_tail := l, shard_entries := shard_entries s + 1,
           bytes_used := bytes_used s + of_nat (length data)\<rparr>) (x # L)"
proof -
  let ?C = "cores (entries a)" and ?a1 = "a\<lparr>entries := E1, payloads := P, arrays := A\<rparr>"
  have lru: "lru_list (entries a) s L" and mem: "set L = members ?C n i"
    and b: "buckets_inv (entries a) (arrays a) (bucket_array s) L"
    using inv by (simp_all add: shard_inv_def)
  have dom: "set L \<subseteq> dom (entries a)" unfolding mem using members_dom dom_cores by metis
  then have xL: "x \<notin> set L" using x by auto
  have C1: "cores E1 = ?C(x \<mapsto> (k, dd, of_nat (length data), 0))"
    by (simp add: E1_def core_def new_entry_def zero_entry_def)
  have lru1: "lru_list (entries ?a1) s L"
    using lru xL by (simp add: lru_list_def E1_def)
  have "set L \<subseteq> dom (entries ?a1)" using dom by (auto simp: E1_def)
  moreover have "entries ?a1 x = Some (new_entry k data dd tick (arr ! bucket_of k))" by (simp add: E1_def)
  ultimately obtain E l where pre: "lru_prepend ?a1 s x = Some (?a1\<lparr>entries := E\<rparr>, s\<lparr>lru_head := x, lru_tail := l\<rparr>)"
    "lru_list E (s\<lparr>lru_head := x, lru_tail := l\<rparr>) (x # L)" "same_but_lru E1 E (insert x (set L))"
    using lru_prepend_list [OF lru1 _ _ x(2) xL] by auto
  have C: "cores E = ?C(x \<mapsto> (k, dd, of_nat (length data), 0))"
    and f: "fld bucket_next E = (fld bucket_next (entries a))(x := arr ! bucket_of k)"
    and out: "\<forall>y. y \<notin> insert x (set L) \<longrightarrow> E y = entries a y"
    using pre(3) C1 by (simp_all add: same_but_lru_def E1_def new_entry_def)
  have xC: "?C x = None" using x by (simp add: cores_def)
  have bn: "buckets_inv E A (bucket_array s) (x # L)"
    unfolding A_def by (rule buckets_inv_new [OF b arr x dom f C])
  have "map (len_at (cores E)) L = map (len_at ?C) L"
    using xL by (auto simp: C len_at_def)
  moreover have "len_at (cores E) x = length data"
    using len by (simp add: C len_at_def unat_of_nat take_bit_nat_eq_self)
  ultimately have sums: "sum_list (map (len_at (cores E)) (x # L)) = length data + sum_list (map (len_at ?C) L)"
    by (simp only: list.map sum_list.Cons)
  have "set (x # L) = members (cores E) n i"
    unfolding C members_new [where C = ?C, OF xC] using mem i by simp
  then have "shard_inv n (a\<lparr>entries := E, payloads := P, arrays := A\<rparr>) i
        (s\<lparr>lru_head := x, lru_tail := l, shard_entries := shard_entries s + 1,
           bytes_used := bytes_used s + of_nat (length data)\<rparr>) (x # L)"
    using pre(2) bn sums inv unfolding shard_inv_def
    by (simp add: lru_list_def)
  then show ?thesis using pre(1) C out by (intro exI [of _ E] exI [of _ l]) simp
qed

lemma area_update_order: "a\<lparr>payloads := P, entries := E\<rparr> = a\<lparr>entries := E, payloads := P\<rparr>"
  by simp

lemma link_entry_ok:
  assumes inv: "cache_inv pins c0" and res: "reserved c0 ed dd c1"
    and i: "i = shard_of (n_shards c0) k" and new: "\<And>y r. cores_of c0 y \<noteq> Some (k, r)"
    and arr: "bucket_array (shards c0 i) \<noteq> 0"
    and fits: "stored_bytes (cores_of c0) + length data \<le> unat (max_bytes c0)"
    and len: "0 < length data" "length data < 2 ^ 32"
  shows "\<exists>c'. link_entry c1 k data i (bucket_of k) ed dd = Some c' \<and> cache_inv pins c'
    \<and> cores_of c' = (cores_of c0)(ed \<mapsto> (k, dd, of_nat (length data), 0))
    \<and> payloads (area c') = (payloads (area c0))(dd \<mapsto> data)
    \<and> usable c' = usable c0 \<and> n_shards c' = n_shards c0 \<and> max_bytes c' = max_bytes c0
    \<and> insert_failures_total c' = insert_failures_total c0"
proof -
  let ?n = "n_shards c0" and ?a = "area c0" and ?s = "shards c0 i" and ?C = "cores_of c0"
  let ?l = "of_nat (length data) :: u32" and ?P = "(payloads (area c0))(dd \<mapsto> data)"
  have n: "0 < ?n" "?n \<le> MAX_SHARDS" and store: "store_inv ?C (payloads ?a)"
    and pins: "pins_inv pins ?C" and sh: "shards_inv ?n ?a (shards c0)"
    and tot: "total_bytes c0 = of_nat (stored_bytes ?C)" and cap: "unat (max_bytes c0) < 2 ^ 63"
    and cnt: "n_entries c0 = of_nat (card (dom ?C))"
    using inv by (simp_all add: cache_inv_def Let_def)
  have ed: "ed \<noteq> 0" "entries ?a ed = None" and dd: "dd \<noteq> 0" "payloads ?a dd = None"
    and c1: "c1 = c0\<lparr>area := ?a\<lparr>entries := (entries ?a)(ed \<mapsto> zero_entry)\<rparr>\<rparr>"
    using res by (simp_all add: reserved_def)
  then have edC: "?C ed = None" by (simp add: cores_def)
  have il: "i < ?n" unfolding i by (rule shard_of_less [OF n])
  obtain L where L: "shard_inv ?n ?a i ?s L" using sh il by (auto simp: shards_inv_def)
  then obtain arr0 where arr0: "arrays ?a (bucket_array ?s) = Some arr0" "bucket_of k < length arr0"
    using arr bucket_of_less [of k] by (auto simp: shard_inv_def buckets_inv_def)
  define A where "A = (arrays ?a)(bucket_array ?s \<mapsto> arr0[bucket_of k := ed])"
  obtain E l where pre: "lru_prepend (?a\<lparr>entries := (entries ?a)(ed \<mapsto>
         new_entry k data dd (last_used_counter c0) (arr0 ! bucket_of k)), payloads := ?P, arrays := A\<rparr>) ?s ed
      = Some (?a\<lparr>entries := E, payloads := ?P, arrays := A\<rparr>, ?s\<lparr>lru_head := ed, lru_tail := l\<rparr>)"
    and C: "cores E = ?C(ed \<mapsto> (k, dd, ?l, 0))"
    and out: "\<forall>y. y \<notin> insert ed (set L) \<longrightarrow> E y = entries ?a y"
    and new_sh: "shard_inv ?n (?a\<lparr>entries := E, payloads := ?P, arrays := A\<rparr>) i
        (?s\<lparr>lru_head := ed, lru_tail := l, shard_entries := shard_entries ?s + 1,
           bytes_used := bytes_used ?s + of_nat (length data)\<rparr>) (ed # L)"
    using link_shard [where dd = dd and tick = "last_used_counter c0" and P = ?P,
        OF L i ed(2,1) arr arr0(1) len(2)]
    unfolding A_def by blast
  define a' where "a' = ?a\<lparr>entries := E, payloads := ?P, arrays := A\<rparr>"
  define s' where "s' = ?s\<lparr>lru_head := ed, lru_tail := l, shard_entries := shard_entries ?s + 1,
    bytes_used := bytes_used ?s + of_nat (length data)\<rparr>"
  define c' where "c' = c0\<lparr>area := a', shards := (shards c0)(i := s'),
    last_used_counter := last_used_counter c0 + 1, n_entries := n_entries c0 + 1,
    total_bytes := total_bytes c0 + of_nat (length data),
    cond_inserts_total := cond_inserts_total c0 + (if kind k = KEY_KIND_CONDITION then 1 else 0)\<rparr>"
  have run: "link_entry c1 k data i (bucket_of k) ed dd = Some c'"
    using pre arr0 unfolding A_def by (simp add: link_entry_def c1 bucket_head_def bucket_head_store_def Let_def
        new_entry_def area_update_order a'_def s'_def c'_def A_def)
  have mem: "set L = members ?C ?n i" using L by (simp add: shard_inv_def)
  have "shards_inv ?n a' ((shards c0)(i := s'))"
  proof (rule shards_inv_local [OF sh il new_sh [folded a'_def s'_def], of "{ed}"])
    show "entries a' x = entries ?a x" if "x \<notin> members ?C ?n i \<union> {ed}" for x
      using that out mem by (simp add: a'_def)
    show "members (cores (entries a')) ?n j = members ?C ?n j" if "j \<noteq> i" for j
      using that i by (simp add: a'_def C members_new [where C = ?C, OF edC])
    show "x \<notin> members ?C ?n j" if "x \<in> {ed}" for x j
      using that edC by (simp add: members_def)
    show "bucket_array (shards c0 j) \<noteq> bucket_array s'" if "j < ?n" "j \<noteq> i" "bucket_array (shards c0 j) \<noteq> 0" for j
      using that sh il by (auto simp: shards_inv_def s'_def)
  qed (auto simp: a'_def s'_def A_def)
  moreover have ul: "unat ?l = length data" using len by (simp add: unat_of_nat take_bit_nat_eq_self)
  moreover have "store_inv (cores E) ?P"
    unfolding C using len ul by (intro store_inv_new [OF store edC ed(1) dd(2,1) new]) auto
  moreover have fin: "finite (dom ?C)" using store by (simp add: store_inv_def)
  moreover have "card (dom (cores E)) = Suc (card (dom ?C))"
    using fin ed(2) unfolding C by (simp add: domIff card_insert_disjoint)
  moreover have "finite_area (area c0)" using inv by (simp add: cache_inv_def Let_def)
  then have "finite_area a'"
    using fin dom_cores [of E, symmetric] unfolding C by (simp add: finite_area_def a'_def A_def)
  ultimately have "cache_inv pins c'"
    using n pins_inv_new [OF pins edC, of k dd ?l] stored_bytes_new [OF fin edC, of k dd ?l 0] tot fits cap cnt
    by (simp add: cache_inv_def Let_def c'_def a'_def C) 
  then show ?thesis using run by (intro exI [of _ c']) (simp add: c'_def a'_def C)
qed

section \<open>Finding a key\<close>

definition has_key :: "BlobCacheCtl \<Rightarrow> BlobCacheKey \<Rightarrow> bool" where
  "has_key c k \<longleftrightarrow> (\<exists>x r. cores_of c x = Some (k, r))"

lemma find_in_shard:
  assumes inv: "cache_inv pins c" and i: "i = shard_of (n_shards c) k"
    and dp: "bucket_array (shards c i) \<noteq> 0"
  shows "\<exists>head r. bucket_head (area c) (bucket_array (shards c i)) (bucket_of k) = Some head
    \<and> find_in_bucket (area c) head k = Some r
    \<and> (if r = 0 then \<not> has_key c k else \<exists>e. entries (area c) r = Some e \<and> key e = k)"
proof -
  let ?a = "area c" and ?dp = "bucket_array (shards c i)"
  have n: "0 < n_shards c" "n_shards c \<le> MAX_SHARDS" using inv by (simp_all add: cache_inv_def Let_def)
  obtain L where L: "shard_inv (n_shards c) ?a i (shards c i) L"
    using inv shard_of_less [OF n, of k] i by (auto simp: cache_inv_def Let_def shards_inv_def)
  then obtain arr xs where arr: "arrays ?a ?dp = Some arr" "length arr = BUCKETS_PER_SHARD"
    and xs: "bucket_chain (entries ?a) (arr ! bucket_of k) xs" "set xs = set L \<inter> in_bucket (cores_of c) (bucket_of k)"
    using dp bucket_of_less [of k] by (auto simp: shard_inv_def buckets_inv_def)
  have mem: "set L = members (cores_of c) (n_shards c) i" using L by (simp add: shard_inv_def)
  then have "set xs \<subseteq> dom (entries ?a)" using xs(2) members_dom dom_cores by blast
  then obtain r where r: "find_in_bucket ?a (arr ! bucket_of k) k = Some r"
    "if r = 0 then \<forall>x\<in>set xs. \<forall>e. entries ?a x = Some e \<longrightarrow> key e \<noteq> k
     else r \<in> set xs \<and> (\<exists>e. entries ?a r = Some e \<and> key e = k)"
    using find_in_bucket_chain [OF xs(1)] by blast
  have "x \<in> set xs \<and> (\<exists>e. entries ?a x = Some e \<and> key e = k)" if "cores_of c x = Some (k, r')" for x r'
  proof -
    have "\<exists>e. entries ?a x = Some e \<and> key e = k" using that by (auto simp: cores_def core_def)
    moreover have "x \<in> set xs" using that mem xs(2) i by (cases r') (simp add: members_def in_bucket_def)
    ultimately show ?thesis by blast
  qed
  then have "r = 0 \<Longrightarrow> \<not> has_key c k" using r(2) unfolding has_key_def by metis
  moreover have "bucket_head ?a ?dp (bucket_of k) = Some (arr ! bucket_of k)"
    using arr bucket_of_less [of k] by (simp add: bucket_head_def)
  ultimately show ?thesis using r by (metis (no_types, lifting))
qed

lemma no_buckets_no_key:
  assumes inv: "cache_inv pins c" and "bucket_array (shards c (shard_of (n_shards c) k)) = 0"
  shows "\<not> has_key c k"
proof
  assume "has_key c k"
  then obtain x d l p where "cores_of c x = Some (k, d, l, p)" by (auto simp: has_key_def)
  then have "x \<in> members (cores_of c) (n_shards c) (shard_of (n_shards c) k)" by (simp add: members_def)
  moreover have "shard_of (n_shards c) k < n_shards c"
    using inv by (intro shard_of_less) (simp_all add: cache_inv_def Let_def)
  then obtain L where "shard_inv (n_shards c) (area c) (shard_of (n_shards c) k) (shards c (shard_of (n_shards c) k)) L"
    using inv by (auto simp: cache_inv_def Let_def shards_inv_def)
  ultimately show False using assms(2) by (auto simp: shard_inv_def buckets_inv_def)
qed

section \<open>The bucket array of a shard\<close>

lemma ensure_buckets_ok:
  assumes inv: "cache_inv pins c" and i: "i < n_shards c" and dsa: "dsa_contract alloc"
  shows "\<exists>c' dp. ensure_buckets alloc c i = (c', dp) \<and> cache_inv pins c' \<and> settings c' = settings c
    \<and> entries (area c') = entries (area c) \<and> payloads (area c') = payloads (area c)
    \<and> bucket_array (shards c' i) = dp \<and> (dp = 0 \<longrightarrow> c' = c)"
proof (cases "bucket_array (shards c i) = 0 \<and> alloc 0 (area c) (BUCKETS_PER_SHARD * 8) \<noteq> 0")
  case False
  then show ?thesis using inv by (auto simp: ensure_buckets_def Let_def)
next
  case True
  define dp where "dp = alloc 0 (area c) (BUCKETS_PER_SHARD * 8)"
  let ?s = "shards c i" and ?a = "area c"
  let ?a' = "?a\<lparr>arrays := (arrays ?a)(dp \<mapsto> replicate BUCKETS_PER_SHARD 0)\<rparr>" and ?s' = "?s\<lparr>bucket_array := dp\<rparr>"
  have dp: "dp \<noteq> 0" "arrays ?a dp = None" using True dsa unfolding dsa_contract_def dp_def by blast+
  have sh: "shards_inv (n_shards c) ?a (shards c)" using inv by (simp add: cache_inv_def Let_def)
  then obtain L where L: "shard_inv (n_shards c) ?a i ?s L" using i by (auto simp: shards_inv_def)
  then have new: "shard_inv (n_shards c) ?a' i ?s' L"
    using True dp by (auto simp: shard_inv_def buckets_inv_def lru_list_def)
  have "shards_inv (n_shards c) ?a' ((shards c)(i := ?s'))"
  proof (rule shards_inv_local [OF sh i new, of "{}"])
    show "bucket_array (shards c j) \<noteq> bucket_array ?s'"
      if "j < n_shards c" "j \<noteq> i" "bucket_array (shards c j) \<noteq> 0" for j
      using that sh dp by (fastforce simp: shards_inv_def shard_inv_def buckets_inv_def)
  qed auto
  moreover have "finite_area ?a'" using inv by (simp add: cache_inv_def Let_def finite_area_def)
  ultimately have "cache_inv pins (c\<lparr>area := ?a', shards := (shards c)(i := ?s')\<rparr>)"
    using inv by (simp add: cache_inv_def Let_def)
  then show ?thesis using True dp(1) by (simp add: ensure_buckets_def Let_def dp_def settings_def)
qed

section \<open>Insertion\<close>

text \<open>What is left of the cache when unpinned entries of shard \<open>i\<close> have been evicted.\<close>

definition shrunk :: "nat \<Rightarrow> BlobCacheCtl \<Rightarrow> cores \<Rightarrow> (dsa_pointer \<Rightarrow> bytes option) \<Rightarrow> bool" where
  "shrunk i c C P \<longleftrightarrow> C \<subseteq>\<^sub>m cores_of c \<and> P \<subseteq>\<^sub>m payloads (area c)
    \<and> (\<forall>x \<in> dom (cores_of c) - dom C. \<exists>k d l. cores_of c x = Some (k, d, l, 0) \<and> shard_of (n_shards c) k = i)"

definition stored :: "BlobCacheCtl \<Rightarrow> BlobCacheKey \<Rightarrow> bytes \<Rightarrow> BlobCacheCtl \<Rightarrow> bool" where
  "stored c k data c' \<longleftrightarrow> insert_failures_total c' = insert_failures_total c
    \<and> (\<exists>C P ed dd. shrunk (shard_of (n_shards c) k) c C P \<and> C ed = None \<and> P dd = None
        \<and> cores_of c' = C(ed \<mapsto> (k, dd, of_nat (length data), 0)) \<and> payloads (area c') = P(dd \<mapsto> data))"

definition dropped :: "dsa_alloc \<Rightarrow> bytes \<Rightarrow> BlobCacheCtl \<Rightarrow> BlobCacheKey \<Rightarrow> BlobCacheCtl \<Rightarrow> bool" where
  "dropped alloc data c k c' \<longleftrightarrow> insert_failures_total c' = insert_failures_total c + 1
    \<and> shrunk (shard_of (n_shards c) k) c (cores_of c') (payloads (area c'))
    \<and> (all_pinned (shard_of (n_shards c) k) c' \<and> no_room alloc (length data) c' \<or> (\<exists>m a n. finite_area a \<and> alloc m a n = 0))"

lemma evicted_shrunk: "evicted i c c' \<Longrightarrow> shrunk i c (cores_of c') (payloads (area c'))"
  by (simp add: evicted_def shrunk_def)

lemma shrunk_no_key: "shrunk i c C P \<Longrightarrow> \<not> has_key c k \<Longrightarrow> C y \<noteq> Some (k, r)"
  unfolding shrunk_def has_key_def map_le_def by (metis domI)

lemma settings_failure: "settings c' = settings c \<Longrightarrow> insert_failures_total (count_failure c') = insert_failures_total c + 1"
  by (simp add: settings_def count_failure_def)

lemma count_failure_inv [simp]:
  "cache_inv pins (count_failure c) \<longleftrightarrow> cache_inv pins c" "area (count_failure c) = area c"
  "all_pinned i (count_failure c) \<longleftrightarrow> all_pinned i c" "usable (count_failure c) = usable c"
  "n_shards (count_failure c) = n_shards c" "max_bytes (count_failure c) = max_bytes c"
  by (simp_all add: count_failure_def cache_inv_def Let_def all_pinned_def)

lemma insert_into_shard:
  assumes inv: "cache_inv pins c" and dsa: "dsa_contract alloc" and len: "0 < length data" "length data < 2 ^ 32"
    and i: "i = shard_of (n_shards c) k" and new: "\<not> has_key c k" and arr: "bucket_array (shards c i) \<noteq> 0"
  shows "\<exists>c'. do { (c, r) \<leftarrow> alloc_loop alloc 1 c i (length data);
        case r of None \<Rightarrow> Some (count_failure c)
        | Some (entry_dp, data_dp) \<Rightarrow> link_entry c k data i (bucket_of k) entry_dp data_dp } = Some c'
    \<and> cache_inv pins c' \<and> usable c' = usable c \<and> n_shards c' = n_shards c \<and> max_bytes c' = max_bytes c
    \<and> (stored c k data c' \<or> insert_failures_total c' = insert_failures_total c + 1
         \<and> shrunk i c (cores_of c') (payloads (area c')) \<and> all_pinned i c' \<and> no_room alloc (length data) c')"
proof -
  have il: "i < n_shards c" unfolding i using inv by (intro shard_of_less) (simp_all add: cache_inv_def Let_def)
  obtain c1 r where run: "alloc_loop alloc 1 c i (length data) = Some (c1, r)"
    and out: "alloc_outcome alloc pins i (length data) c (c1, r)"
    using alloc_loop_ok [OF inv il dsa len, of 1] by auto
  show ?thesis
  proof (cases r)
    case None
    then have 1: "cache_inv pins c1" "evicted i c c1" "all_pinned i c1" "no_room alloc (length data) c1" using out by (simp_all add: alloc_outcome_def)
    note same = evicted_settings [OF 1(2)]
    show ?thesis using run None 1 settings_fields [OF same] settings_failure [OF same] evicted_shrunk [OF 1(2)]
      by (simp add: no_room_def)
  next
    case (Some ptrs)
    then obtain ed dd c0 where r: "r = Some (ed, dd)" and c0: "cache_inv pins c0" "evicted i c c0" "reserved c0 ed dd c1"
      "stored_bytes (cores_of c0) + length data \<le> unat (max_bytes c0)"
      using out by (cases ptrs) (auto simp: alloc_outcome_def)
    note same = settings_fields [OF evicted_settings [OF c0(2)]] and sh = evicted_shrunk [OF c0(2)]
    have "i = shard_of (n_shards c0) k" "bucket_array (shards c0 i) \<noteq> 0"
      using i arr same c0(2) by (simp_all add: evicted_def)
    then obtain c' where c': "link_entry c1 k data i (bucket_of k) ed dd = Some c'" "cache_inv pins c'"
      "cores_of c' = (cores_of c0)(ed \<mapsto> (k, dd, of_nat (length data), 0))"
      "payloads (area c') = (payloads (area c0))(dd \<mapsto> data)"
      "usable c' = usable c0" "n_shards c' = n_shards c0" "max_bytes c' = max_bytes c0"
      "insert_failures_total c' = insert_failures_total c0"
      using link_entry_ok [OF c0(1,3) _ shrunk_no_key [OF sh new] _ c0(4) len] by blast
    have "cores_of c0 ed = None" "payloads (area c0) dd = None" using c0(3) by (simp_all add: reserved_def cores_def)
    then have "stored c k data c'" unfolding stored_def using c' same sh i by auto
    then show ?thesis using run r c' same by simp
  qed
qed

lemma insert_blob_ok:
  assumes inv: "cache_inv pins c" and dsa: "dsa_contract alloc" and len: "length data < 2 ^ 32"
  shows "\<exists>c'. insert_blob alloc k data c = Some c' \<and> cache_inv pins c'
    \<and> usable c' = usable c \<and> n_shards c' = n_shards c \<and> max_bytes c' = max_bytes c
    \<and> (if \<not> usable c \<or> data = [] \<or> has_key c k then c' = c else stored c k data c' \<or> dropped alloc data c k c')"
proof (cases "\<not> usable c \<or> data = []")
  case True
  then show ?thesis using inv by (auto simp: insert_blob_def)
next
  case False
  let ?i = "shard_of (n_shards c) k"
  have n: "0 < n_shards c" "?i < n_shards c"
    using inv shard_of_less [of "n_shards c" k] by (simp_all add: cache_inv_def Let_def)
  obtain c1 dp where c1: "ensure_buckets alloc c ?i = (c1, dp)" "cache_inv pins c1" "settings c1 = settings c"
    "entries (area c1) = entries (area c)" "payloads (area c1) = payloads (area c)"
    "bucket_array (shards c1 ?i) = dp" "dp = 0 \<longrightarrow> c1 = c"
    using ensure_buckets_ok [OF inv n(2) dsa] by auto
  note same = settings_fields [OF c1(3)]
  have key: "has_key c1 k \<longleftrightarrow> has_key c k" using c1(4) by (simp add: has_key_def)
  show ?thesis
  proof (cases "dp = 0")
    case True
    then have "\<not> has_key c k" using no_buckets_no_key [OF inv] c1 by simp
    have "alloc 0 (area c) (BUCKETS_PER_SHARD * 8) = 0"
      using True c1(1) by (auto simp: ensure_buckets_def Let_def split: if_splits)
    moreover have "finite_area (area c)" using inv by (simp add: cache_inv_def Let_def)
    ultimately have "dropped alloc data c k (count_failure c)"
      using settings_failure [OF refl, of c] unfolding dropped_def shrunk_def by auto
    then show ?thesis using True False n c1(1,7) inv \<open>\<not> has_key c k\<close>
      by (intro exI [of _ "count_failure c"]) (simp add: insert_blob_def hash_to_shard_bucket_split)
  next
    case nz: False
    obtain head r where find: "bucket_head (area c1) dp (bucket_of k) = Some head"
      "find_in_bucket (area c1) head k = Some r"
      "if r = 0 then \<not> has_key c1 k else \<exists>e. entries (area c1) r = Some e \<and> key e = k"
      using find_in_shard [OF c1(2), of ?i k] same nz c1(6) by auto
    have run: "insert_blob alloc k data c = (if r \<noteq> 0 then Some c1 else
        do { (c, r) \<leftarrow> alloc_loop alloc 1 c1 ?i (length data);
             case r of None \<Rightarrow> Some (count_failure c)
             | Some (entry_dp, data_dp) \<Rightarrow> link_entry c k data ?i (bucket_of k) entry_dp data_dp })"
      using False n c1(1) nz find(1,2) by (simp add: insert_blob_def hash_to_shard_bucket_split)
    show ?thesis
    proof (cases "r = 0")
      case True
      then have new: "\<not> has_key c1 k" using find(3) by simp
      have sh: "shrunk ?i c1 = shrunk ?i c" using c1(4,5) same(2) by (intro ext) (simp add: shrunk_def)
      then have st: "stored c1 k data c' \<longleftrightarrow> stored c k data c'" for c' using same by (simp add: stored_def)
      obtain c' where "insert_blob alloc k data c = Some c'" "cache_inv pins c'"
        "usable c' = usable c1" "n_shards c' = n_shards c1" "max_bytes c' = max_bytes c1"
        "stored c1 k data c' \<or> insert_failures_total c' = insert_failures_total c1 + 1
           \<and> shrunk ?i c1 (cores_of c') (payloads (area c')) \<and> all_pinned ?i c' \<and> no_room alloc (length data) c'"
        using insert_into_shard [where i = ?i, OF c1(2) dsa _ len _ new] False same(2) nz c1(6)
        unfolding run by (simp add: True) blast
      then show ?thesis using False new key same sh st by (auto simp: dropped_def)
    next
      case False
      then have "has_key c k" using find(3) key by (auto simp: has_key_def cores_def core_def)
      moreover have "bucket_array (shards c ?i) \<noteq> 0" using no_buckets_no_key [OF inv] calculation by blast
      then have "c1 = c" using c1(1) by (simp add: ensure_buckets_def)
      ultimately show ?thesis using run False inv by simp
    qed
  qed
qed

end
