(* ===== verification/Blob_Steps.thy ===== *)
theory Blob_Steps
  imports Blob_Insert
begin

text \<open>
  The blob cache as a state machine: lookups, releases and insertions in any order, from the state
  the startup hook leaves.  Every reachable state satisfies the invariant, a pinned blob keeps its
  bytes until its last pin is released, and what a lookup returns under a key is what was inserted
  under that key.
\<close>

section \<open>Pinning and releasing\<close>

lemma shard_inv_same:
  assumes "\<And>f. f \<in> {bucket_next, lru_prev, lru_next} \<Longrightarrow> fld f (entries a') = fld f (entries a)"
    and "arrays a' = arrays a" and "members (cores (entries a')) = members (cores (entries a))"
    and "in_bucket (cores (entries a')) = in_bucket (cores (entries a))"
    and "len_at (cores (entries a')) = len_at (cores (entries a))"
  shows "shard_inv n a' i s L \<longleftrightarrow> shard_inv n a i s L"
  using assms by (simp add: shard_inv_def lru_list_def buckets_inv_def)

lemma pin_update_inv:
  assumes inv: "cache_inv pins c" and x: "entries (area c) x = Some e"
    and same: "fld bucket_next ((entries (area c))(x \<mapsto> e')) = fld bucket_next (entries (area c))"
      "fld lru_prev ((entries (area c))(x \<mapsto> e')) = fld lru_prev (entries (area c))"
      "fld lru_next ((entries (area c))(x \<mapsto> e')) = fld lru_next (entries (area c))"
    and e': "core e' = (key e, data_ptr e, data_len e, p)"
    and pins: "pins_inv pins' ((cores_of c)(x \<mapsto> (key e, data_ptr e, data_len e, p)))"
  shows "cache_inv pins' (c\<lparr>area := (area c)\<lparr>entries := (entries (area c))(x \<mapsto> e')\<rparr>\<rparr>)"
proof -
  let ?C = "cores_of c" and ?C' = "(cores_of c)(x \<mapsto> (key e, data_ptr e, data_len e, p))"
  let ?a' = "(area c)\<lparr>entries := (entries (area c))(x \<mapsto> e')\<rparr>"
  have C: "?C x = Some (key e, data_ptr e, data_len e, pin_count e)" using x by (simp add: cores_def core_def)
  have C': "cores (entries ?a') = ?C'" using e' by simp
  have m: "members ?C' = members ?C" and b: "in_bucket ?C' = in_bucket ?C" and l: "len_at ?C' = len_at ?C"
    using C by (auto simp: members_def in_bucket_def len_at_def fun_eq_iff)
  have d: "dom ?C' = dom ?C" using x by auto
  have "shard_inv n ?a' i s L \<longleftrightarrow> shard_inv n (area c) i s L" for n i s L
    by (rule shard_inv_same) (use same C' m b l in auto)
  then have "shards_inv (n_shards c) ?a' (shards c)" using inv by (simp add: cache_inv_def Let_def shards_inv_def)
  moreover have "stored_bytes ?C' = stored_bytes ?C" unfolding stored_bytes_def d l ..
  moreover have store: "store_inv ?C (payloads (area c))" using inv by (simp add: cache_inv_def Let_def)
  have old: "\<exists>r0. ?C y = Some (k, d, r0)" if "?C' y = Some (k, d, r)" for y k d r
    using that C by (auto split: if_splits)
  have "store_inv ?C' (payloads (area c))"
    unfolding store_inv_def
  proof (intro conjI allI impI)
    show "y = z" if "?C' y = Some (k, r)" "?C' z = Some (k, r')" for y z k r r'
      using old [of y k "fst r" "snd r"] old [of z k "fst r'" "snd r'"] that
        store_inv_keys [OF store, of y k _ z] by auto
    show "y = z" if "?C' y = Some (k, d, r)" "?C' z = Some (k', d, r')" for y z k k' d r r'
      using old [OF that(1)] old [OF that(2)] store_inv_pointers [OF store, of y k d _ z k'] by auto
  next
    fix y k' d' l' p'
    assume "?C' y = Some (k', d', l', p')"
    then obtain p0 where "?C y = Some (k', d', l', p0)" using C by (auto split: if_splits)
    then show "d' \<noteq> 0" "l' \<noteq> 0" "\<exists>bs. payloads (area c) d' = Some bs \<and> length bs = unat l'"
      using store_inv_payload [OF store, of y k' d' l' p0] by auto
  next
    show "finite (dom ?C')" unfolding d using store by (simp add: store_inv_def)
    show "?C' 0 = None" using store store_inv_payload [OF store C] by (simp add: store_inv_def)
  qed
  moreover have "finite_area ?a'" using inv by (simp add: cache_inv_def Let_def finite_area_def)
  ultimately show ?thesis using inv pins C' d by (simp add: cache_inv_def Let_def)
qed

lemma pins_inv_pin:
  assumes "pins_inv pins C" and "C x = Some (k, d, l, p)" and "size pins + 1 < 2 ^ 32"
  shows "pins_inv (add_mset x pins) (C(x \<mapsto> (k, d, l, p + 1)))"
  using assms by (auto simp: pins_inv_def split: if_splits)

lemma pins_inv_unpin:
  assumes "pins_inv pins C" and "C x = Some (k, d, l, p)" and "x \<in># pins"
  shows "pins_inv (pins - {#x#}) (C(x \<mapsto> (k, d, l, p - 1)))"
proof -
  have "p = of_nat (count pins x)" using assms by (auto simp: pins_inv_def)
  then have "p - 1 = of_nat (count (pins - {#x#}) x)"
    using assms(3) by (cases "count pins x") (auto simp: not_in_iff [symmetric])
  moreover have "set_mset (pins - {#x#}) \<subseteq> dom C" using assms(1) by (auto simp: pins_inv_def dest: in_diffD)
  moreover have "size (pins - {#x#}) < 2 ^ 32"
    using assms(1) size_Diff_submset [of "{#x#}" pins] assms(3) by (auto simp: pins_inv_def)
  ultimately show ?thesis using assms(1) by (auto simp: pins_inv_def)
qed

lemma count_hit_inv [simp]:
  "cache_inv pins (count_hit b c) \<longleftrightarrow> cache_inv pins c" "area (count_hit b c) = area c"
  "usable (count_hit b c) = usable c" "n_shards (count_hit b c) = n_shards c"
  by (simp_all add: count_hit_def cache_inv_def Let_def)

lemma count_miss_inv [simp]:
  "cache_inv pins (count_miss b c) \<longleftrightarrow> cache_inv pins c" "area (count_miss b c) = area c"
  "usable (count_miss b c) = usable c" "n_shards (count_miss b c) = n_shards c"
  by (simp_all add: count_miss_def cache_inv_def Let_def)

lemma cache_inv_clock [simp]: "cache_inv pins (c\<lparr>last_used_counter := t\<rparr>) \<longleftrightarrow> cache_inv pins c"
  by (simp add: cache_inv_def Let_def)

lemma pin_entry_ok:
  fixes t :: u64
  assumes inv: "cache_inv pins c" and x: "entries (area c) x = Some e" and room: "size pins + 1 < 2 ^ 32"
  defines "e' \<equiv> e\<lparr>pin_count := pin_count e + 1, last_used := t\<rparr>"
  shows "cache_inv (add_mset x pins) (c\<lparr>area := (area c)\<lparr>entries := (entries (area c))(x \<mapsto> e')\<rparr>\<rparr>)"
proof (rule pin_update_inv [OF inv x])
  show "core e' = (key e, data_ptr e, data_len e, pin_count e + 1)" by (simp add: e'_def core_def)
  have "pins_inv pins (cores_of c)" using inv by (simp add: cache_inv_def Let_def)
  then show "pins_inv (add_mset x pins) ((cores_of c)(x \<mapsto> (key e, data_ptr e, data_len e, pin_count e + 1)))"
    using pins_inv_pin [OF _ _ room, of "cores_of c" x] x by (simp add: cores_def core_def)
qed (use x in \<open>auto simp: fld_def e'_def\<close>)

lemma get_pinned_ok:
  assumes inv: "cache_inv pins c"
  shows "\<exists>c' r. get_pinned k c = Some (c', r) \<and> usable c' = usable c \<and> n_shards c' = n_shards c
    \<and> payloads (area c') = payloads (area c)
    \<and> (case r of None \<Rightarrow> cache_inv pins c' \<and> area c' = area c \<and> (usable c \<longrightarrow> \<not> has_key c k)
       | Some x \<Rightarrow> (size pins + 1 < 2 ^ 32 \<longrightarrow> cache_inv (add_mset x pins) c') \<and> (\<exists>d l p. cores_of c x = Some (k, d, l, p)
           \<and> cores_of c' = (cores_of c)(x \<mapsto> (k, d, l, p + 1))))"
proof (cases "usable c")
  case False
  then show ?thesis using inv by (simp add: get_pinned_def)
next
  case True
  let ?i = "shard_of (n_shards c) k" and ?cond = "kind k = KEY_KIND_CONDITION"
  let ?dp = "bucket_array (shards c ?i)"
  have n: "n_shards c \<noteq> 0" using inv by (simp add: cache_inv_def Let_def)
  show ?thesis
  proof (cases "?dp = 0")
    case dp: True
    then show ?thesis using no_buckets_no_key [OF inv dp] inv True n
      by (simp add: get_pinned_def hash_to_shard_bucket_split)
  next
    case dp: False
    obtain head r where find: "bucket_head (area c) ?dp (bucket_of k) = Some head"
      "find_in_bucket (area c) head k = Some r"
      "if r = 0 then \<not> has_key c k else \<exists>e. entries (area c) r = Some e \<and> key e = k"
      using find_in_shard [OF inv refl dp] by blast
    show ?thesis
    proof (cases "r = 0")
      case r: True
      then show ?thesis using find inv True n dp by (simp add: get_pinned_def hash_to_shard_bucket_split)
    next
      case r: False
      then obtain e where e: "entries (area c) r = Some e" "key e = k" using find(3) by auto
      let ?e = "e\<lparr>pin_count := pin_count e + 1, last_used := last_used_counter c\<rparr>"
      let ?a = "(area c)\<lparr>entries := (entries (area c))(r \<mapsto> ?e)\<rparr>"
      have "get_pinned k c =
          Some (count_hit ?cond (c\<lparr>area := ?a, last_used_counter := last_used_counter c + 1\<rparr>), Some r)"
        using True n dp find(1,2) r e by (simp add: get_pinned_def hash_to_shard_bucket_split Let_def)
      moreover have "cache_inv (add_mset r pins) (c\<lparr>area := ?a, last_used_counter := last_used_counter c + 1\<rparr>)"
        if "size pins + 1 < 2 ^ 32"
        using pin_entry_ok [OF inv e(1) that] cache_inv_clock [where c = "c\<lparr>area := ?a\<rparr>"] by simp
      ultimately show ?thesis using e by (simp add: cores_def core_def fun_eq_iff)
    qed
  qed
qed

lemma release_ok:
  assumes inv: "cache_inv pins c" and x: "x \<in># pins"
  shows "\<exists>c'. release x c = Some c' \<and> cache_inv (pins - {#x#}) c' \<and> usable c' = usable c
    \<and> n_shards c' = n_shards c \<and> payloads (area c') = payloads (area c)
    \<and> (\<exists>k d l p. cores_of c x = Some (k, d, l, p) \<and> cores_of c' = (cores_of c)(x \<mapsto> (k, d, l, p - 1)))"
proof -
  have pins: "pins_inv pins (cores_of c)" and store: "store_inv (cores_of c) (payloads (area c))"
    using inv by (simp_all add: cache_inv_def Let_def)
  obtain e where e: "entries (area c) x = Some e" using pins x by (auto simp: pins_inv_def)
  then have C: "cores_of c x = Some (key e, data_ptr e, data_len e, pin_count e)" by (simp add: cores_def core_def)
  let ?e = "e\<lparr>pin_count := pin_count e - 1\<rparr>"
  let ?a = "(area c)\<lparr>entries := (entries (area c))(x \<mapsto> ?e)\<rparr>"
  have "x \<noteq> 0" using store_inv_payload [OF store C] by simp
  then have "release x c = Some (c\<lparr>area := ?a\<rparr>)" using e by (simp add: release_def)
  moreover have "cache_inv (pins - {#x#}) (c\<lparr>area := ?a\<rparr>)"
  proof (rule pin_update_inv [OF inv e])
    show "core ?e = (key e, data_ptr e, data_len e, pin_count e - 1)" by (simp add: core_def)
    show "pins_inv (pins - {#x#}) ((cores_of c)(x \<mapsto> (key e, data_ptr e, data_len e, pin_count e - 1)))"
      by (rule pins_inv_unpin [OF pins C x])
  qed (use e in \<open>auto simp: fld_def\<close>)
  ultimately show ?thesis using C by (simp add: core_def)
qed

section \<open>What the cache holds\<close>

text \<open>The bytes a lookup of \<open>k\<close> would lend out.\<close>

definition contents :: "BlobCacheCtl \<Rightarrow> BlobCacheKey \<Rightarrow> bytes option" where
  "contents c k = (case get_pinned k c of Some (c', Some x) \<Rightarrow> as_slice c' x | _ \<Rightarrow> None)"

lemma as_slice_payload:
  assumes store: "store_inv (cores_of c) (payloads (area c))" and x: "cores_of c x = Some (k, d, l, p)"
  shows "as_slice c x = payloads (area c) d" and "payloads (area c) d \<noteq> None"
proof -
  obtain e where e: "entries (area c) x = Some e" "data_ptr e = d" "data_len e = l"
    using x by (auto simp: cores_def core_def)
  obtain bs where bs: "x \<noteq> 0" "d \<noteq> 0" "l \<noteq> 0" "payloads (area c) d = Some bs" "length bs = unat l"
    using store_inv_payload [OF store x] by auto
  have "Prelude.slice bs 0 (unat l) = Some bs" using slice_prefix [of bs "[]"] bs(5) by simp
  then show "as_slice c x = payloads (area c) d" "payloads (area c) d \<noteq> None"
    using e bs by (simp_all add: as_slice_def)
qed

lemma as_slice_cong:
  assumes store: "store_inv (cores_of c) (payloads (area c))" and x: "cores_of c x = Some (k, d, l, p)"
    and x': "cores_of c' x = Some (k', d, l, p')" and same: "payloads (area c') d = payloads (area c) d"
  shows "as_slice c' x = as_slice c x"
proof -
  obtain e' where "entries (area c') x = Some e'" "data_ptr e' = d" "data_len e' = l"
    using x' by (auto simp: cores_def core_def)
  moreover obtain e where "entries (area c) x = Some e" "data_ptr e = d" "data_len e = l"
    using x by (auto simp: cores_def core_def)
  ultimately show ?thesis using same by (simp add: as_slice_def)
qed

lemma cache_inv_store: "cache_inv pins c \<Longrightarrow> store_inv (cores_of c) (payloads (area c))"
  by (simp add: cache_inv_def Let_def)

lemma get_pinned_slice:
  assumes inv: "cache_inv pins c" and get: "get_pinned k c = Some (c', Some x)"
  shows "\<exists>d l p. cores_of c x = Some (k, d, l, p) \<and> as_slice c' x = payloads (area c) d
    \<and> as_slice c' x = as_slice c x \<and> payloads (area c) d \<noteq> None"
proof -
  obtain d l p where x: "cores_of c x = Some (k, d, l, p)" "cores_of c' = (cores_of c)(x \<mapsto> (k, d, l, p + 1))"
    and P: "payloads (area c') = payloads (area c)"
    using get_pinned_ok [OF inv, of k] get by auto
  note store = cache_inv_store [OF inv]
  have "as_slice c' x = as_slice c x"
    using as_slice_cong [OF store x(1), of c' k "p + 1"] x(2) P by simp
  then show ?thesis using as_slice_payload [OF store x(1)] x(1) by auto
qed

lemma contents_iff:
  assumes inv: "cache_inv pins c" and on: "usable c"
  shows "contents c k = Some bs \<longleftrightarrow> (\<exists>x d l p. cores_of c x = Some (k, d, l, p) \<and> payloads (area c) d = Some bs)"
proof -
  note store = cache_inv_store [OF inv]
  obtain c' r where get: "get_pinned k c = Some (c', r)"
    "case r of None \<Rightarrow> \<not> has_key c k | Some x \<Rightarrow> True"
    using get_pinned_ok [OF inv, of k] on by (auto split: option.splits)
  show ?thesis
  proof (cases r)
    case None
    then show ?thesis using get by (auto simp: contents_def has_key_def)
  next
    case (Some x)
    then obtain d l p where x: "cores_of c x = Some (k, d, l, p)" "as_slice c' x = payloads (area c) d"
      using get_pinned_slice [OF inv] get(1) by blast
    have "(\<exists>x d l p. cores_of c x = Some (k, d, l, p) \<and> payloads (area c) d = Some bs) \<longleftrightarrow> payloads (area c) d = Some bs"
    proof
      assume "\<exists>x d l p. cores_of c x = Some (k, d, l, p) \<and> payloads (area c) d = Some bs"
      then obtain y d' l' p' where y: "cores_of c y = Some (k, d', l', p')" "payloads (area c) d' = Some bs" by blast
      have "y = x" by (rule store_inv_keys [OF store y(1) x(1)])
      then show "payloads (area c) d = Some bs" using y x(1) by simp
    next
      assume "payloads (area c) d = Some bs"
      then show "\<exists>x d l p. cores_of c x = Some (k, d, l, p) \<and> payloads (area c) d = Some bs" using x(1) by blast
    qed
    moreover have "contents c k = payloads (area c) d" using x(2) get(1) Some by (simp add: contents_def)
    ultimately show ?thesis by simp
  qed
qed

lemma contents_None_iff:
  assumes inv: "cache_inv pins c" and on: "usable c"
  shows "contents c k = None \<longleftrightarrow> \<not> has_key c k"
proof
  assume none: "contents c k = None"
  show "\<not> has_key c k"
  proof
    assume "has_key c k"
    then obtain x d l p where x: "cores_of c x = Some (k, d, l, p)" by (auto simp: has_key_def)
    then obtain bs where "payloads (area c) d = Some bs"
      using as_slice_payload(2) [OF cache_inv_store [OF inv] x] by blast
    then have "contents c k = Some bs" using contents_iff [OF inv on] x by blast
    then show False using none by simp
  qed
next
  assume "\<not> has_key c k"
  then show "contents c k = None"
    using contents_iff [OF inv on, of k] unfolding has_key_def by (cases "contents c k") blast+
qed

text \<open>Insertion: the new blob is there, or it was dropped and counted; the others keep their bytes or are gone.\<close>

lemma shrunk_payload:
  assumes store: "store_inv (cores_of c) (payloads (area c))" and sh: "shrunk i c C P"
    and x: "C x = Some (k, d, l, p)" "P d = Some bs"
  shows "cores_of c x = Some (k, d, l, p) \<and> payloads (area c) d = Some bs"
  using sh x unfolding shrunk_def map_le_def by (metis domI)

lemma dropped_contents:
  assumes inv: "cache_inv pins c" "cache_inv pins c'" and on: "usable c" "usable c'"
    and dr: "dropped alloc data c k c'" and some: "contents c' k' = Some bs"
  shows "contents c k' = Some bs"
proof -
  obtain x d l p where "cores_of c' x = Some (k', d, l, p)" "payloads (area c') d = Some bs"
    using some contents_iff [OF inv(2) on(2)] by blast
  then show ?thesis using dr shrunk_payload [OF cache_inv_store [OF inv(1)]] contents_iff [OF inv(1) on(1)]
    unfolding dropped_def by blast
qed

lemma stored_old:
  assumes inv: "cache_inv pins c'" and c': "cores_of c' = C(ed \<mapsto> (k, dd, r))" "payloads (area c') = P(dd \<mapsto> data)"
    and x: "x \<noteq> ed" "C x = Some (k', d, l, p)"
  shows "cores_of c' x = Some (k', d, l, p) \<and> payloads (area c') d = P d"
proof -
  have old: "cores_of c' x = Some (k', d, l, p)" and new: "cores_of c' ed = Some (k, dd, r)" using c' x by simp_all
  have "d \<noteq> dd"
  proof
    assume "d = dd"
    then have "x = ed" using store_inv_pointers [OF cache_inv_store [OF inv] old, of ed k r] new by simp
    then show False using x(1) by simp
  qed
  then show ?thesis using old c'(2) by simp
qed

lemma stored_contents:
  assumes inv: "cache_inv pins c" "cache_inv pins c'" and on: "usable c" "usable c'"
    and st: "stored c k data c'"
  shows "contents c' k = Some data" and "k' \<noteq> k \<Longrightarrow> contents c' k' = Some bs \<Longrightarrow> contents c k' = Some bs"
proof -
  obtain C P ed dd where sh: "shrunk (shard_of (n_shards c) k) c C P" and new: "C ed = None" "P dd = None"
    and c': "cores_of c' = C(ed \<mapsto> (k, dd, of_nat (length data), 0))" "payloads (area c') = P(dd \<mapsto> data)"
    using st by (auto simp: stored_def)
  have "cores_of c' ed = Some (k, dd, of_nat (length data), 0)" "payloads (area c') dd = Some data"
    using c' by simp_all
  then show "contents c' k = Some data" using contents_iff [OF inv(2) on(2)] by blast
  assume k': "k' \<noteq> k" and "contents c' k' = Some bs"
  then obtain x d l p where x: "cores_of c' x = Some (k', d, l, p)" "payloads (area c') d = Some bs"
    using contents_iff [OF inv(2) on(2)] by blast
  have ne: "x \<noteq> ed" using x(1) c'(1) k' by auto
  then have "C x = Some (k', d, l, p)" using x(1) c'(1) by simp
  moreover have "P d = Some bs" using stored_old [OF inv(2) c' ne calculation] x(2) by simp
  ultimately show "contents c k' = Some bs"
    using shrunk_payload [OF cache_inv_store [OF inv(1)] sh] contents_iff [OF inv(1) on(1)] by blast
qed

text \<open>A pinned blob survives an insertion.\<close>

lemma pinned_survives:
  assumes inv: "cache_inv pins c" and x: "x \<in># pins" and sh: "shrunk i c C P"
    and C: "cores_of c x = Some (k, d, l, p)"
  shows "C x = cores_of c x"
proof (rule ccontr)
  assume ne: "C x \<noteq> cores_of c x"
  then have "x \<in> dom (cores_of c) - dom C" using sh C unfolding shrunk_def map_le_def by (metis DiffI domI)
  then obtain k' d' l' where "cores_of c x = Some (k', d', l', 0)" using sh unfolding shrunk_def by blast
  moreover have "pins_inv pins (cores_of c)" using inv by (simp add: cache_inv_def Let_def)
  ultimately show False using pins_inv_unpinned(1) x by blast
qed

lemma pinned_entry:
  assumes inv: "cache_inv pins c" and x: "x \<in># pins"
  obtains k d l p bs where "cores_of c x = Some (k, d, l, p)" "payloads (area c) d = Some bs" "as_slice c x = Some bs"
proof -
  have "pins_inv pins (cores_of c)" using inv by (simp add: cache_inv_def Let_def)
  then have "x \<in> dom (cores_of c)" using x unfolding pins_inv_def by blast
  then obtain v where "cores_of c x = Some v" by blast
  then obtain k d l p where C: "cores_of c x = Some (k, d, l, p)" by (cases v) auto
  note sl = as_slice_payload [OF cache_inv_store [OF inv] C]
  then obtain bs where "payloads (area c) d = Some bs" by blast
  then show thesis using that [OF C] sl(1) by simp
qed

lemma stored_keeps_pinned:
  assumes inv: "cache_inv pins c" "cache_inv pins c'" and x: "x \<in># pins"
    and C: "cores_of c x = Some (k0, d, l, p)" "payloads (area c) d = Some bs" and st: "stored c k data c'"
  shows "cores_of c' x = Some (k0, d, l, p) \<and> payloads (area c') d = Some bs"
proof -
  obtain C' P ed dd where st: "shrunk (shard_of (n_shards c) k) c C' P" "C' ed = None" "P dd = None"
    "cores_of c' = C'(ed \<mapsto> (k, dd, of_nat (length data), 0))" "payloads (area c') = P(dd \<mapsto> data)"
    using st by (auto simp: stored_def)
  have C': "C' x = Some (k0, d, l, p)" using pinned_survives [OF inv(1) x st(1) C(1)] C(1) by simp
  then have "x \<noteq> ed" using st(2) by (metis option.distinct(1))
  then have x': "cores_of c' x = Some (k0, d, l, p)" "payloads (area c') d = P d"
    using stored_old [OF inv(2) st(4,5) _ C'] by simp_all
  then obtain bs' where "P d = Some bs'"
    using as_slice_payload(2) [OF cache_inv_store [OF inv(2)] x'(1)] by (metis option.exhaust)
  then have "P d = Some bs" using shrunk_payload [OF cache_inv_store [OF inv(1)] st(1) C'] C(2) by simp
  then show ?thesis using x' by simp
qed

lemma dropped_keeps_pinned:
  assumes inv: "cache_inv pins c" "cache_inv pins c'" and x: "x \<in># pins"
    and C: "cores_of c x = Some (k0, d, l, p)" "payloads (area c) d = Some bs" and dr: "dropped alloc data c k c'"
  shows "cores_of c' x = Some (k0, d, l, p) \<and> payloads (area c') d = Some bs"
proof -
  have sh: "shrunk (shard_of (n_shards c) k) c (cores_of c') (payloads (area c'))"
    using dr by (simp add: dropped_def)
  then have x': "cores_of c' x = Some (k0, d, l, p)" using pinned_survives [OF inv(1) x sh C(1)] C(1) by simp
  then obtain bs' where "payloads (area c') d = Some bs'"
    using as_slice_payload(2) [OF cache_inv_store [OF inv(2)]] by blast
  then show ?thesis using shrunk_payload [OF cache_inv_store [OF inv(1)] sh x'] C(2) x' by simp
qed

lemma insert_keeps_pinned:
  assumes inv: "cache_inv pins c" and dsa: "dsa_contract alloc" and len: "length data < 2 ^ 32"
    and ins: "insert_blob alloc k data c = Some c'" and x: "x \<in># pins"
  shows "as_slice c' x = as_slice c x"
proof -
  have inv': "cache_inv pins c'" and cases: "c' = c \<or> stored c k data c' \<or> dropped alloc data c k c'"
    using insert_blob_ok [OF inv dsa len, of k] ins by (auto split: if_splits)
  obtain k0 d l p bs where C: "cores_of c x = Some (k0, d, l, p)" "payloads (area c) d = Some bs"
    using pinned_entry [OF inv x] by metis
  then have "cores_of c' x = Some (k0, d, l, p) \<and> payloads (area c') d = Some bs"
    using cases stored_keeps_pinned [OF inv inv' x C] dropped_keeps_pinned [OF inv inv' x C] by blast
  then show ?thesis using as_slice_cong [OF cache_inv_store [OF inv] C(1)] C(2) by simp
qed

section \<open>The state machine\<close>

datatype event = Lookup BlobCacheKey "dsa_pointer option" | Release dsa_pointer | Insert BlobCacheKey bytes

text \<open>
  One step: a lookup (a hit takes a pin; fewer than \<^verbatim>\<open>2^32\<close> pins are held), the release of a pin that is
  held, or the insertion of a blob below 4 GiB (a varlena is below 1 GiB), with an allocator that
  keeps its contract and may fail at any call.
\<close>

inductive cache_step :: "BlobCacheCtl \<times> dsa_pointer multiset \<Rightarrow> event \<Rightarrow> BlobCacheCtl \<times> dsa_pointer multiset \<Rightarrow> bool"
where
  hit: "get_pinned k c = Some (c', Some x) \<Longrightarrow> size pins + 1 < 2 ^ 32 \<Longrightarrow>
    cache_step (c, pins) (Lookup k (Some x)) (c', add_mset x pins)"
| miss: "get_pinned k c = Some (c', None) \<Longrightarrow> cache_step (c, pins) (Lookup k None) (c', pins)"
| rel: "x \<in># pins \<Longrightarrow> release x c = Some c' \<Longrightarrow> cache_step (c, pins) (Release x) (c', pins - {#x#})"
| ins: "dsa_contract alloc \<Longrightarrow> length data < 2 ^ 32 \<Longrightarrow> insert_blob alloc k data c = Some c' \<Longrightarrow>
    cache_step (c, pins) (Insert k data) (c', pins)"

inductive_cases cache_stepE: "cache_step (c, pins) ev (c', pins')"

inductive reachable :: "nat \<Rightarrow> nat \<Rightarrow> BlobCacheCtl \<Rightarrow> dsa_pointer multiset \<Rightarrow> event list \<Rightarrow> bool" for bytes n where
  start: "reachable bytes n (startup bytes n) {#} []"
| step: "reachable bytes n c pins evs \<Longrightarrow> cache_step (c, pins) ev (c', pins') \<Longrightarrow>
    reachable bytes n c' pins' (ev # evs)"

lemma startup_inv:
  assumes "bytes < 2 ^ 63"
  shows "cache_inv {#} (startup bytes n)"
proof -
  have "cores (entries empty_area) = (\<lambda>_. None)" by (auto simp: empty_area_def cores_def)
  moreover have "unat (of_nat bytes :: u64) = bytes" using assms by (simp add: unat_of_nat take_bit_nat_eq_self)
  ultimately show ?thesis using assms
    by (auto simp: cache_inv_def Let_def startup_def MAX_SHARDS_def store_inv_def pins_inv_def shards_inv_def
        shard_inv_def zero_shard_def buckets_inv_def stored_bytes_def lru_list_def members_def empty_area_def
        finite_area_def)
qed

lemma get_pinned_inv:
  assumes inv: "cache_inv pins c"
  shows "get_pinned k c = Some (c', Some x) \<Longrightarrow> size pins + 1 < 2 ^ 32 \<Longrightarrow>
      cache_inv (add_mset x pins) c' \<and> usable c' = usable c"
    and "get_pinned k c = Some (c', None) \<Longrightarrow>
      cache_inv pins c' \<and> usable c' = usable c \<and> area c' = area c \<and> (usable c \<longrightarrow> \<not> has_key c k)"
  using get_pinned_ok [OF inv, of k] by auto

lemma release_inv:
  assumes inv: "cache_inv pins c" and "x \<in># pins" and "release x c = Some c'"
  shows "cache_inv (pins - {#x#}) c' \<and> usable c' = usable c"
  using release_ok [OF assms(1,2)] assms(3) by auto

lemma insert_blob_inv:
  assumes inv: "cache_inv pins c" and dsa: "dsa_contract alloc" and len: "length data < 2 ^ 32"
    and ins: "insert_blob alloc k data c = Some c'"
  shows "cache_inv pins c' \<and> usable c' = usable c
    \<and> (if \<not> usable c \<or> data = [] \<or> has_key c k then c' = c else stored c k data c' \<or> dropped alloc data c k c')"
proof -
  obtain c0 where "insert_blob alloc k data c = Some c0" "cache_inv pins c0" "usable c0 = usable c"
    "if \<not> usable c \<or> data = [] \<or> has_key c k then c0 = c else stored c k data c0 \<or> dropped alloc data c k c0"
    using insert_blob_ok [OF inv dsa len] by blast
  then show ?thesis using ins by simp
qed

lemma cache_step_inv:
  assumes inv: "cache_inv pins c" and step: "cache_step (c, pins) ev (c', pins')"
  shows "cache_inv pins' c' \<and> usable c' = usable c"
  using step
proof (cases rule: cache_step.cases)
  case (hit k x)
  then show ?thesis using get_pinned_inv(1) [OF inv, of k c' x] by simp
next
  case (miss k)
  then show ?thesis using get_pinned_inv(2) [OF inv, of k c'] by simp
next
  case (rel x)
  then show ?thesis using release_inv [OF inv, of x c'] by simp
next
  case (ins alloc data k)
  then show ?thesis using insert_blob_inv [OF inv, of alloc data k c'] by simp
qed

lemma reachable_inv:
  assumes "reachable bytes n c pins evs" and "bytes < 2 ^ 63"
  shows "cache_inv pins c \<and> usable c = (bytes \<noteq> 0)"
  using assms
proof (induction rule: reachable.induct)
  case start
  then show ?case using startup_inv by (simp add: startup_def)
next
  case (step c pins evs ev c' pins')
  then show ?case using cache_step_inv by blast
qed

text \<open>A step leaves the bytes of a pinned blob alone.\<close>

lemma pinned_step:
  assumes inv: "cache_inv pins c" and step: "cache_step (c, pins) ev (c', pins')" and x: "x \<in># pins"
  shows "\<exists>data. as_slice c x = Some data \<and> as_slice c' x = Some data"
proof -
  obtain k d l p bs where C: "cores_of c x = Some (k, d, l, p)" "payloads (area c) d = Some bs" "as_slice c x = Some bs"
    using pinned_entry [OF inv x] by metis
  have same: "as_slice c' x = Some bs"
    if "cores_of c y = Some (ky, dy, ly, py)" "cores_of c' = (cores_of c)(y \<mapsto> (ky, dy, ly, py'))"
      "payloads (area c') = payloads (area c)" for y ky dy ly py py'
    using as_slice_cong [OF cache_inv_store [OF inv] C(1), of c' k] that C by (cases "x = y") auto
  show ?thesis
    using step
  proof (cases rule: cache_step.cases)
    case (hit k0 y)
    then show ?thesis using get_pinned_ok [OF inv, of k0] same C(3) by fastforce
  next
    case (miss k0)
    then have same_area: "area c' = area c" using get_pinned_inv(2) [OF inv, of k0 c'] by simp
    show ?thesis using C(3) unfolding as_slice_def same_area by simp
  next
    case (rel y)
    then show ?thesis using release_ok [OF inv, of y] same C(3) by fastforce
  next
    case (ins alloc data k0)
    then show ?thesis using insert_keeps_pinned [OF inv, of alloc data k0 c' x] x C(3) by simp
  qed
qed

text \<open>Lookups and releases leave the contents alone.\<close>

lemma contents_same:
  assumes inv: "cache_inv pins c" "cache_inv pins' c'" and on: "usable c" "usable c'"
    and x: "cores_of c x = Some (k0, d0, l0, p0)" "cores_of c' = (cores_of c)(x \<mapsto> (k0, d0, l0, p1))"
    and P: "payloads (area c') = payloads (area c)"
  shows "contents c' k = contents c k"
proof -
  have "(\<exists>l p. cores_of c' y = Some (k, d, l, p)) \<longleftrightarrow> (\<exists>l p. cores_of c y = Some (k, d, l, p))" for y d
    using x by (cases "y = x") auto
  then have "contents c' k = Some bs \<longleftrightarrow> contents c k = Some bs" for bs
    unfolding contents_iff [OF inv(1) on(1)] contents_iff [OF inv(2) on(2)] P by metis
  then show ?thesis by (metis option.exhaust)
qed

lemma contents_same_area:
  assumes inv: "cache_inv pins c" "cache_inv pins' c'" and on: "usable c" "usable c'" and "area c' = area c"
  shows "contents c' k = contents c k"
proof -
  have "contents c' k = Some bs \<longleftrightarrow> contents c k = Some bs" for bs
    using assms by (simp add: contents_iff)
  then show ?thesis by (metis option.exhaust)
qed

lemma cache_step_contents:
  assumes inv: "cache_inv pins c" and on: "usable c" and step: "cache_step (c, pins) ev (c', pins')"
    and some: "contents c' k = Some data"
  shows "contents c k = Some data \<or> ev = Insert k data"
proof -
  have inv': "cache_inv pins' c'" and on': "usable c'" using cache_step_inv [OF inv step] on by auto
  show ?thesis
    using step
  proof (cases rule: cache_step.cases)
    case (hit k0 x)
    obtain d l p where "cores_of c x = Some (k0, d, l, p)" "cores_of c' = (cores_of c)(x \<mapsto> (k0, d, l, p + 1))"
      "payloads (area c') = payloads (area c)"
      using get_pinned_ok [OF inv, of k0] hit by auto
    then show ?thesis using contents_same [OF inv inv' on on'] some by metis
  next
    case (miss k0)
    then show ?thesis using contents_same_area [OF inv inv' on on'] get_pinned_inv(2) [OF inv, of k0 c'] some by simp
  next
    case (rel x)
    obtain k0 d l p where "cores_of c x = Some (k0, d, l, p)" "cores_of c' = (cores_of c)(x \<mapsto> (k0, d, l, p - 1))"
      "payloads (area c') = payloads (area c)"
      using release_ok [OF inv, of x] rel by auto
    then show ?thesis using contents_same [OF inv inv' on on'] some by metis
  next
    case (ins alloc data0 k0)
    then consider "c' = c" | "stored c k0 data0 c'" | "dropped alloc data0 c k0 c'"
      using insert_blob_inv [OF inv, of alloc data0 k0 c'] by (auto split: if_splits)
    then show ?thesis
    proof cases
      case 1
      then show ?thesis using some by simp
    next
      case 2
      then show ?thesis
        using stored_contents [OF inv _ on on', of k0 data0] inv' ins some by (cases "k = k0") auto
    next
      case 3
      then show ?thesis using dropped_contents [OF inv _ on on' 3 some] inv' ins by simp
    qed
  qed
qed

lemma reachable_logged:
  assumes "reachable bytes n c pins evs" and "bytes < 2 ^ 63" and "contents c k = Some data"
  shows "Insert k data \<in> set evs"
  using assms
proof (induction arbitrary: data rule: reachable.induct)
  case start
  then show ?case
    by (simp add: contents_def get_pinned_def hash_to_shard_bucket_split startup_def zero_shard_def split: if_splits)
next
  case (step c pins evs ev c' pins')
  have inv: "cache_inv pins c" "usable c = (bytes \<noteq> 0)" using reachable_inv [OF step.hyps(1)] step.prems(1) by auto
  show ?case
  proof (cases "usable c")
    case True
    then show ?thesis using cache_step_contents [OF inv(1) True step.hyps(2) step.prems(2)] step.IH step.prems(1) by auto
  next
    case False
    then have "\<not> usable c'" using cache_step_inv [OF inv(1) step.hyps(2)] by simp
    then show ?thesis using step.prems(2) by (simp add: contents_def get_pinned_def)
  qed
qed

text \<open>An allocator over a handful of addresses, to instantiate the parameter.\<close>

definition probe_alloc :: dsa_alloc where
  "probe_alloc m a nbytes = (case List.find (\<lambda>x. entries a x = None \<and> payloads a x = None \<and> arrays a x = None) [1..<16]
     of None \<Rightarrow> 0 | Some x \<Rightarrow> x)"

lemma probe_alloc_contract: "dsa_contract probe_alloc"
  unfolding dsa_contract_def probe_alloc_def
  by (auto split: option.splits dest!: find_Some_iff [THEN iffD1])

text \<open>An allocator that never fails.\<close>

definition fresh_alloc :: dsa_alloc where
  "fresh_alloc m a nbytes =
    (if finite_area a then Suc (Max (insert 0 (dom (entries a) \<union> dom (payloads a) \<union> dom (arrays a)))) else 0)"

lemma fresh_alloc_succeeds: "finite_area a \<Longrightarrow> fresh_alloc m a n \<noteq> 0"
  by (simp add: fresh_alloc_def)

lemma fresh_alloc_contract: "dsa_contract fresh_alloc"
  unfolding dsa_contract_def
proof (intro allI impI)
  fix m a n
  assume "fresh_alloc m a n \<noteq> 0"
  then have fin: "finite_area a" by (auto simp: fresh_alloc_def split: if_splits)
  define X where "X = dom (entries a) \<union> dom (payloads a) \<union> dom (arrays a)"
  have "finite X" using fin by (simp add: X_def finite_area_def)
  then have "y \<le> Max (insert 0 X)" if "y \<in> X" for y using that by simp
  then have "Suc (Max (insert 0 X)) \<notin> X" by (meson not_less_eq_eq order_refl)
  then have "fresh_alloc m a n \<notin> X" using fin by (simp add: fresh_alloc_def X_def)
  then show "entries a (fresh_alloc m a n) = None \<and> payloads a (fresh_alloc m a n) = None
      \<and> arrays a (fresh_alloc m a n) = None" unfolding X_def by blast
qed

text \<open>What is held fits the configured size.\<close>

lemma contents_fits:
  assumes inv: "cache_inv pins c" and on: "usable c" and held: "contents c k = Some data"
  shows "length data \<le> unat (max_bytes c)"
proof -
  obtain x d l p where x: "cores_of c x = Some (k, d, l, p)" "payloads (area c) d = Some data"
    using held contents_iff [OF inv on] by blast
  then have "length data = len_at (cores_of c) x"
    using store_inv_payload [OF cache_inv_store [OF inv] x(1)] by (simp add: len_at_def)
  also have "\<dots> \<le> stored_bytes (cores_of c)"
    unfolding stored_bytes_def
  proof (rule member_le_sum)
    show "x \<in> dom (cores_of c)" using x(1) by blast
    show "finite (dom (cores_of c))" using cache_inv_store [OF inv] unfolding store_inv_def by blast
  qed simp
  finally show ?thesis using inv by (simp add: cache_inv_def Let_def)
qed

text \<open>A small run: one blob is inserted and then pinned.\<close>

definition sample_key :: BlobCacheKey where
  "sample_key = blob_key 7 1 0"

definition sample_cache :: BlobCacheCtl where
  "sample_cache = the (insert_blob probe_alloc sample_key [1, 2, 3] (startup 100 1))"

lemma sample_insert: "insert_blob probe_alloc sample_key [1, 2, 3] (startup 100 1) = Some sample_cache"
  using insert_blob_ok [where k = sample_key and data = "[1, 2, 3]", OF startup_inv probe_alloc_contract, of 100 1]
  by (auto simp: sample_cache_def)

lemma sample_contents: "contents sample_cache sample_key = Some [1, 2, 3]" "contents (startup 100 1) sample_key = None"
  by code_simp+

lemma sample_reachable: "reachable 100 1 sample_cache {#} [Insert sample_key [1, 2, 3]]"
  by (rule reachable.step [OF reachable.start cache_step.ins [OF probe_alloc_contract _ sample_insert]]) simp

lemma sample_pinned:
  "\<exists>c x. get_pinned sample_key sample_cache = Some (c, Some x)
     \<and> reachable 100 1 c {#x#} [Lookup sample_key (Some x), Insert sample_key [1, 2, 3]]"
proof -
  obtain c x where "get_pinned sample_key sample_cache = Some (c, Some x)"
    using sample_contents(1) by (auto simp: contents_def split: option.splits)
  then show ?thesis using reachable.step [OF sample_reachable cache_step.hit] by auto
qed

section \<open>Configuration\<close>

lemma next_power_of_two_power:
  "\<exists>j. next_power_of_two_from (2 ^ i) n = 2 ^ j \<and> n \<le> 2 ^ j"
proof (induction "(2 :: nat) ^ i" n arbitrary: i rule: next_power_of_two_from.induct)
  case (1 n)
  show ?case
  proof (cases "n \<le> 2 ^ i")
    case True
    then show ?thesis by (subst next_power_of_two_from.simps) auto
  next
    case False
    then have "\<exists>j. next_power_of_two_from (2 ^ Suc i) n = 2 ^ j \<and> n \<le> 2 ^ j"
      using 1(1) [of "Suc i"] by simp
    then show ?thesis using False by (subst next_power_of_two_from.simps) simp
  qed
qed

lemma configured_shards_power: "\<exists>j \<le> 10. configured_shards s = 2 ^ j"
proof -
  obtain j where j: "next_power_of_two_from 1 (nat (max s 1)) = 2 ^ j"
    using next_power_of_two_power [of 0] by auto
  show ?thesis
  proof (cases "j \<le> 10")
    case True
    then have "(2::nat) ^ j \<le> 2 ^ 10" by (intro power_increasing) auto
    then show ?thesis using j True by (auto simp: configured_shards_def)
  next
    case False
    then have "(2::nat) ^ 10 \<le> 2 ^ j" by (intro power_increasing) auto
    then show ?thesis using j by (auto simp: configured_shards_def intro: exI [of _ 10])
  qed
qed

lemma and_power_minus_1: "j < LENGTH('a) \<Longrightarrow> (w :: 'a::len word) AND (2 ^ j - 1) = take_bit j w"
  by (simp add: take_bit_eq_mask mask_eq_exp_minus_1)

lemma take_bit_of_unat_self: "take_bit LENGTH('a) (unat (w :: 'a::len word)) = unat w"
  by (simp add: take_bit_nat_eq_self)

lemma slot_of_power:
  assumes "j \<le> 10"
  shows "hash_to_shard_bucket k (2 ^ j) = (unat (hash_key k) div 256 mod 2 ^ j, unat (hash_key k) mod 256)"
proof -
  have "unat (drop_bit 8 (hash_key k) AND (2 ^ j - 1)) = unat (take_bit j (drop_bit 8 (hash_key k)))"
    using assms by (subst and_power_minus_1) auto
  also have "\<dots> = take_bit j (drop_bit 8 (unat (hash_key k)))"
    by (simp only: unsigned_take_bit_eq unsigned_drop_bit_eq take_bit_of_unat_self)
  also have "\<dots> = unat (hash_key k) div 256 mod 2 ^ j" by (simp add: take_bit_eq_mod drop_bit_eq_div)
  finally have "unat (drop_bit 8 (hash_key k) AND (2 ^ j - 1)) = unat (hash_key k) div 256 mod 2 ^ j" .
  moreover have "bucket_of k = unat (take_bit 8 (ucast (hash_key k) :: u32))"
    using and_power_minus_1 [of 8 "ucast (hash_key k) :: u32"] by (simp add: bucket_of_def BUCKETS_PER_SHARD_def)
  then have "bucket_of k = take_bit 8 (take_bit 32 (unat (hash_key k)))"
    by (simp only: unsigned_take_bit_eq unsigned_ucast_eq) simp
  then have "bucket_of k = unat (hash_key k) mod 256" by (simp add: take_bit_eq_mod mod_mod_cancel)
  ultimately show ?thesis by (simp add: hash_to_shard_bucket_def Let_def)
qed

end
