(* ===== verification/Compressed_Column.thy ===== *)
theory Compressed_Column
  imports Prelude
begin

unbundle bit_operations_syntax

text \<open>
  The compressed column blob of \<^verbatim>\<open>src/compression/mod.rs\<close>: the codec tags, the wire format of a
  column (\<^verbatim>\<open>to_bytes\<close>/\<^verbatim>\<open>from_bytes\<close>) and the extraction and reinsertion of NULLs, with the count
  of non-NULL values of \<^verbatim>\<open>src/compress.rs\<close>. The lemmas show that every tag survives its byte, that
  a well-formed column survives the wire, and that reinserting undoes extracting; the locale
  \<open>value_codec\<close> then lifts the round trip of any codec of non-NULL values to whole columns.
\<close>

section \<open>Codec tags\<close>

datatype CompressionType =
    Gorilla | DeltaVarint | Dictionary | Lz4 | BooleanBitmap | Lz4Blocked | Constant
  | ForBitpacked | DictionaryLz4 | BinaryDictionary | BinaryDictionaryLz4 | BinaryLz4Blocked
  | NumericScaled

fun as_u8 :: "CompressionType \<Rightarrow> u8" where
  "as_u8 Gorilla = 1"
| "as_u8 DeltaVarint = 2"
| "as_u8 Dictionary = 3"
| "as_u8 Lz4 = 4"
| "as_u8 BooleanBitmap = 5"
| "as_u8 Lz4Blocked = 6"
| "as_u8 Constant = 7"
| "as_u8 ForBitpacked = 8"
| "as_u8 DictionaryLz4 = 9"
| "as_u8 BinaryDictionary = 10"
| "as_u8 BinaryDictionaryLz4 = 11"
| "as_u8 BinaryLz4Blocked = 12"
| "as_u8 NumericScaled = 13"

definition from_u8 :: "u8 \<Rightarrow> CompressionType option" where
  "from_u8 v =
     (if v = 1 then Some Gorilla
      else if v = 2 then Some DeltaVarint
      else if v = 3 then Some Dictionary
      else if v = 4 then Some Lz4
      else if v = 5 then Some BooleanBitmap
      else if v = 6 then Some Lz4Blocked
      else if v = 7 then Some Constant
      else if v = 8 then Some ForBitpacked
      else if v = 9 then Some DictionaryLz4
      else if v = 10 then Some BinaryDictionary
      else if v = 11 then Some BinaryDictionaryLz4
      else if v = 12 then Some BinaryLz4Blocked
      else if v = 13 then Some NumericScaled
      else None)"

fun to_binary_variant :: "CompressionType \<Rightarrow> CompressionType" where
  "to_binary_variant Dictionary = BinaryDictionary"
| "to_binary_variant DictionaryLz4 = BinaryDictionaryLz4"
| "to_binary_variant Lz4Blocked = BinaryLz4Blocked"
| "to_binary_variant other = other"

lemma from_u8_as_u8 [simp, roundtrips]: "from_u8 (as_u8 t) = Some t"
  by (cases t) (simp_all add: from_u8_def)

lemma from_u8_Some_iff: "from_u8 v = Some t \<longleftrightarrow> v = as_u8 t"
proof
  assume v: "from_u8 v = Some t"
  have "from_u8 v = Some t \<longrightarrow> v = as_u8 t"
    unfolding from_u8_def by (simp split: if_split)
  with v show "v = as_u8 t" by simp
qed simp

section \<open>The wire format of a column\<close>

record CompressedColumn =
  cc_type_tag :: CompressionType
  cc_row_count :: u32
  cc_null_bitmap :: bytes
  cc_data :: bytes

definition to_bytes :: "CompressedColumn \<Rightarrow> bytes option" where
  "to_bytes cc =
     (let has_nulls = cc_null_bitmap cc \<noteq> [];
          bitmap_len = (if has_nulls then div_ceil (unat (cc_row_count cc)) 8 else 0)
      in do {
        bitmap \<leftarrow> (if has_nulls then slice (cc_null_bitmap cc) 0 bitmap_len else Some []);
        Some ([as_u8 (cc_type_tag cc)] @ to_le 4 (cc_row_count cc)
              @ [if has_nulls then 1 else 0] @ bitmap @ cc_data cc)
      })"

definition from_bytes :: "bytes \<Rightarrow> CompressedColumn option" where
  "from_bytes bs = do {
     _ \<leftarrow> (if 6 \<le> length bs then Some () else None);
     tag_byte \<leftarrow> index bs 0;
     tag \<leftarrow> from_u8 tag_byte;
     rc \<leftarrow> read_le bs 1 4;
     flag \<leftarrow> index bs 5;
     (bitmap, data_start) \<leftarrow>
       (if flag \<noteq> 0
        then let bitmap_len = div_ceil (unat rc) 8
             in do { bm \<leftarrow> slice bs 6 (6 + bitmap_len); Some (bm, 6 + bitmap_len) }
        else Some ([], 6));
     rest \<leftarrow> slice_from bs data_start;
     Some \<lparr>cc_type_tag = tag, cc_row_count = rc, cc_null_bitmap = bitmap, cc_data = rest\<rparr>
   }"

text \<open>
  \<^verbatim>\<open>CompressedColumnRef::from_bytes\<close>: the borrowing view. A borrowed slice is its start and length in
  the blob, so the view is the tag, the row count and two ranges.
\<close>

record CompressedColumnRef =
  ref_tag :: CompressionType
  ref_row_count :: u32
  ref_bitmap_range :: "nat \<times> nat"
  ref_data_range :: "nat \<times> nat"

definition from_bytes_ref :: "bytes \<Rightarrow> CompressedColumnRef option" where
  "from_bytes_ref bs = do {
     _ \<leftarrow> (if 6 \<le> length bs then Some () else None);
     tag_byte \<leftarrow> index bs 0;
     tag \<leftarrow> from_u8 tag_byte;
     rc \<leftarrow> read_le bs 1 4;
     flag \<leftarrow> index bs 5;
     (bitmap, data_start) \<leftarrow>
       (if flag \<noteq> 0
        then let bitmap_len = div_ceil (unat rc) 8
             in if 6 + bitmap_len \<le> length bs then Some ((6, bitmap_len), 6 + bitmap_len) else None
        else Some ((0, 0), 6));
     Some \<lparr>ref_tag = tag, ref_row_count = rc, ref_bitmap_range = bitmap,
           ref_data_range = (data_start, length bs - data_start)\<rparr>
   }"

definition range_bytes :: "bytes \<Rightarrow> nat \<times> nat \<Rightarrow> bytes" where
  "range_bytes bs r = take (snd r) (drop (fst r) bs)"

text \<open>What every writer of the crate establishes: no bitmap, or one bit per row.\<close>

definition wf_column :: "CompressedColumn \<Rightarrow> bool" where
  "wf_column cc \<longleftrightarrow> cc_null_bitmap cc = [] \<or> length (cc_null_bitmap cc) = div_ceil (unat (cc_row_count cc)) 8"

lemma to_bytes_wf:
  assumes "wf_column cc"
  shows "to_bytes cc = Some ([as_u8 (cc_type_tag cc)] @ to_le 4 (cc_row_count cc)
     @ [if cc_null_bitmap cc \<noteq> [] then 1 else 0] @ cc_null_bitmap cc @ cc_data cc)"
  using assms by (auto simp: to_bytes_def wf_column_def Let_def slice_def)

lemma from_bytes_layout:
  assumes "bm = [] \<or> length bm = div_ceil (unat rc) 8"
  shows "from_bytes ([as_u8 t] @ to_le 4 rc @ [if bm \<noteq> [] then 1 else 0] @ bm @ d)
    = Some \<lparr>cc_type_tag = t, cc_row_count = rc, cc_null_bitmap = bm, cc_data = d\<rparr>"
    (is "from_bytes ?bs = _")
proof -
  have len: "length ?bs = 6 + length bm + length d" by simp
  have rc: "read_le ?bs 1 4 = Some rc"
    using read_le_middle [of "[as_u8 t]" 1 4 rc "[if bm \<noteq> [] then 1 else 0] @ bm @ d"] by simp
  have hdr: "?bs = ([as_u8 t] @ to_le 4 rc @ [if bm \<noteq> [] then 1 else 0]) @ bm @ d" by simp
  have flag: "index ?bs 5 = Some (if bm \<noteq> [] then 1 else 0)"
    by (simp add: index_def nth_append nth_Cons')
  have "slice ?bs 6 (6 + length bm) = Some bm"
    unfolding hdr by (rule slice_middle) simp_all
  moreover have "slice_from ?bs (6 + length bm) = Some d"
    using slice_from_suffix [of "([as_u8 t] @ to_le 4 rc @ [if bm \<noteq> [] then 1 else 0]) @ bm" _ d]
    by simp
  ultimately show ?thesis
    using assms len rc flag by (auto simp: from_bytes_def Let_def split: if_splits)
qed

lemma from_bytes_to_bytes [roundtrips]:
  assumes "wf_column cc"
  shows "Option.bind (to_bytes cc) from_bytes = Some cc"
  using assms from_bytes_layout [of "cc_null_bitmap cc" "cc_row_count cc" "cc_type_tag cc" "cc_data cc"]
  by (auto simp: to_bytes_wf wf_column_def)

text \<open>The borrowing view designates the same column as the copying reader, on every input.\<close>

definition ref_column :: "bytes \<Rightarrow> CompressedColumnRef \<Rightarrow> CompressedColumn" where
  "ref_column bs r = \<lparr>cc_type_tag = ref_tag r, cc_row_count = ref_row_count r,
     cc_null_bitmap = range_bytes bs (ref_bitmap_range r), cc_data = range_bytes bs (ref_data_range r)\<rparr>"

lemma from_bytes_ref_refines: "map_option (ref_column bs) (from_bytes_ref bs) = from_bytes bs"
  by (auto simp: from_bytes_ref_def from_bytes_def ref_column_def range_bytes_def slice_def
      slice_from_def Let_def split: bind_splits)

section \<open>NULL extraction and reinsertion\<close>

fun extract_nulls_loop ::
    "nat \<Rightarrow> 'a option list \<Rightarrow> 'a list \<Rightarrow> bytes \<Rightarrow> bool \<Rightarrow> ('a list \<times> bytes \<times> bool) option" where
  "extract_nulls_loop i [] non_null bitmap has_any_null = Some (non_null, bitmap, has_any_null)"
| "extract_nulls_loop i (Some v # vs) non_null bitmap has_any_null =
     extract_nulls_loop (i + 1) vs (non_null @ [v]) bitmap has_any_null"
| "extract_nulls_loop i (None # vs) non_null bitmap has_any_null = do {
     bitmap' \<leftarrow> or_bit bitmap i;
     extract_nulls_loop (i + 1) vs non_null bitmap' True
   }"

definition extract_nulls :: "'a option list \<Rightarrow> ('a list \<times> bytes) option" where
  "extract_nulls values = do {
     (non_null, bitmap, has_any_null) \<leftarrow>
       extract_nulls_loop 0 values [] (replicate (div_ceil (length values) 8) 0) False;
     Some (if has_any_null then (non_null, bitmap) else (non_null, []))
   }"

fun reinsert_nulls_loop :: "'a list \<Rightarrow> bytes \<Rightarrow> nat \<Rightarrow> nat \<Rightarrow> nat \<Rightarrow> 'a option list option" where
  "reinsert_nulls_loop values bitmap i 0 val_idx = Some []"
| "reinsert_nulls_loop values bitmap i (Suc n) val_idx = do {
     is_null \<leftarrow> get_bit bitmap i;
     if is_null
     then do { rest \<leftarrow> reinsert_nulls_loop values bitmap (i + 1) n val_idx; Some (None # rest) }
     else do {
       v \<leftarrow> index values val_idx;
       rest \<leftarrow> reinsert_nulls_loop values bitmap (i + 1) n (val_idx + 1);
       Some (Some v # rest)
     }
   }"

definition reinsert_nulls :: "'a list \<Rightarrow> bytes \<Rightarrow> nat \<Rightarrow> 'a option list option" where
  "reinsert_nulls values bitmap total_count =
     (if bitmap = [] then Some (map Some values)
      else reinsert_nulls_loop values bitmap 0 total_count 0)"

fun count_nulls_loop :: "bytes \<Rightarrow> nat \<Rightarrow> nat \<Rightarrow> nat option" where
  "count_nulls_loop bitmap i 0 = Some 0"
| "count_nulls_loop bitmap i (Suc n) = do {
     is_null \<leftarrow> get_bit bitmap i;
     rest \<leftarrow> count_nulls_loop bitmap (i + 1) n;
     Some ((if is_null then 1 else 0) + rest)
   }"

definition count_non_null :: "bytes \<Rightarrow> nat \<Rightarrow> nat option" where
  "count_non_null bitmap total_count =
     (if bitmap = [] then Some total_count
      else do { null_count \<leftarrow> count_nulls_loop bitmap 0 total_count; Some (total_count - null_count) })"

text \<open>The specification: the non-NULL values in order, and the bitmap with a one bit per NULL row.\<close>

fun somes :: "'a option list \<Rightarrow> 'a list" where
  "somes [] = []"
| "somes (Some v # vs) = v # somes vs"
| "somes (None # vs) = somes vs"

lemma somes_map_Some [simp]: "somes (map Some xs) = xs"
  by (induction xs) auto

lemma no_None_somes: "None \<notin> set vs \<Longrightarrow> map Some (somes vs) = vs"
  by (induction vs rule: somes.induct) auto

lemma set_somes: "x \<in> set (somes vs) \<longleftrightarrow> Some x \<in> set vs"
  by (induction vs rule: somes.induct) auto

lemma length_somes: "length (somes vs) + count_list vs None = length vs"
  by (induction vs rule: somes.induct) auto

lemma length_somes_le: "length (somes vs) \<le> length vs"
  using length_somes [of vs] by linarith

lemma somes_map_option: "somes (map (map_option f) vs) = map f (somes vs)"
  by (induction vs rule: somes.induct) auto

definition is_null_bitmap :: "bytes \<Rightarrow> 'a option list \<Rightarrow> bool" where
  "is_null_bitmap bm vs \<longleftrightarrow> length bm = div_ceil (length vs) 8
     \<and> (\<forall>k < length vs. buf_bit bm k \<longleftrightarrow> vs ! k = None)"

lemma extract_nulls_loop_spec:
  assumes "i + length vs \<le> 8 * length bm"
  shows "\<exists>bm'. extract_nulls_loop i vs nn bm h = Some (nn @ somes vs, bm', h \<or> None \<in> set vs)
    \<and> length bm' = length bm
    \<and> (\<forall>k. buf_bit bm' k \<longleftrightarrow> buf_bit bm k \<or> (i \<le> k \<and> k < i + length vs \<and> vs ! (k - i) = None))"
  using assms
proof (induction i vs nn bm h rule: extract_nulls_loop.induct)
  case (2 i v vs nn bm h)
  then obtain bm' where "extract_nulls_loop (i + 1) vs (nn @ [v]) bm h
      = Some ((nn @ [v]) @ somes vs, bm', h \<or> None \<in> set vs)"
    and "length bm' = length bm"
    and "\<forall>k. buf_bit bm' k \<longleftrightarrow> buf_bit bm k \<or> (i + 1 \<le> k \<and> k < i + 1 + length vs \<and> vs ! (k - (i + 1)) = None)"
    by auto
  then show ?case by (auto simp: nth_Cons' not_less_eq_eq)
next
  case (3 i vs nn bm h)
  then have "i div 8 < length bm" by auto
  then obtain bm1 where bm1: "or_bit bm i = Some bm1" "length bm1 = length bm"
      "\<forall>k. buf_bit bm1 k \<longleftrightarrow> buf_bit bm k \<or> k = i"
    using or_bit_spec by blast
  with 3 obtain bm' where "extract_nulls_loop (i + 1) vs nn bm1 True
      = Some (nn @ somes vs, bm', True)"
    and "length bm' = length bm"
    and "\<forall>k. buf_bit bm' k \<longleftrightarrow> buf_bit bm1 k \<or> (i + 1 \<le> k \<and> k < i + 1 + length vs \<and> vs ! (k - (i + 1)) = None)"
    by fastforce
  with bm1 show ?case by (auto simp: nth_Cons' not_less_eq_eq)
qed auto

lemma extract_nulls_spec:
  "\<exists>bm. extract_nulls vs = Some (somes vs, bm)
     \<and> (if None \<in> set vs then is_null_bitmap bm vs else bm = [])"
proof -
  have "0 + length vs \<le> 8 * length (replicate (div_ceil (length vs) 8) (0::u8))"
    using div_ceil_le_iff [of 8 "length vs"] by (simp add: mult.commute)
  from extract_nulls_loop_spec [OF this, of "[]" False] obtain bm where
    "extract_nulls_loop 0 vs [] (replicate (div_ceil (length vs) 8) 0) False = Some (somes vs, bm, None \<in> set vs)"
    and "is_null_bitmap bm vs"
    by (auto simp: is_null_bitmap_def)
  then show ?thesis
    by (intro exI [of _ "if None \<in> set vs then bm else []"]) (simp add: extract_nulls_def)
qed

lemma is_null_bitmap_not_Nil: "is_null_bitmap bm vs \<Longrightarrow> vs \<noteq> [] \<Longrightarrow> bm \<noteq> []"
  using less_div_ceil [of 8 0 "length vs"] by (auto simp: is_null_bitmap_def)

lemma is_null_bitmap_get_bit:
  "is_null_bitmap bm vs \<Longrightarrow> k < length vs \<Longrightarrow> get_bit bm k = Some (vs ! k = None)"
  using less_div_ceil [of 8 k "length vs"] by (simp add: is_null_bitmap_def)

lemma reinsert_nulls_loop_spec:
  assumes "is_null_bitmap bm vs" and "i + n = length vs"
  shows "reinsert_nulls_loop (somes (take i vs) @ somes (drop i vs)) bm i n (length (somes (take i vs)))
    = Some (drop i vs)"
  using assms
proof (induction n arbitrary: i)
  case (Suc n)
  then have i: "i < length vs" by simp
  then have split: "take (Suc i) vs = take i vs @ [vs ! i]" "drop i vs = vs ! i # drop (Suc i) vs"
    by (simp_all add: take_Suc_conv_app_nth Cons_nth_drop_Suc)
  have app: "somes (xs @ [x]) = somes xs @ somes [x]" for xs and x :: "'a option"
    by (induction xs rule: somes.induct) (cases x, auto)
  have "reinsert_nulls_loop (somes (take (Suc i) vs) @ somes (drop (Suc i) vs)) bm (Suc i) n
      (length (somes (take (Suc i) vs))) = Some (drop (Suc i) vs)"
    using Suc by simp
  then show ?case using Suc.prems(1) i
    by (cases "vs ! i") (simp_all add: split app is_null_bitmap_get_bit)
qed simp

lemma reinsert_nulls_extract [roundtrips]:
  assumes "extract_nulls vs = Some (nn, bm)"
  shows "reinsert_nulls nn bm (length vs) = Some vs"
proof -
  from extract_nulls_spec [of vs] assms
  have nn: "nn = somes vs" and bm: "if None \<in> set vs then is_null_bitmap bm vs else bm = []" by auto
  show ?thesis
  proof (cases "None \<in> set vs")
    case True
    with bm have null: "is_null_bitmap bm vs" by simp
    with True have "bm \<noteq> []" by (intro is_null_bitmap_not_Nil [OF null]) auto
    with reinsert_nulls_loop_spec [OF null, of 0 "length vs"] nn show ?thesis
      by (simp add: reinsert_nulls_def)
  next
    case False
    with bm nn show ?thesis by (simp add: reinsert_nulls_def no_None_somes)
  qed
qed

lemma count_nulls_loop_spec:
  assumes "is_null_bitmap bm vs" and "i + n = length vs"
  shows "count_nulls_loop bm i n = Some (count_list (drop i vs) None)"
  using assms
proof (induction n arbitrary: i)
  case (Suc n)
  then have i: "i < length vs" by simp
  then have "drop i vs = vs ! i # drop (Suc i) vs" by (simp add: Cons_nth_drop_Suc)
  with Suc i show ?case by (simp add: is_null_bitmap_get_bit)
qed simp

lemma count_non_null_extract:
  assumes "extract_nulls vs = Some (nn, bm)"
  shows "count_non_null bm (length vs) = Some (length nn)"
proof -
  from extract_nulls_spec [of vs] assms
  have nn: "nn = somes vs" and bm: "if None \<in> set vs then is_null_bitmap bm vs else bm = []" by auto
  show ?thesis
  proof (cases "None \<in> set vs")
    case True
    with bm have null: "is_null_bitmap bm vs" by simp
    with True have "bm \<noteq> []" by (intro is_null_bitmap_not_Nil [OF null]) auto
    with count_nulls_loop_spec [OF null, of 0 "length vs"] nn length_somes [of vs] show ?thesis
      by (auto simp: count_non_null_def)
  next
    case False
    with bm nn length_somes [of vs] show ?thesis
      by (auto simp: count_non_null_def count_list_0_iff)
  qed
qed

section \<open>From a codec of values to a codec of columns\<close>

text \<open>
  Every branch of \<^verbatim>\<open>compress_typed_column\<close> has one shape: extract the NULLs, encode the non-NULL
  values to a tag and a payload, and serialise the \<^verbatim>\<open>CompressedColumn\<close>. Every reader has the inverse
  shape: parse the blob, count the non-NULL values, decode that many, reinsert the NULLs.
\<close>

definition pack_column :: "('a list \<Rightarrow> (CompressionType \<times> bytes) option) \<Rightarrow> 'a option list \<Rightarrow> bytes option" where
  "pack_column encode values = do {
     (non_null, bm) \<leftarrow> extract_nulls values;
     (tag, encoded) \<leftarrow> encode non_null;
     to_bytes \<lparr>cc_type_tag = tag, cc_row_count = word_of_nat (length values), cc_null_bitmap = bm, cc_data = encoded\<rparr>
   }"

definition unpack_column :: "(CompressionType \<Rightarrow> bytes \<Rightarrow> nat \<Rightarrow> 'a list option) \<Rightarrow> bytes \<Rightarrow> 'a option list option" where
  "unpack_column decode blob = do {
     cc \<leftarrow> from_bytes blob;
     n \<leftarrow> count_non_null (cc_null_bitmap cc) (unat (cc_row_count cc));
     vs \<leftarrow> decode (cc_type_tag cc) (cc_data cc) n;
     reinsert_nulls vs (cc_null_bitmap cc) (unat (cc_row_count cc))
   }"

lemma reinsert_nulls_loop_map:
  "reinsert_nulls_loop (map f vs) bm i n j = map_option (map (map_option f)) (reinsert_nulls_loop vs bm i n j)"
proof (induction n arbitrary: i j)
  case (Suc n)
  show ?case
    by (cases "get_bit bm i") (auto simp: Suc index_def map_option_bind o_def split: bind_splits)
qed simp

lemma reinsert_nulls_map:
  "reinsert_nulls (map f vs) bm n = map_option (map (map_option f)) (reinsert_nulls vs bm n)"
  by (simp add: reinsert_nulls_def reinsert_nulls_loop_map)

text \<open>What a reader finds in a packed column, whatever it then does with the decoded values.\<close>

lemma pack_column_shape:
  assumes small: "length vs < 2 ^ 32" and enc: "encode (somes vs) = Some (tag, payload)"
  obtains blob bm where "pack_column encode vs = Some blob"
    and "from_bytes blob = Some \<lparr>cc_type_tag = tag, cc_row_count = word_of_nat (length vs), cc_null_bitmap = bm, cc_data = payload\<rparr>"
    and "unat (word_of_nat (length vs) :: u32) = length vs"
    and "count_non_null bm (length vs) = Some (length (somes vs))"
    and "\<And>f. reinsert_nulls (map f (somes vs)) bm (length vs) = Some (map (map_option f) vs)"
    and "6 \<le> length blob"
proof -
  obtain bm where ext: "extract_nulls vs = Some (somes vs, bm)"
    and bm: "if None \<in> set vs then is_null_bitmap bm vs else bm = []"
    using extract_nulls_spec by blast
  have rows: "unat (word_of_nat (length vs) :: u32) = length vs"
    using small by (simp add: word_of_nat_inverse)
  let ?cc = "\<lparr>cc_type_tag = tag, cc_row_count = word_of_nat (length vs), cc_null_bitmap = bm, cc_data = payload\<rparr>"
  have wf: "wf_column ?cc"
    using bm rows by (auto simp: wf_column_def is_null_bitmap_def split: if_splits)
  obtain blob where blob: "to_bytes ?cc = Some blob" "from_bytes blob = Some ?cc"
    using from_bytes_to_bytes [OF wf] by (cases "to_bytes ?cc") auto
  then have "6 \<le> length blob" by (auto simp: from_bytes_def split: if_splits bind_splits)
  with that blob ext enc rows reinsert_nulls_extract [OF ext] count_non_null_extract [OF ext] show thesis
    by (simp add: pack_column_def reinsert_nulls_map)
qed

text \<open>
  The contract of a value codec: on the inputs it accepts, encoding succeeds and decoding the
  payload with the same tag and count gives the values back.
\<close>

locale value_codec =
  fixes encode :: "'a list \<Rightarrow> (CompressionType \<times> bytes) option"
    and decode :: "CompressionType \<Rightarrow> bytes \<Rightarrow> nat \<Rightarrow> 'a list option"
    and accepts :: "'a list \<Rightarrow> bool"
  assumes decode_encode: "accepts xs \<Longrightarrow>
    \<exists>tag payload. encode xs = Some (tag, payload) \<and> decode tag payload (length xs) = Some xs"
begin

lemma column_roundtrip:
  assumes small: "length vs < 2 ^ 32" and ok: "accepts (somes vs)"
  shows "\<exists>blob. pack_column encode vs = Some blob \<and> unpack_column decode blob = Some vs"
proof -
  obtain tag payload where enc: "encode (somes vs) = Some (tag, payload)"
    and dec: "decode tag payload (length (somes vs)) = Some (somes vs)"
    using decode_encode [OF ok] by blast
  obtain blob bm where "pack_column encode vs = Some blob"
    "from_bytes blob = Some \<lparr>cc_type_tag = tag, cc_row_count = word_of_nat (length vs), cc_null_bitmap = bm, cc_data = payload\<rparr>"
    "unat (word_of_nat (length vs) :: u32) = length vs" "count_non_null bm (length vs) = Some (length (somes vs))"
    "reinsert_nulls (map (\<lambda>x. x) (somes vs)) bm (length vs) = Some (map (map_option (\<lambda>x. x)) vs)"
    using pack_column_shape [where encode = encode, OF small enc] by metis
  with dec show ?thesis by (simp add: unpack_column_def option.map_ident map_idI)
qed

end

end
