(* ===== verification/Integer_Codec.thy ===== *)
theory Integer_Codec
  imports Compressed_Column
begin

unbundle bit_operations_syntax

text \<open>
  Delta, zigzag and varint coding of integer columns (\<^verbatim>\<open>src/compression/integer.rs\<close>), for
  \<^verbatim>\<open>i64\<close> and \<^verbatim>\<open>i32\<close> values. Shifts whose amount reaches the width are masked, as release Rust does.
  The lemmas give the exact inverse property of each layer, the ten-byte bound of a varint and the
  agreement of the indexed reader with the reference reader kept for differential tests.
\<close>

section \<open>Zigzag\<close>

definition zigzag_encode :: "i64 \<Rightarrow> u64" where
  "zigzag_encode v = push_bit 1 v XOR signed_drop_bit 63 v"

definition zigzag_decode :: "u64 \<Rightarrow> i64" where
  "zigzag_decode v = drop_bit 1 v XOR (- (v AND 1))"

lemma neg_and_one: "- (v AND 1) = (if bit v 0 then -1 else 0)" for v :: "'w::len word"
  by (cases "bit v 0") (auto simp: bit_0 and_one_eq odd_iff_mod_2_eq_one even_iff_mod_2_eq_zero)

lemma bit_zigzag_encode_0: "bit (zigzag_encode v) 0 = bit v 63"
  by (simp add: zigzag_encode_def bit_xor_iff bit_double_iff mult.commute [of v] bit_signed_drop_bit_iff)

lemma bit_zigzag_encode_Suc:
  "bit (zigzag_encode v) (Suc k) \<longleftrightarrow> k < 63 \<and> (bit v k \<noteq> bit v 63)"
  by (auto simp: zigzag_encode_def bit_xor_iff bit_double_iff mult.commute [of v]
      bit_signed_drop_bit_iff dest: bit_imp_le_length)

lemma zigzag_decode_encode [simp, roundtrips]: "zigzag_decode (zigzag_encode v) = v"
proof (rule bit_word_eqI)
  fix k
  assume k: "k < LENGTH(64)"
  have "bit (zigzag_decode (zigzag_encode v)) k
      \<longleftrightarrow> bit (zigzag_encode v) (Suc k) \<noteq> bit (zigzag_encode v) 0"
    using k by (simp add: zigzag_decode_def neg_and_one bit_xor_iff bit_drop_bit_eq bit_minus_1_iff)
  also have "\<dots> = bit v k"
    using k bit_zigzag_encode_Suc [of v k] by (cases "k = 63") (auto simp: bit_zigzag_encode_0)
  finally show "bit (zigzag_decode (zigzag_encode v)) k = bit v k" .
qed

section \<open>Varints\<close>

function write_varint :: "u64 \<Rightarrow> bytes" where
  "write_varint v =
     (let byte = ucast (v AND 0x7F); v' = drop_bit 7 v
      in if v' = 0 then [byte] else (byte OR 0x80) # write_varint v')"
  by pat_completeness auto
termination
proof (relation "measure unat")
  fix byte :: u8 and v v' :: u64
  assume v': "v' = drop_bit 7 v" "v' \<noteq> 0"
  have "unat v' = unat v div 128" using v'(1) unat_drop_bit_div [of 7 v] by simp
  moreover have "0 < unat v'" using v'(2) by (simp only: unat_gt_0 simp_thms)
  ultimately show "(v', v) \<in> measure unat" by (cases "unat v") simp_all
qed simp

declare write_varint.simps [simp del]

text \<open>The reference reader (test-only in the source) and the indexed reader of the decoders.\<close>

fun read_varint_loop :: "bytes \<Rightarrow> nat \<Rightarrow> u64 \<Rightarrow> nat \<Rightarrow> u64 \<times> nat" where
  "read_varint_loop [] i result shift = (result, i)"
| "read_varint_loop (byte # bs) i result shift =
     (let result' = result OR shl (ucast (byte AND 0x7F)) shift
      in if byte AND 0x80 = 0 then (result', i + 1)
         else read_varint_loop bs (i + 1) result' (shift + 7))"

definition read_varint :: "bytes \<Rightarrow> u64 \<times> nat" where
  "read_varint buf = read_varint_loop buf 0 0 0"

function read_varint_more :: "bytes \<Rightarrow> nat \<Rightarrow> u64 \<Rightarrow> nat \<Rightarrow> (u64 \<times> nat) option" where
  "read_varint_more data pos result shift =
     (case index data pos of
        None \<Rightarrow> None
      | Some byte \<Rightarrow>
          let result' = result OR shl (ucast (byte AND 0x7F)) shift
          in if byte AND 0x80 = 0 then Some (result', pos + 1)
             else read_varint_more data (pos + 1) result' (shift + 7))"
  by pat_completeness auto
termination
  by (relation "measure (\<lambda>(data, pos, _, _). length data - pos)") (auto simp: index_def split: if_splits)

declare read_varint_more.simps [simp del]

definition read_varint_at :: "bytes \<Rightarrow> nat \<Rightarrow> (u64 \<times> nat) option" where
  "read_varint_at data pos = do {
     b0 \<leftarrow> index data pos;
     if b0 AND 0x80 = 0 then Some (ucast (b0 AND 0x7F), pos + 1)
     else read_varint_more data (pos + 1) (ucast (b0 AND 0x7F)) 7
   }"

lemma bit_0x7F: "bit (0x7F :: int) k \<longleftrightarrow> k < 7"
proof -
  have "(0x7F :: int) = mask 7" by (simp add: mask_eq_exp_minus_1)
  then show ?thesis by (simp only: bit_mask_iff) auto
qed

lemma bit_0x80: "bit (0x80 :: int) k \<longleftrightarrow> k = 7"
proof -
  have "(0x80 :: int) = 2 ^ 7" by simp
  then show ?thesis by (simp only: bit_exp_iff) auto
qed

lemma and_0x80_eq_0_iff: "b AND 0x80 = 0 \<longleftrightarrow> \<not> bit b 7" for b :: u8
proof -
  have "bit (b AND 0x80) k \<longleftrightarrow> k = 7 \<and> bit b 7" for k by (auto simp: bit_and_iff bit_0x80)
  then show ?thesis by (metis bit_0_eq bit_eq_iff bot_apply bot_bool_def)
qed

lemmas varint_bits = bit_and_iff bit_or_iff bit_ucast_iff bit_0x7F bit_0x80 and_0x80_eq_0_iff
  bit_push_bit_iff bit_drop_bit_eq

lemma varint_last_byte:
  "ucast ((ucast (v AND 0x7F) :: u8) AND 0x7F) = (v AND 0x7F :: u64)"
  by (rule bit_word_eqI) (auto simp: varint_bits)

lemma varint_cont_byte:
  "ucast (((ucast (v AND 0x7F) :: u8) OR 0x80) AND 0x7F) = (v AND 0x7F :: u64)"
  by (rule bit_word_eqI) (auto simp: varint_bits)

lemma varint_last_flag: "(ucast ((v :: u64) AND 0x7F) :: u8) AND 0x80 = 0"
  by (simp add: varint_bits)

lemma varint_cont_flag: "((b :: u8) OR 0x80) AND 0x80 \<noteq> 0"
  by (simp add: varint_bits)

lemma varint_split:
  assumes "s < 64"
  shows "(r OR push_bit s (v AND 0x7F)) OR push_bit (s + 7) (drop_bit 7 v) = r OR push_bit s (v :: u64)"
proof (rule bit_word_eqI)
  fix k
  assume "k < LENGTH(64)"
  then show "bit ((r OR push_bit s (v AND 0x7F)) OR push_bit (s + 7) (drop_bit 7 v)) k
      = bit (r OR push_bit s v) k"
    by (cases "s + 7 \<le> k") (auto simp: varint_bits)
qed

lemma drop_bit_small: "drop_bit 7 v = 0 \<Longrightarrow> v AND 0x7F = v" for v :: u64
proof (rule bit_word_eqI)
  fix k
  assume z: "drop_bit 7 v = 0"
  have "\<not> bit v k" if "7 \<le> k"
  proof -
    from that have "bit (drop_bit 7 v) (k - 7) = bit v k" by (simp add: bit_drop_bit_eq)
    with z show ?thesis by simp
  qed
  then show "bit (v AND 0x7F) k = bit v k" if "k < LENGTH(64)"
    using that by (auto simp: varint_bits intro: leI)
qed

lemma read_varint_more_write:
  assumes "s < 64" and "drop_bit (64 - s) v = 0"
  shows "read_varint_more (pre @ write_varint v @ post) (length pre) r s
    = Some (r OR push_bit s v, length pre + length (write_varint v))"
  using assms
proof (induction v arbitrary: pre r s rule: write_varint.induct)
  case (1 v)
  show ?case
  proof (cases "drop_bit 7 v = 0")
    case True
    then have w: "write_varint v = [ucast (v AND 0x7F)]" by (simp add: write_varint.simps [of v])
    show ?thesis using 1(2) varint_last_byte [of v] varint_last_flag [of v]
      by (simp add: w read_varint_more.simps [of _ "length pre"] index_append_right shl_def
          drop_bit_small [OF True])
  next
    case False
    let ?b = "(ucast (v AND 0x7F) :: u8) OR 0x80"
    have w: "write_varint v = ?b # write_varint (drop_bit 7 v)"
      using False by (simp add: write_varint.simps [of v])
    have s7: "s + 7 < 64"
    proof (rule ccontr)
      assume "\<not> s + 7 < 64"
      then obtain d where "7 = (64 - s) + d" by (metis add.commute le_add_diff_inverse le_diff_conv not_less)
      then have "drop_bit 7 v = drop_bit d (drop_bit (64 - s) v)" by (simp add: add.commute)
      with 1(3) False show False by simp
    qed
    have z: "drop_bit (64 - (s + 7)) (drop_bit 7 v) = 0"
      using 1(3) s7 by (simp add: algebra_simps)
    have "read_varint_more ((pre @ [?b]) @ write_varint (drop_bit 7 v) @ post) (length (pre @ [?b]))
        (r OR push_bit s (v AND 0x7F)) (s + 7)
      = Some ((r OR push_bit s (v AND 0x7F)) OR push_bit (s + 7) (drop_bit 7 v),
              length (pre @ [?b]) + length (write_varint (drop_bit 7 v)))"
      by (rule 1(1) [OF refl refl False s7 z])
    then show ?thesis using 1(2)
      by (simp add: w read_varint_more.simps [of _ "length pre"] index_append_right varint_cont_flag
          varint_cont_byte shl_def varint_split [simplified])
  qed
qed

lemma read_varint_at_write [roundtrips]:
  "read_varint_at (pre @ write_varint v @ post) (length pre) = Some (v, length pre + length (write_varint v))"
proof -
  have "read_varint_at (pre @ bs @ post) (length pre) = read_varint_more (pre @ bs @ post) (length pre) 0 0"
    if "bs \<noteq> []" for bs
    using that by (cases bs) (simp_all add: read_varint_at_def read_varint_more.simps [of _ "length pre"]
        index_append_right shl_def)
  moreover have "write_varint v \<noteq> []" by (simp add: write_varint.simps [of v] Let_def)
  moreover have "drop_bit (64 - 0) v = 0" by (rule bit_word_eqI) (auto simp: bit_drop_bit_eq dest: bit_imp_le_length)
  ultimately show ?thesis using read_varint_more_write [of 0 v pre post 0] by simp
qed

lemma read_varint_more_reference:
  "read_varint_more data pos r s = Some (v, pos') \<Longrightarrow>
   read_varint_loop (drop pos data) i r s = (v, i + (pos' - pos)) \<and> pos < pos'"
proof (induction data pos r s arbitrary: i rule: read_varint_more.induct)
  case (1 data pos r s)
  then obtain byte where b: "index data pos = Some byte"
    by (auto simp: read_varint_more.simps [of data pos] split: option.splits)
  then have d: "drop pos data = byte # drop (pos + 1) data"
    by (auto simp: index_def Cons_nth_drop_Suc split: if_splits)
  show ?case
  proof (cases "byte AND 0x80 = 0")
    case True
    with 1(2) b show ?thesis by (auto simp: read_varint_more.simps [of data pos] d Let_def)
  next
    case False
    with 1(2) b have m: "read_varint_more data (pos + 1) (r OR shl (ucast (byte AND 0x7F)) s) (s + 7) = Some (v, pos')"
      by (simp add: read_varint_more.simps [of data pos] Let_def)
    have "read_varint_loop (drop (pos + 1) data) (i + 1) (r OR shl (ucast (byte AND 0x7F)) s) (s + 7)
        = (v, i + 1 + (pos' - (pos + 1))) \<and> pos + 1 < pos'"
      by (rule 1(1) [OF b refl False m])
    with False show ?thesis by (auto simp: d Let_def)
  qed
qed

lemma read_varint_at_reference:
  assumes "read_varint_at data pos = Some (v, pos')"
  shows "read_varint (drop pos data) = (v, pos' - pos)"
proof -
  have "read_varint_at data pos = read_varint_more data pos 0 0"
    by (simp add: read_varint_at_def read_varint_more.simps [of data pos] shl_def split: option.split)
  with assms read_varint_more_reference [of data pos 0 0 v pos' 0] show ?thesis
    by (simp add: read_varint_def)
qed

lemma write_varint_length:
  assumes "unat v < 2 ^ (7 * n)" and "0 < n"
  shows "length (write_varint v) \<le> n"
  using assms
proof (induction v arbitrary: n rule: write_varint.induct)
  case (1 v)
  show ?case
  proof (cases "drop_bit 7 v = 0")
    case True
    with 1(3) show ?thesis by (simp add: write_varint.simps [of v])
  next
    case False
    have d: "unat (drop_bit 7 v) = unat v div 128" by (simp add: unat_drop_bit_div)
    obtain m where m: "n = Suc m" using 1(3) by (cases n) auto
    have "unat v < 2 ^ (7 * m) * 128" using 1(2) m by (simp add: power_add)
    then have lt: "unat (drop_bit 7 v) < 2 ^ (7 * m)" by (simp add: d less_mult_imp_div_less)
    have "0 < m"
    proof (rule ccontr)
      assume "\<not> 0 < m"
      with lt have "unat (drop_bit 7 v) = 0" by simp
      with False show False by (simp add: unat_eq_zero)
    qed
    with 1(1) [OF refl refl False lt] False m show ?thesis by (simp add: write_varint.simps [of v])
  qed
qed

lemma write_varint_bound: "1 \<le> length (write_varint v) \<and> length (write_varint v) \<le> 10"
proof -
  have "unat v < 2 ^ 64" using unsigned_less [of v, where 'a = nat] by simp
  then have "unat v < 2 ^ (7 * 10)" by simp
  then have "length (write_varint v) \<le> 10" by (rule write_varint_length) simp
  moreover have "write_varint v \<noteq> []" by (simp add: write_varint.simps [of v] Let_def)
  ultimately show ?thesis by (cases "write_varint v") auto
qed

section \<open>Delta coding of 64-bit integers\<close>

fun encode_i64_deltas :: "i64 \<Rightarrow> i64 list \<Rightarrow> bytes" where
  "encode_i64_deltas prev [] = []"
| "encode_i64_deltas prev (val # vals) =
     (let delta = val - prev in write_varint (zigzag_encode delta) @ encode_i64_deltas val vals)"

definition encode_i64 :: "i64 list \<Rightarrow> bytes" where
  "encode_i64 values =
     (case values of [] \<Rightarrow> [] | v # vs \<Rightarrow> to_le 8 v @ encode_i64_deltas v vs)"

text \<open>\<^verbatim>\<open>decode_i64_each\<close> calls \<^verbatim>\<open>f\<close> on each value in order; the model returns the values \<^verbatim>\<open>f\<close> is called on.\<close>

fun decode_i64_loop :: "bytes \<Rightarrow> nat \<Rightarrow> i64 \<Rightarrow> nat \<Rightarrow> i64 list option" where
  "decode_i64_loop data pos prev 0 = Some []"
| "decode_i64_loop data pos prev (Suc n) = do {
     (zz, pos') \<leftarrow> read_varint_at data pos;
     let prev' = prev + zigzag_decode zz;
     rest \<leftarrow> decode_i64_loop data pos' prev' n;
     Some (prev' # rest)
   }"

definition decode_i64_each :: "bytes \<Rightarrow> nat \<Rightarrow> i64 list option" where
  "decode_i64_each data count =
     (if count = 0 then Some []
      else do {
        first \<leftarrow> read_le data 0 8;
        rest \<leftarrow> decode_i64_loop data 8 first (count - 1);
        Some (first # rest)
      })"

definition decode_i64 :: "bytes \<Rightarrow> nat \<Rightarrow> i64 list option" where
  "decode_i64 data count = decode_i64_each data count"

lemma decode_i64_loop_encode:
  "decode_i64_loop (pre @ encode_i64_deltas prev vs @ post) (length pre) prev (length vs) = Some vs"
proof (induction vs arbitrary: pre prev)
  case (Cons v vs)
  let ?w = "write_varint (zigzag_encode (v - prev))"
  have "decode_i64_loop ((pre @ ?w) @ encode_i64_deltas v vs @ post) (length (pre @ ?w)) v (length vs) = Some vs"
    by (rule Cons.IH)
  then show ?case
    using read_varint_at_write [of pre "zigzag_encode (v - prev)" "encode_i64_deltas v vs @ post"]
    by simp
qed simp

lemma decode_encode_i64 [simp, roundtrips]: "decode_i64 (encode_i64 vs) (length vs) = Some vs"
proof (cases vs)
  case (Cons v ws)
  have "decode_i64_loop (to_le 8 v @ encode_i64_deltas v ws @ []) (length (to_le 8 v)) v (length ws) = Some ws"
    by (rule decode_i64_loop_encode)
  then show ?thesis
    using Cons read_le_front [of 8 v "encode_i64_deltas v ws"]
    by (simp add: decode_i64_def decode_i64_each_def encode_i64_def)
qed (simp add: decode_i64_def decode_i64_each_def)

section \<open>Delta coding of 32-bit integers\<close>

fun encode_i32_deltas :: "i32 \<Rightarrow> i32 list \<Rightarrow> bytes" where
  "encode_i32_deltas prev [] = []"
| "encode_i32_deltas prev (val # vals) =
     (let delta = (scast val :: i64) - scast prev
      in write_varint (zigzag_encode delta) @ encode_i32_deltas val vals)"

definition encode_i32 :: "i32 list \<Rightarrow> bytes" where
  "encode_i32 values =
     (case values of [] \<Rightarrow> [] | v # vs \<Rightarrow> to_le 4 v @ encode_i32_deltas v vs)"

fun decode_i32_loop :: "bytes \<Rightarrow> nat \<Rightarrow> i64 \<Rightarrow> nat \<Rightarrow> i32 list option" where
  "decode_i32_loop data pos prev 0 = Some []"
| "decode_i32_loop data pos prev (Suc n) = do {
     (zz, pos') \<leftarrow> read_varint_at data pos;
     let prev' = prev + zigzag_decode zz;
     rest \<leftarrow> decode_i32_loop data pos' prev' n;
     Some (ucast prev' # rest)
   }"

definition decode_i32_each :: "bytes \<Rightarrow> nat \<Rightarrow> i32 list option" where
  "decode_i32_each data count =
     (if count = 0 then Some []
      else do {
        first \<leftarrow> read_le data 0 4;
        rest \<leftarrow> decode_i32_loop data 4 (scast first) (count - 1);
        Some (first # rest)
      })"

definition decode_i32 :: "bytes \<Rightarrow> nat \<Rightarrow> i32 list option" where
  "decode_i32 data count = decode_i32_each data count"

lemma decode_i32_loop_encode:
  "decode_i32_loop (pre @ encode_i32_deltas prev vs @ post) (length pre) (scast prev) (length vs) = Some vs"
proof (induction vs arbitrary: pre prev)
  case (Cons v vs)
  let ?d = "(scast v :: i64) - scast prev"
  let ?w = "write_varint (zigzag_encode ?d)"
  have "decode_i32_loop ((pre @ ?w) @ encode_i32_deltas v vs @ post) (length (pre @ ?w)) (scast v) (length vs) = Some vs"
    by (rule Cons.IH)
  then show ?case
    using read_varint_at_write [of pre "zigzag_encode ?d" "encode_i32_deltas v vs @ post"]
    by (simp add: ucast_scast_up)
qed simp

lemma decode_encode_i32 [simp, roundtrips]: "decode_i32 (encode_i32 vs) (length vs) = Some vs"
proof (cases vs)
  case (Cons v ws)
  have "decode_i32_loop (to_le 4 v @ encode_i32_deltas v ws @ []) (length (to_le 4 v)) (scast v) (length ws) = Some ws"
    by (rule decode_i32_loop_encode)
  then show ?thesis
    using Cons read_le_front [of 4 v "encode_i32_deltas v ws"]
    by (simp add: decode_i32_def decode_i32_each_def encode_i32_def)
qed (simp add: decode_i32_def decode_i32_each_def)

end
