(* ===== verification/Bitpacked.thy ===== *)
theory Bitpacked
  imports Integer_Codec
begin

unbundle bit_operations_syntax

text \<open>
  Frame-of-reference bit packing and the constant encoding of integer columns
  (\<^verbatim>\<open>src/compression/bitpacked.rs\<close>). The \<^verbatim>\<open>u32\<close> and \<^verbatim>\<open>u64\<close> routines of the source differ only in
  the word width, so their loops are written once at a type variable \<open>'w word\<close> and instantiated.
  The loops are characterised bit by bit; unpacking undoes packing, the byte-aligned fast paths agree
  with the bit loop on every buffer (panics included), and the width chosen is the least that fits.
\<close>

section \<open>Bit widths\<close>

definition bit_width_for_range :: "u64 \<Rightarrow> u8" where
  "bit_width_for_range rng = (if rng = 0 then 0 else word_of_nat (64 - leading_zeros rng))"

lemma unat_bit_width: "unat (bit_width_for_range r) = 64 - leading_zeros r"
  by (simp add: bit_width_for_range_def word_of_nat_inverse)

lemma bit_width_le: "unat (bit_width_for_range r) \<le> 64"
  by (simp add: unat_bit_width)

lemma bit_width_fits: "unat r < 2 ^ unat (bit_width_for_range r)"
proof -
  let ?n = "64 - leading_zeros r"
  have "take_bit ?n r = r"
    by (rule bit_word_eqI) (auto simp: bit_take_bit_iff dest: leading_zeros_bit)
  then have "unat r = take_bit ?n (unat r)" by (metis unsigned_take_bit_eq)
  then show ?thesis by (metis take_bit_nat_less_exp unat_bit_width)
qed

lemma bit_width_least: "unat r < 2 ^ n \<Longrightarrow> unat (bit_width_for_range r) \<le> n"
proof (cases "r = 0")
  case False
  assume n: "unat r < 2 ^ n"
  have "\<not> n \<le> 63 - leading_zeros r"
    using not_bit_above [OF n, of "63 - leading_zeros r"] leading_zeros_top [OF False] by auto
  with leading_zeros_top(1) [OF False] show ?thesis by (simp add: unat_bit_width)
qed (simp add: bit_width_for_range_def)

section \<open>The bit loops\<close>

function pack_value :: "'w::len word \<Rightarrow> nat \<Rightarrow> nat \<Rightarrow> bytes \<Rightarrow> bytes option" where
  "pack_value val remaining bp buf =
     (if remaining = 0 then Some buf
      else let byte_idx = bp div 8; bit_offset = bp mod 8; space = 8 - bit_offset;
               to_write = min remaining space;
               mask = (if to_write = LENGTH('w) then - 1 else push_bit to_write 1 - 1)
           in do {
             buf' \<leftarrow> modify buf byte_idx (\<lambda>b. b OR push_bit bit_offset (ucast (val AND mask)));
             pack_value (drop_bit to_write val) (remaining - to_write) (bp + to_write) buf'
           })"
  by pat_completeness auto
termination by (relation "measure (\<lambda>(_, remaining, _, _). remaining)") auto

declare pack_value.simps [simp del]

fun pack_values :: "nat \<Rightarrow> 'w::len word list \<Rightarrow> nat \<Rightarrow> bytes \<Rightarrow> bytes option" where
  "pack_values bits [] bit_pos buf = Some buf"
| "pack_values bits (v # vs) bit_pos buf = do {
     buf' \<leftarrow> pack_value v bits bit_pos buf;
     pack_values bits vs (bit_pos + bits) buf'
   }"

definition pack_bits :: "'w::len word list \<Rightarrow> nat \<Rightarrow> bytes option" where
  "pack_bits values bits =
     (if bits = 0 \<or> values = [] then Some []
      else pack_values bits values 0 (replicate (div_ceil (length values * bits) 8) 0))"

function unpack_value :: "bytes \<Rightarrow> nat \<Rightarrow> nat \<Rightarrow> nat \<Rightarrow> 'w::len word \<Rightarrow> 'w word option" where
  "unpack_value buf remaining bp shift val =
     (if remaining = 0 then Some val
      else let byte_idx = bp div 8; bit_offset = bp mod 8; space = 8 - bit_offset;
               to_read = min remaining space;
               mask = (if to_read = 8 then 0xFF else push_bit to_read 1 - 1)
           in do {
             b \<leftarrow> index buf byte_idx;
             let bits_val = drop_bit bit_offset b AND mask;
             unpack_value buf (remaining - to_read) (bp + to_read) (shift + to_read)
               (val OR shl (ucast bits_val) shift)
           })"
  by pat_completeness auto
termination by (relation "measure (\<lambda>(_, remaining, _, _, _). remaining)") auto

declare unpack_value.simps [simp del]

fun unpack_values :: "bytes \<Rightarrow> nat \<Rightarrow> nat \<Rightarrow> nat \<Rightarrow> 'w::len word list option" where
  "unpack_values buf bits bit_pos 0 = Some []"
| "unpack_values buf bits bit_pos (Suc n) = do {
     v \<leftarrow> unpack_value buf bits bit_pos 0 0;
     rest \<leftarrow> unpack_values buf bits (bit_pos + bits) n;
     Some (v # rest)
   }"

text \<open>The byte-aligned fast paths: \<^verbatim>\<open>data[..count * n].chunks_exact(n)\<close>, each chunk little-endian.\<close>

fun chunks_exact :: "nat \<Rightarrow> nat \<Rightarrow> 'a list \<Rightarrow> 'a list list" where
  "chunks_exact n 0 xs = []"
| "chunks_exact n (Suc k) xs = take n xs # chunks_exact n k (drop n xs)"

definition unpack_chunks :: "nat \<Rightarrow> bytes \<Rightarrow> nat \<Rightarrow> 'w::len word list option" where
  "unpack_chunks n buf count = do {
     prefix \<leftarrow> slice buf 0 (count * n);
     Some (map from_le (chunks_exact n count prefix))
   }"

definition unpack_bits_u32 :: "bytes \<Rightarrow> nat \<Rightarrow> nat \<Rightarrow> u32 list option" where
  "unpack_bits_u32 buf count bits =
     (if bits = 0 \<or> count = 0 then Some (replicate count 0)
      else if bits = 8 then do { prefix \<leftarrow> slice buf 0 count; Some (map ucast prefix) }
      else if bits = 16 then map_option (map ucast) (unpack_chunks 2 buf count :: u16 list option)
      else if bits = 32 then unpack_chunks 4 buf count
      else unpack_values buf bits 0 count)"

definition unpack_bits_u64 :: "bytes \<Rightarrow> nat \<Rightarrow> nat \<Rightarrow> u64 list option" where
  "unpack_bits_u64 buf count bits =
     (if bits = 0 \<or> count = 0 then Some (replicate count 0)
      else if bits = 8 then do { prefix \<leftarrow> slice buf 0 count; Some (map ucast prefix) }
      else if bits = 16 then map_option (map ucast) (unpack_chunks 2 buf count :: u16 list option)
      else if bits = 32 then map_option (map ucast) (unpack_chunks 4 buf count :: u32 list option)
      else if bits = 64 then unpack_chunks 8 buf count
      else unpack_values buf bits 0 count)"

definition pack_bits_u32 :: "u32 list \<Rightarrow> nat \<Rightarrow> bytes option" where
  "pack_bits_u32 = pack_bits"

definition pack_bits_u64 :: "u64 list \<Rightarrow> nat \<Rightarrow> bytes option" where
  "pack_bits_u64 = pack_bits"

subsection \<open>What the loops do to the bits\<close>

lemma bit_low_mask: "bit ((2::'w::len word) ^ n - 1) k \<longleftrightarrow> k < LENGTH('w) \<and> k < n"
  by (simp add: mask_eq_exp_minus_1 [symmetric] bit_mask_iff)

lemma bit_0xFF: "bit (0xFF :: int) k \<longleftrightarrow> k < 8"
proof -
  have "(0xFF :: int) = mask 8" by (simp add: mask_eq_exp_minus_1)
  then show ?thesis by (simp only: bit_mask_iff) auto
qed

lemma buf_bit_update:
  assumes "i < length buf"
  shows "buf_bit (buf[i := v]) k \<longleftrightarrow> (if k div 8 = i then bit v (k mod 8) else buf_bit buf k)"
  using assms by (auto simp: buf_bit_def)

lemma bit_pack_chunk:
  assumes "off + tw \<le> 8" and "0 < tw" and "8 < LENGTH('w)" and "j < 8"
  shows "bit (push_bit off (ucast ((val :: 'w::len word) AND (2 ^ tw - 1)) :: u8)) j
    \<longleftrightarrow> off \<le> j \<and> j - off < tw \<and> bit val (j - off)"
  using assms by (auto simp: bit_push_bit_iff bit_ucast_iff bit_and_iff bit_low_mask)

lemma same_byte:
  assumes "k div 8 = bp div (8::nat)"
  shows "bp mod 8 \<le> k mod 8 \<longleftrightarrow> bp \<le> k" and "bp mod 8 \<le> k mod 8 \<Longrightarrow> k mod 8 - bp mod 8 = k - bp"
proof -
  have "k = bp div 8 * 8 + k mod 8" "bp = bp div 8 * 8 + bp mod 8" using assms by (metis div_mult_mod_eq)+
  then show "bp mod 8 \<le> k mod 8 \<longleftrightarrow> bp \<le> k" and "bp mod 8 \<le> k mod 8 \<Longrightarrow> k mod 8 - bp mod 8 = k - bp"
    by linarith+
qed

lemma in_byte:
  assumes "bp \<le> k" and "k < bp + tw" and "tw \<le> 8 - bp mod (8::nat)"
  shows "k div 8 = bp div 8"
proof -
  define q r where "q = bp div 8" and "r = bp mod 8"
  have "bp = 8 * q + r" "r < 8" by (simp_all add: q_def r_def)
  with assms have "8 * q \<le> k" "k < 8 * Suc q" by (simp_all add: r_def [symmetric])
  then show ?thesis unfolding q_def [symmetric] by (intro div_nat_eqI) simp_all
qed

lemma pack_chunk_spec:
  fixes val :: "'w::len word"
  assumes "bp div 8 < length buf" and "0 < tw" and "tw \<le> 8 - bp mod 8" and "8 < LENGTH('w)"
  shows "buf_bit (buf[bp div 8 := buf ! (bp div 8) OR push_bit (bp mod 8) (ucast (val AND (2 ^ tw - 1)))]) k
    \<longleftrightarrow> buf_bit buf k \<or> (bp \<le> k \<and> k < bp + tw \<and> bit val (k - bp))"
proof (cases "k div 8 = bp div 8")
  case True
  let ?c = "push_bit (bp mod 8) (ucast (val AND (2 ^ tw - 1)) :: u8)"
  have "bp mod 8 + tw \<le> 8" using assms(3) mod_less_divisor [of 8 bp] by linarith
  then have "bit ?c (k mod 8) \<longleftrightarrow> bp mod 8 \<le> k mod 8 \<and> k mod 8 - bp mod 8 < tw \<and> bit val (k mod 8 - bp mod 8)"
    using assms by (intro bit_pack_chunk) simp_all
  also have "\<dots> \<longleftrightarrow> bp \<le> k \<and> k < bp + tw \<and> bit val (k - bp)"
    using same_byte [OF True] by (metis less_diff_conv2 add.commute)
  finally show ?thesis
    using True assms(1) by (simp only: buf_bit_update bit_or_iff if_True) (simp add: buf_bit_def)
next
  case False
  with assms in_byte [of bp k tw] show ?thesis by (auto simp: buf_bit_update)
qed

lemma pack_value_spec [bit_specs]:
  fixes val :: "'w::len word"
  assumes "bp + remaining \<le> 8 * length buf" and "8 < LENGTH('w)"
  shows "\<exists>buf'. pack_value val remaining bp buf = Some buf' \<and> length buf' = length buf
    \<and> (\<forall>k. buf_bit buf' k \<longleftrightarrow> buf_bit buf k \<or> (bp \<le> k \<and> k < bp + remaining \<and> bit val (k - bp)))"
  using assms
proof (induction val remaining bp buf rule: pack_value.induct)
  case (1 val remaining bp buf)
  show ?case
  proof (cases "remaining = 0")
    case False
    define tw where "tw = min remaining (8 - bp mod 8)"
    have tw: "0 < tw" "tw \<le> 8 - bp mod 8" "tw \<le> remaining" using False by (simp_all add: tw_def)
    have "tw \<le> 8" using tw(2) by simp
    with 1(3) have ne: "tw \<noteq> LENGTH('w)" by simp
    have idx: "bp div 8 < length buf" using 1(2) False by auto
    let ?b1 = "buf[bp div 8 := buf ! (bp div 8) OR push_bit (bp mod 8) (ucast (val AND (2 ^ tw - 1)))]"
    have step: "pack_value val remaining bp buf
        = pack_value (drop_bit tw val) (remaining - tw) (bp + tw) ?b1"
      using False ne idx by (simp add: pack_value.simps [of val] Let_def tw_def modify_def)
    have m: "modify buf (bp div 8) (\<lambda>b. b OR push_bit (bp mod 8) (ucast (val AND (if tw = LENGTH('w) then - 1 else push_bit tw 1 - 1)))) = Some ?b1"
      using ne idx by (simp add: modify_def)
    have "bp + tw + (remaining - tw) \<le> 8 * length ?b1" using 1(2) tw by simp
    from 1(1) [OF False refl refl refl tw_def refl m this 1(3)] obtain buf' where
      "pack_value (drop_bit tw val) (remaining - tw) (bp + tw) ?b1 = Some buf'" "length buf' = length buf"
      "\<forall>k. buf_bit buf' k \<longleftrightarrow> buf_bit ?b1 k \<or> (bp + tw \<le> k \<and> k < bp + tw + (remaining - tw) \<and> bit (drop_bit tw val) (k - (bp + tw)))"
      by auto
    moreover have "buf_bit ?b1 k \<or> (bp + tw \<le> k \<and> k < bp + tw + (remaining - tw) \<and> bit (drop_bit tw val) (k - (bp + tw)))
       \<longleftrightarrow> buf_bit buf k \<or> (bp \<le> k \<and> k < bp + remaining \<and> bit val (k - bp))" for k
      using pack_chunk_spec [OF idx tw(1,2) 1(3), of val k] tw(1,3)
      by (auto simp: bit_drop_bit_eq not_le)
    ultimately show ?thesis unfolding step by blast
  qed (auto simp: pack_value.simps [of val])
qed

lemma pack_values_spec [bit_specs]:
  fixes vs :: "'w::len word list"
  assumes "bp + length vs * bits \<le> 8 * length buf" and "8 < LENGTH('w)"
  shows "\<exists>buf'. pack_values bits vs bp buf = Some buf' \<and> length buf' = length buf
    \<and> (\<forall>k. buf_bit buf' k \<longleftrightarrow> buf_bit buf k
         \<or> (\<exists>i j. i < length vs \<and> j < bits \<and> k = bp + i * bits + j \<and> bit (vs ! i) j))"
  using assms
proof (induction vs arbitrary: bp buf)
  case (Cons v vs)
  have "bp + bits \<le> 8 * length buf" using Cons.prems(1) by simp
  from pack_value_spec [OF this Cons.prems(2), of v] obtain b1 where b1:
    "pack_value v bits bp buf = Some b1" "length b1 = length buf"
    "\<forall>k. buf_bit b1 k \<longleftrightarrow> buf_bit buf k \<or> (bp \<le> k \<and> k < bp + bits \<and> bit v (k - bp))" by blast
  have "bp + bits + length vs * bits \<le> 8 * length b1" using Cons.prems(1) b1(2) by simp
  from Cons.IH [OF this Cons.prems(2)] obtain b2 where b2:
    "pack_values bits vs (bp + bits) b1 = Some b2" "length b2 = length b1"
    "\<forall>k. buf_bit b2 k \<longleftrightarrow> buf_bit b1 k
         \<or> (\<exists>i j. i < length vs \<and> j < bits \<and> k = bp + bits + i * bits + j \<and> bit (vs ! i) j)" by blast
  have "(\<exists>i j. i < length (v # vs) \<and> j < bits \<and> k = bp + i * bits + j \<and> bit ((v # vs) ! i) j)
    \<longleftrightarrow> (bp \<le> k \<and> k < bp + bits \<and> bit v (k - bp))
      \<or> (\<exists>i j. i < length vs \<and> j < bits \<and> k = bp + bits + i * bits + j \<and> bit (vs ! i) j)" for k
    by (auto simp: less_Suc_eq_0_disj add.assoc le_iff_add)
  with b1 b2 show ?case by simp
qed simp

text \<open>The word whose bit \<open>j\<close> is bit \<open>bp + j\<close> of the buffer, for \<open>j < n\<close>.\<close>

definition packed_word :: "bytes \<Rightarrow> nat \<Rightarrow> nat \<Rightarrow> 'w::len word" where
  "packed_word buf bp n = horner_sum of_bool 2 (map (\<lambda>j. buf_bit buf (bp + j)) [0..<n])"

lemma bit_packed_word [bit_specs]:
  "bit (packed_word buf bp n :: 'w::len word) j \<longleftrightarrow> j < LENGTH('w) \<and> j < n \<and> buf_bit buf (bp + j)"
  by (auto simp: packed_word_def bit_horner_sum_bit_word_iff)

lemma bit_unpack_chunk:
  assumes "bp div 8 < length buf" and "tr \<le> 8 - bp mod 8" and "0 < tr"
  shows "bit (drop_bit (bp mod 8) (buf ! (bp div 8)) AND (if tr = 8 then 0xFF else push_bit tr 1 - 1)) j
    \<longleftrightarrow> j < tr \<and> buf_bit buf (bp + j)"
proof (cases "j < tr")
  case True
  with in_byte [of bp "bp + j" tr] assms(2) have d: "(bp + j) div 8 = bp div 8" by simp
  with same_byte [OF d] have m: "(bp + j) mod 8 = bp mod 8 + j" by simp
  have "j < 8" using True assms(2) by simp
  with True d m assms(1) show ?thesis
    by (auto simp: bit_and_iff bit_drop_bit_eq bit_low_mask bit_0xFF buf_bit_def)
next
  case False
  then show ?thesis by (auto simp: bit_and_iff bit_drop_bit_eq bit_low_mask bit_0xFF)
qed

lemma unpack_value_step:
  assumes "0 < remaining" and "bp div 8 < length buf" and "tr = min remaining (8 - bp mod 8)"
  shows "unpack_value buf remaining bp shift val
    = unpack_value buf (remaining - tr) (bp + tr) (shift + tr)
        (val OR shl (ucast (drop_bit (bp mod 8) (buf ! (bp div 8))
                            AND (if tr = 8 then 0xFF else push_bit tr 1 - 1))) shift)"
proof -
  have "remaining \<noteq> 0" using assms(1) by simp
  with assms(2,3) show ?thesis
    by (subst unpack_value.simps) (simp only: Let_def index_Some bind.bind_lunit if_False)
qed

lemma unpack_value_spec [bit_specs]:
  fixes val :: "'w::len word"
  assumes "bp + remaining \<le> 8 * length buf" and "shift + remaining \<le> LENGTH('w)"
  shows "\<exists>val'. unpack_value buf remaining bp shift val = Some val'
    \<and> (\<forall>j. bit val' j \<longleftrightarrow> bit val j \<or> (shift \<le> j \<and> j < shift + remaining \<and> buf_bit buf (bp + (j - shift))))"
  using assms
proof (induction buf remaining bp shift val rule: unpack_value.induct)
  case (1 buf remaining bp shift val)
  show ?case
  proof (cases "remaining = 0")
    case False
    define tr where "tr = min remaining (8 - bp mod 8)"
    have tr: "0 < tr" "tr \<le> 8 - bp mod 8" "tr \<le> remaining" using False by (simp_all add: tr_def)
    have idx: "bp div 8 < length buf" using 1(2) False by auto
    let ?v = "drop_bit (bp mod 8) (buf ! (bp div 8)) AND (if tr = 8 then 0xFF else push_bit tr 1 - 1)"
    let ?val = "val OR shl (ucast ?v) shift :: 'w word"
    have step: "unpack_value buf remaining bp shift val
        = unpack_value buf (remaining - tr) (bp + tr) (shift + tr) ?val"
      using False idx by (intro unpack_value_step) (simp_all add: tr_def)
    have "shift < LENGTH('w)" using 1(3) False by linarith
    then have v: "bit ?val j \<longleftrightarrow> bit val j \<or> (shift \<le> j \<and> j < shift + tr \<and> buf_bit buf (bp + (j - shift)))" for j
      using 1(3) tr bit_unpack_chunk [OF idx tr(2,1), of "j - shift"]
      by (auto simp: shl_def bit_or_iff bit_push_bit_iff bit_ucast_iff)
    have "bp + tr + (remaining - tr) \<le> 8 * length buf" "shift + tr + (remaining - tr) \<le> LENGTH('w)"
      using 1(2,3) tr by simp_all
    from 1(1) [OF False refl refl refl tr_def refl _ refl this] idx obtain val' where
      "unpack_value buf (remaining - tr) (bp + tr) (shift + tr) ?val = Some val'"
      "\<forall>j. bit val' j \<longleftrightarrow> bit ?val j \<or> (shift + tr \<le> j \<and> j < shift + tr + (remaining - tr) \<and> buf_bit buf (bp + tr + (j - (shift + tr))))"
      by auto
    moreover have "bit ?val j \<or> (shift + tr \<le> j \<and> j < shift + tr + (remaining - tr) \<and> buf_bit buf (bp + tr + (j - (shift + tr))))
       \<longleftrightarrow> bit val j \<or> (shift \<le> j \<and> j < shift + remaining \<and> buf_bit buf (bp + (j - shift)))" for j
      unfolding v using tr(1,3) by (cases "j < shift + tr") auto
    ultimately show ?thesis unfolding step by blast
  qed (auto simp: unpack_value.simps [of buf 0])
qed

lemma unpack_value_short:
  assumes "8 * length buf < bp + remaining" and "0 < remaining"
  shows "unpack_value buf remaining bp shift (val :: 'w::len word) = None"
  using assms
proof (induction buf remaining bp shift val rule: unpack_value.induct)
  case (1 buf remaining bp shift val)
  define tr where "tr = min remaining (8 - bp mod 8)"
  show ?case
  proof (cases "bp div 8 < length buf")
    case True
    have "bp + (8 - bp mod 8) \<le> 8 * length buf"
    proof -
      have "bp = 8 * (bp div 8) + bp mod 8" "bp mod 8 < 8" by simp_all
      with True show ?thesis by linarith
    qed
    with 1(2) have tr: "tr < remaining" "bp + tr \<le> 8 * length buf" by (auto simp: tr_def)
    have "unpack_value buf (remaining - tr) (bp + tr) (shift + tr)
        (val OR shl (ucast (drop_bit (bp mod 8) (buf ! (bp div 8)) AND (if tr = 8 then 0xFF else push_bit tr 1 - 1))) shift) = None"
      by (rule 1(1) [OF _ refl refl refl tr_def refl _ refl]) (use True 1(2,3) tr in auto)
    then show ?thesis by (simp only: unpack_value_step [OF 1(3) True tr_def])
  next
    case False
    with 1(3) show ?thesis by (simp add: unpack_value.simps [of buf remaining] Let_def)
  qed
qed

lemma unpack_value_eq:
  assumes "0 < n" and "n \<le> LENGTH('w)"
  shows "unpack_value buf n bp 0 (0 :: 'w::len word)
    = (if bp + n \<le> 8 * length buf then Some (packed_word buf bp n) else None)"
proof (cases "bp + n \<le> 8 * length buf")
  case True
  from unpack_value_spec [OF True, of 0 "0 :: 'w word"] assms obtain v :: "'w word"
    where v: "unpack_value buf n bp 0 0 = Some v" "\<forall>j. bit v j \<longleftrightarrow> j < n \<and> buf_bit buf (bp + j)" by auto
  then have "v = packed_word buf bp n" by (intro bit_word_eqI) (simp add: bit_packed_word)
  with v True show ?thesis by simp
next
  case False
  with assms show ?thesis by (simp add: unpack_value_short)
qed

lemma unpack_values_eq:
  assumes "0 < bits" and "bits \<le> LENGTH('w)"
  shows "(unpack_values buf bits bp n :: 'w::len word list option)
    = (if n = 0 \<or> bp + n * bits \<le> 8 * length buf
       then Some (map (\<lambda>i. packed_word buf (bp + i * bits) bits) [0..<n]) else None)"
proof (induction n arbitrary: bp)
  case (Suc n)
  have "map (\<lambda>i. packed_word buf (bp + i * bits) bits :: 'w word) [0..<Suc n]
      = packed_word buf bp bits # map (\<lambda>i. packed_word buf (bp + bits + i * bits) bits) [0..<n]"
    by (simp add: map_upt_Suc add.assoc del: upt_Suc)
  moreover have "n = 0 \<or> bp + bits + n * bits \<le> 8 * length buf
      \<longleftrightarrow> n = 0 \<or> bp + Suc n * bits \<le> 8 * length buf" by (simp add: add.assoc)
  ultimately show ?case using assms Suc.IH [of "bp + bits"]
    by (auto simp: unpack_value_eq simp del: upt_Suc)
qed simp

subsection \<open>Unpacking undoes packing\<close>

lemma pack_bits_spec:
  fixes vs :: "'w::len word list"
  assumes "8 < LENGTH('w)"
  shows "\<exists>buf. pack_bits vs bits = Some buf \<and> length buf = div_ceil (length vs * bits) 8
    \<and> (\<forall>i < length vs. \<forall>j < bits. buf_bit buf (i * bits + j) \<longleftrightarrow> bit (vs ! i) j)"
proof (cases "bits = 0 \<or> vs = []")
  case True
  then show ?thesis by (auto simp: pack_bits_def div_ceil_def)
next
  case False
  have "0 + length vs * bits \<le> 8 * length (replicate (div_ceil (length vs * bits) 8) (0::u8))"
    using div_ceil_le_iff [of 8 "length vs * bits"] by (simp add: mult.commute)
  from pack_values_spec [OF this assms] obtain buf where buf:
    "pack_bits vs bits = Some buf" "length buf = div_ceil (length vs * bits) 8"
    "\<forall>k. buf_bit buf k \<longleftrightarrow> (\<exists>i j. i < length vs \<and> j < bits \<and> k = i * bits + j \<and> bit (vs ! i) j)"
    using False by (auto simp: pack_bits_def)
  have "i = i' \<and> j = j'" if "i * bits + j = i' * bits + j'" "j < bits" "j' < bits" for i j i' j'
  proof -
    have "(i * bits + j) div bits = i" using that(2) by simp
    moreover have "(i' * bits + j') div bits = i'" using that(3) by simp
    ultimately have "i = i'" using that(1) by simp
    with that(1) show ?thesis by simp
  qed
  with buf show ?thesis by blast
qed

lemma packed_word_eq:
  assumes "unat (v :: 'w::len word) < 2 ^ bits" and "\<forall>j < bits. buf_bit buf (bp + j) \<longleftrightarrow> bit v j"
  shows "packed_word buf bp bits = v"
  using assms not_bit_above [OF assms(1)]
  by (intro bit_word_eqI) (auto simp: bit_packed_word intro: leI)

lemma unpack_values_pack_bits [roundtrips]:
  fixes vs :: "'w::len word list"
  assumes "8 < LENGTH('w)" and "0 < bits" and "bits \<le> LENGTH('w)" and "\<forall>v \<in> set vs. unat v < 2 ^ bits"
  shows "\<exists>buf. pack_bits vs bits = Some buf \<and> unpack_values buf bits 0 (length vs) = Some vs"
proof -
  obtain buf where buf: "pack_bits vs bits = Some buf" "length buf = div_ceil (length vs * bits) 8"
    "\<forall>i < length vs. \<forall>j < bits. buf_bit buf (i * bits + j) \<longleftrightarrow> bit (vs ! i) j"
    using pack_bits_spec [OF assms(1)] by blast
  have "length vs * bits \<le> 8 * length buf"
    using buf(2) div_ceil_le_iff [of 8 "length vs * bits"] by (simp add: mult.commute)
  moreover have "map (\<lambda>i. packed_word buf (i * bits) bits) [0..<length vs] = vs"
    using buf(3) assms(4) by (auto intro!: nth_equalityI packed_word_eq)
  ultimately show ?thesis using buf(1) assms(2,3) by (simp add: unpack_values_eq)
qed

subsection \<open>The fast paths\<close>

lemma nth_chunks_exact:
  "i < k \<Longrightarrow> chunks_exact n k xs ! i = take n (drop (i * n) xs)"
proof (induction n k xs arbitrary: i rule: chunks_exact.induct)
  case (2 n k xs)
  then show ?case by (cases i) (simp_all add: add.commute)
qed simp

lemma length_chunks_exact [simp]: "length (chunks_exact n k xs) = k"
  by (induction n k xs rule: chunks_exact.induct) simp_all

lemma from_le_chunk:
  assumes "(i + 1) * n \<le> length buf"
  shows "(from_le (take n (drop (i * n) buf)) :: 'w::len word) = packed_word buf (i * (8 * n)) (8 * n)"
proof (rule bit_word_eqI)
  fix j
  assume j: "j < LENGTH('w)"
  have "bit (take n (drop (i * n) buf) ! (j div 8)) (j mod 8) = buf_bit buf (i * (8 * n) + j)"
    if "j < 8 * n"
  proof -
    have d: "(i * (8 * n) + j) div 8 = i * n + j div 8" "(i * (8 * n) + j) mod 8 = j mod 8"
      by (simp_all add: mult.left_commute [of i 8])
    have "j div 8 < n" using that by auto
    with assms show ?thesis by (simp add: buf_bit_def d)
  qed
  with assms j show "bit (from_le (take n (drop (i * n) buf)) :: 'w word) j = bit (packed_word buf (i * (8 * n)) (8 * n) :: 'w word) j"
    by (auto simp: bit_from_le bit_packed_word min_def)
qed

lemma unpack_chunks_eq:
  "(unpack_chunks n buf count :: 'w::len word list option)
    = (if count * n \<le> length buf
       then Some (map (\<lambda>i. packed_word buf (i * (8 * n)) (8 * n)) [0..<count]) else None)"
proof (cases "count * n \<le> length buf")
  case True
  have "take n (drop (i * n) (take (count * n) buf)) = take n (drop (i * n) buf)" if "i < count" for i
  proof -
    have "i * n + n \<le> count * n" using that by (metis Suc_leI add.commute mult_Suc mult_le_mono1)
    then show ?thesis by (simp add: take_drop min_def)
  qed
  moreover have "(i + 1) * n \<le> length buf" if "i < count" for i
    using that True by (metis Suc_eq_plus1 Suc_leI le_trans mult_le_mono1)
  ultimately show ?thesis using True
    by (auto simp: unpack_chunks_def nth_chunks_exact from_le_chunk intro!: nth_equalityI)
qed (simp add: unpack_chunks_def slice_def)

lemma ucast_packed_word:
  "n \<le> LENGTH('v) \<Longrightarrow> (ucast (packed_word buf bp n :: 'v::len word) :: 'w::len word) = packed_word buf bp n"
  by (rule bit_word_eqI) (auto simp: bit_ucast_iff bit_packed_word)

lemma unpack_bytes_eq:
  assumes "count * 1 \<le> length buf"
  shows "map (ucast :: u8 \<Rightarrow> 'w::len word) (take count buf) = map (\<lambda>i. packed_word buf (i * 8) 8) [0..<count]"
proof (rule nth_equalityI)
  fix i
  assume "i < length (map (ucast :: u8 \<Rightarrow> 'w::len word) (take count buf))"
  then have i: "i < count" "i < length buf" by simp_all
  from i have t: "take 1 (drop i buf) = [buf ! i]" by (simp add: take_Suc_conv_app_nth flip: Cons_nth_drop_Suc)
  with i from_le_chunk [of i 1 buf, where 'w = 'w]
  show "map (ucast :: u8 \<Rightarrow> 'w word) (take count buf) ! i = map (\<lambda>i. packed_word buf (i * 8) 8) [0..<count] ! i"
    by simp
qed (use assms in simp)

lemmas fast_paths = unpack_values_eq unpack_chunks_eq unpack_bytes_eq ucast_packed_word o_def slice_def

lemma unpack_bits_u64_eq:
  assumes "0 < bits" and "bits \<le> 64"
  shows "unpack_bits_u64 buf count bits = unpack_values buf bits 0 count"
  using assms by (auto simp: unpack_bits_u64_def fast_paths mult.commute [of count])

lemma unpack_bits_u32_eq:
  assumes "0 < bits" and "bits \<le> 32"
  shows "unpack_bits_u32 buf count bits = unpack_values buf bits 0 count"
  using assms by (auto simp: unpack_bits_u32_def fast_paths mult.commute [of count])

section \<open>Constant encoding\<close>

definition encode_constant_i32 :: "i32 \<Rightarrow> bytes" where
  "encode_constant_i32 v = to_le 4 v"

definition decode_constant_i32 :: "bytes \<Rightarrow> nat \<Rightarrow> i32 list option" where
  "decode_constant_i32 buf count = do { v \<leftarrow> read_le buf 0 4; Some (replicate count v) }"

definition encode_constant_i64 :: "i64 \<Rightarrow> bytes" where
  "encode_constant_i64 v = to_le 8 v"

definition decode_constant_i64 :: "bytes \<Rightarrow> nat \<Rightarrow> i64 list option" where
  "decode_constant_i64 buf count = do { v \<leftarrow> read_le buf 0 8; Some (replicate count v) }"

lemma decode_encode_constant_i32 [simp, roundtrips]:
  "decode_constant_i32 (encode_constant_i32 v) n = Some (replicate n v)"
  using read_le_front [of 4 v "[]"] by (simp add: decode_constant_i32_def encode_constant_i32_def)

lemma decode_encode_constant_i64 [simp, roundtrips]:
  "decode_constant_i64 (encode_constant_i64 v) n = Some (replicate n v)"
  using read_le_front [of 8 v "[]"] by (simp add: decode_constant_i64_def encode_constant_i64_def)

section \<open>Frame of reference\<close>

text \<open>\<^verbatim>\<open>values.iter().min()\<close> on signed and \<^verbatim>\<open>offsets.iter().max().unwrap_or(0)\<close> on unsigned integers.\<close>

fun min_signed :: "'w::len word \<Rightarrow> 'w word list \<Rightarrow> 'w word" where
  "min_signed m [] = m"
| "min_signed m (v # vs) = min_signed (if v <s m then v else m) vs"

fun max_unsigned :: "'w::len word \<Rightarrow> 'w word list \<Rightarrow> 'w word" where
  "max_unsigned m [] = m"
| "max_unsigned m (v # vs) = max_unsigned (max m v) vs"

definition encode_for_i32 :: "i32 list \<Rightarrow> bytes option" where
  "encode_for_i32 values =
     (case values of
        [] \<Rightarrow> Some []
      | v0 # vs \<Rightarrow>
          let min_val = min_signed v0 vs;
              offsets = map (\<lambda>v. ucast ((scast v :: i64) - scast min_val) :: u32) values;
              max_offset = max_unsigned 0 offsets;
              bits = bit_width_for_range (ucast max_offset)
          in do {
            packed \<leftarrow> pack_bits_u32 offsets (unat bits);
            Some (to_le 4 min_val @ [bits] @ packed)
          })"

definition decode_for_i32 :: "bytes \<Rightarrow> nat \<Rightarrow> i32 list option" where
  "decode_for_i32 buf count =
     (if count = 0 \<or> buf = [] then Some []
      else do {
        min_val \<leftarrow> read_le buf 0 4;
        bits \<leftarrow> index buf 4;
        packed \<leftarrow> slice_from buf 5;
        offsets \<leftarrow> unpack_bits_u32 packed count (unat bits);
        Some (map (\<lambda>off. ucast ((scast (min_val :: i32) :: i64) + ucast off)) offsets)
      })"

text \<open>The 64-bit versions work in \<^verbatim>\<open>i128\<close>.\<close>

definition encode_for_i64 :: "i64 list \<Rightarrow> bytes option" where
  "encode_for_i64 values =
     (case values of
        [] \<Rightarrow> Some []
      | v0 # vs \<Rightarrow>
          let min_val = min_signed v0 vs;
              offsets = map (\<lambda>v. ucast ((scast v :: 128 word) - scast min_val) :: u64) values;
              max_offset = max_unsigned 0 offsets;
              bits = bit_width_for_range max_offset
          in do {
            packed \<leftarrow> pack_bits_u64 offsets (unat bits);
            Some (to_le 8 min_val @ [bits] @ packed)
          })"

definition decode_for_i64 :: "bytes \<Rightarrow> nat \<Rightarrow> i64 list option" where
  "decode_for_i64 buf count =
     (if count = 0 \<or> buf = [] then Some []
      else do {
        min_val \<leftarrow> read_le buf 0 8;
        bits \<leftarrow> index buf 8;
        packed \<leftarrow> slice_from buf 9;
        offsets \<leftarrow> unpack_bits_u64 packed count (unat bits);
        Some (map (\<lambda>off. ucast ((scast (min_val :: i64) :: 128 word) + ucast off)) offsets)
      })"

text \<open>Choosing among the three encodings.\<close>

definition best_encoding_i32 :: "i32 list \<Rightarrow> (CompressionType \<times> bytes) option" where
  "best_encoding_i32 values =
     (case values of
        [] \<Rightarrow> Some (ForBitpacked, [])
      | v0 # vs \<Rightarrow>
          if list_all (\<lambda>v. v = v0) values then Some (Constant, encode_constant_i32 v0)
          else do {
            for_encoded \<leftarrow> encode_for_i32 values;
            let delta_encoded = encode_i32 values;
            Some (if length for_encoded \<le> length delta_encoded
                  then (ForBitpacked, for_encoded) else (DeltaVarint, delta_encoded))
          })"

definition best_encoding_i64 :: "i64 list \<Rightarrow> (CompressionType \<times> bytes) option" where
  "best_encoding_i64 values =
     (case values of
        [] \<Rightarrow> Some (ForBitpacked, [])
      | v0 # vs \<Rightarrow>
          if list_all (\<lambda>v. v = v0) values then Some (Constant, encode_constant_i64 v0)
          else do {
            for_encoded \<leftarrow> encode_for_i64 values;
            let delta_encoded = encode_i64 values;
            Some (if length for_encoded \<le> length delta_encoded
                  then (ForBitpacked, for_encoded) else (DeltaVarint, delta_encoded))
          })"

lemma max_unsigned_ge_start: "m \<le> max_unsigned m vs"
  by (induction m vs rule: max_unsigned.induct) (auto intro: order_trans max.cobounded1)

lemma max_unsigned_ge: "v \<in> set vs \<Longrightarrow> v \<le> max_unsigned m vs"
proof (induction m vs rule: max_unsigned.induct)
  case (2 m w ws)
  then show ?case using max_unsigned_ge_start [of "max m w" ws] by auto
qed simp

lemma max_unsigned_mem: "max_unsigned m vs = m \<or> max_unsigned m vs \<in> set vs"
  by (induction m vs rule: max_unsigned.induct) (auto simp: max_def split: if_splits)

lemma min_signed_le_start: "sint (min_signed m vs) \<le> sint m"
proof (induction m vs rule: min_signed.induct)
  case (2 m w ws)
  then show ?case by (cases "w <s m") (auto simp: word_sless_alt)
qed simp

lemma min_signed_least: "v \<in> set (m # vs) \<Longrightarrow> sint (min_signed m vs) \<le> sint v"
proof (induction m vs rule: min_signed.induct)
  case (2 m w ws)
  then show ?case
    using min_signed_le_start [of w ws] min_signed_le_start [of m ws]
    by (cases "w <s m") (auto simp: word_sless_alt)
qed simp

lemma min_signed_mem: "min_signed m vs \<in> set (m # vs)"
  by (induction m vs rule: min_signed.induct) auto

lemma offset_fits:
  assumes "LENGTH('w) \<le> 64" and "v \<in> set offs"
  shows "unat (v :: 'w::len word) < 2 ^ unat (bit_width_for_range (ucast (max_unsigned 0 offs)))"
proof -
  have "unat v \<le> unat (max_unsigned 0 offs)"
    using max_unsigned_ge [OF assms(2), of 0] by (simp add: word_le_nat_alt)
  also have "\<dots> = unat (ucast (max_unsigned 0 offs) :: u64)"
    using assms(1) by (simp add: unat_ucast_up)
  also have "\<dots> < 2 ^ unat (bit_width_for_range (ucast (max_unsigned 0 offs)))"
    by (rule bit_width_fits)
  finally show ?thesis .
qed

lemma unpack_pack_bits_u32 [roundtrips]:
  assumes "\<forall>v \<in> set vs. unat v < 2 ^ bits" and "bits \<le> 32"
  shows "\<exists>buf. pack_bits_u32 vs bits = Some buf \<and> unpack_bits_u32 buf (length vs) bits = Some vs"
proof (cases "bits = 0")
  case True
  with assms(1) have "\<forall>v \<in> set vs. v = 0" by (simp add: unat_eq_zero)
  with True show ?thesis
    by (simp add: pack_bits_u32_def pack_bits_def unpack_bits_u32_def replicate_length_same)
next
  case False
  with assms unpack_values_pack_bits [of bits vs] show ?thesis
    by (simp add: pack_bits_u32_def unpack_bits_u32_eq)
qed

lemma unpack_pack_bits_u64 [roundtrips]:
  assumes "\<forall>v \<in> set vs. unat v < 2 ^ bits" and "bits \<le> 64"
  shows "\<exists>buf. pack_bits_u64 vs bits = Some buf \<and> unpack_bits_u64 buf (length vs) bits = Some vs"
proof (cases "bits = 0")
  case True
  with assms(1) have "\<forall>v \<in> set vs. v = 0" by (simp add: unat_eq_zero)
  with True show ?thesis
    by (simp add: pack_bits_u64_def pack_bits_def unpack_bits_u64_def replicate_length_same)
next
  case False
  with assms unpack_values_pack_bits [of bits vs] show ?thesis
    by (simp add: pack_bits_u64_def unpack_bits_u64_eq)
qed

text \<open>Offsets computed in the wider signed type, narrowed, are differences modulo the width.\<close>

lemma for_offset_i32: "ucast ((scast v :: i64) - scast m) = v - (m :: i32)"
  by (simp add: ucast_diff ucast_scast_up)

lemma for_offset_i64: "ucast ((scast v :: 128 word) - scast m) = v - (m :: i64)"
  by (simp add: ucast_diff ucast_scast_up)

lemma for_restore_i32: "ucast ((scast m :: i64) + ucast (off :: u32)) = (m :: i32) + off"
  by (simp add: ucast_add ucast_scast_up ucast_ucast_up)

lemma for_restore_i64: "ucast ((scast m :: 128 word) + ucast (off :: u64)) = (m :: i64) + off"
  by (simp add: ucast_add ucast_scast_up ucast_ucast_up)

lemma bit_width_u32: "unat (bit_width_for_range (ucast (w :: u32))) \<le> 32"
proof (rule bit_width_least)
  show "unat (ucast w :: u64) < 2 ^ 32"
    using unsigned_less [of w, where 'a = nat] by (simp add: unat_ucast_up)
qed

lemma decode_encode_for_i32 [roundtrips]:
  "\<exists>buf. encode_for_i32 vs = Some buf \<and> decode_for_i32 buf (length vs) = Some vs"
proof (cases vs)
  case (Cons v0 ws)
  define m where "m = min_signed v0 ws"
  define offs where "offs = map (\<lambda>v. v - m) vs"
  define bits where "bits = bit_width_for_range (ucast (max_unsigned 0 offs))"
  obtain packed where p: "pack_bits_u32 offs (unat bits) = Some packed"
    "unpack_bits_u32 packed (length vs) (unat bits) = Some offs"
    using unpack_pack_bits_u32 [of offs "unat bits"] bit_width_u32 offset_fits [of _ offs]
    by (auto simp: bits_def offs_def)
  have "encode_for_i32 vs = Some (to_le 4 m @ [bits] @ packed)"
    using p(1) by (simp add: encode_for_i32_def Cons for_offset_i32 Let_def offs_def bits_def m_def)
  moreover have "slice_from (to_le 4 m @ [bits] @ packed) 5 = Some packed"
    using slice_from_suffix [of "to_le 4 m @ [bits]" 5 packed] by simp
  then have "decode_for_i32 (to_le 4 m @ [bits] @ packed) (length vs) = Some vs"
    using p(2) Cons read_le_front [of 4 m "[bits] @ packed"]
    by (simp add: decode_for_i32_def nth_append for_restore_i32 offs_def o_def)
  ultimately show ?thesis by blast
qed (simp add: encode_for_i32_def decode_for_i32_def)

lemma decode_encode_for_i64 [roundtrips]:
  "\<exists>buf. encode_for_i64 vs = Some buf \<and> decode_for_i64 buf (length vs) = Some vs"
proof (cases vs)
  case (Cons v0 ws)
  define m where "m = min_signed v0 ws"
  define offs where "offs = map (\<lambda>v. v - m) vs"
  define bits where "bits = bit_width_for_range (max_unsigned 0 offs)"
  obtain packed where p: "pack_bits_u64 offs (unat bits) = Some packed"
    "unpack_bits_u64 packed (length vs) (unat bits) = Some offs"
    using unpack_pack_bits_u64 [of offs "unat bits"] bit_width_le offset_fits [of _ offs]
    by (auto simp: bits_def offs_def)
  have "encode_for_i64 vs = Some (to_le 8 m @ [bits] @ packed)"
    using p(1) by (simp add: encode_for_i64_def Cons for_offset_i64 Let_def offs_def bits_def m_def)
  moreover have "slice_from (to_le 8 m @ [bits] @ packed) 9 = Some packed"
    using slice_from_suffix [of "to_le 8 m @ [bits]" 9 packed] by simp
  then have "decode_for_i64 (to_le 8 m @ [bits] @ packed) (length vs) = Some vs"
    using p(2) Cons read_le_front [of 8 m "[bits] @ packed"]
    by (simp add: decode_for_i64_def nth_append for_restore_i64 offs_def o_def)
  ultimately show ?thesis by blast
qed (simp add: encode_for_i64_def decode_for_i64_def)

section \<open>The integer codec as a whole\<close>

text \<open>The readers' dispatch on the tag (\<^verbatim>\<open>decompress_column_values\<close>, \<^verbatim>\<open>src/compress.rs\<close>).\<close>

definition decode_tagged_i32 :: "CompressionType \<Rightarrow> bytes \<Rightarrow> nat \<Rightarrow> i32 list option" where
  "decode_tagged_i32 tag payload n =
     (case tag of
        DeltaVarint \<Rightarrow> decode_i32 payload n
      | Constant \<Rightarrow> decode_constant_i32 payload n
      | ForBitpacked \<Rightarrow> decode_for_i32 payload n
      | _ \<Rightarrow> None)"

definition decode_tagged_i64 :: "CompressionType \<Rightarrow> bytes \<Rightarrow> nat \<Rightarrow> i64 list option" where
  "decode_tagged_i64 tag payload n =
     (case tag of
        DeltaVarint \<Rightarrow> decode_i64 payload n
      | Constant \<Rightarrow> decode_constant_i64 payload n
      | ForBitpacked \<Rightarrow> decode_for_i64 payload n
      | _ \<Rightarrow> None)"

lemma all_equal_replicate: "list_all (\<lambda>v. v = v0) vs \<Longrightarrow> replicate (length vs) v0 = vs"
  by (auto simp: list_all_iff intro!: replicate_length_same)

lemma best_encoding_i32_decodes:
  "\<exists>tag payload. best_encoding_i32 vs = Some (tag, payload)
     \<and> decode_tagged_i32 tag payload (length vs) = Some vs"
proof (cases vs)
  case Nil
  then show ?thesis by (simp add: best_encoding_i32_def decode_tagged_i32_def decode_for_i32_def)
next
  case (Cons v0 ws)
  obtain buf where "encode_for_i32 vs = Some buf" "decode_for_i32 buf (length vs) = Some vs"
    using decode_encode_for_i32 by blast
  with Cons show ?thesis
    using decode_encode_i32 [of vs] all_equal_replicate [of v0 vs]
    by (auto simp: best_encoding_i32_def decode_tagged_i32_def Let_def)
qed

lemma best_encoding_i64_decodes:
  "\<exists>tag payload. best_encoding_i64 vs = Some (tag, payload)
     \<and> decode_tagged_i64 tag payload (length vs) = Some vs"
proof (cases vs)
  case Nil
  then show ?thesis by (simp add: best_encoding_i64_def decode_tagged_i64_def decode_for_i64_def)
next
  case (Cons v0 ws)
  obtain buf where "encode_for_i64 vs = Some buf" "decode_for_i64 buf (length vs) = Some vs"
    using decode_encode_for_i64 by blast
  with Cons show ?thesis
    using decode_encode_i64 [of vs] all_equal_replicate [of v0 vs]
    by (auto simp: best_encoding_i64_def decode_tagged_i64_def Let_def)
qed

interpretation i32_codec: value_codec best_encoding_i32 decode_tagged_i32 "\<lambda>_. True"
  by unfold_locales (rule best_encoding_i32_decodes)

interpretation i64_codec: value_codec best_encoding_i64 decode_tagged_i64 "\<lambda>_. True"
  by unfold_locales (rule best_encoding_i64_decodes)

text \<open>The layout and the size of a frame-of-reference payload, and what its width is measured on.\<close>

lemma encode_for_i64_layout:
  assumes "vs = v0 # ws" and "m = min_signed v0 ws"
    and "bits = bit_width_for_range (max_unsigned 0 (map (\<lambda>v. v - m) vs))"
  shows "\<exists>packed. encode_for_i64 vs = Some (to_le 8 m @ [bits] @ packed)
     \<and> length packed = div_ceil (length vs * unat bits) 8"
  using pack_bits_spec [of "map (\<lambda>v. v - m) vs" "unat bits"] assms
  by (auto simp: encode_for_i64_def for_offset_i64 Let_def pack_bits_u64_def)

lemma for_range:
  assumes "v \<in> set (v0 # ws)"
  shows "int (unat (v - min_signed v0 ws)) = sint v - sint (min_signed v0 ws)"
  by (rule unat_diff_sint) (rule min_signed_least [OF assms])

lemma best_encoding_i64_length:
  assumes "encode_for_i64 vs = Some f" and "best_encoding_i64 vs = Some (tag, payload)"
  shows "length payload \<le> length f \<and> length payload \<le> length (encode_i64 vs)"
proof (cases vs)
  case Nil
  with assms show ?thesis by (simp add: best_encoding_i64_def)
next
  case (Cons v0 ws)
  from encode_for_i64_layout [OF Cons refl refl] assms(1) have "8 \<le> length f" by auto
  moreover have "8 \<le> length (encode_i64 vs)" using Cons by (simp add: encode_i64_def)
  ultimately show ?thesis using assms Cons
    by (auto simp: best_encoding_i64_def encode_constant_i64_def Let_def split: if_splits)
qed

end
