(* ===== verification/Cond_Payload.thy ===== *)
theory Cond_Payload
  imports Bitpacked
begin

text \<open>
  The payload codec of the condition cache (src/src/scan/exec/cond_cache.rs): a selection vector
  packed into 64-bit words behind an eight-byte header, with the two constant selections stored as
  the header alone.
\<close>

datatype CachedSelection = AllPass | NonePass | Bitmap "bool list"

definition PAYLOAD_MAGIC :: u8 where "PAYLOAD_MAGIC = 0xC1"
definition PAYLOAD_BITMAP :: u8 where "PAYLOAD_BITMAP = 0"
definition PAYLOAD_ALL_PASS :: u8 where "PAYLOAD_ALL_PASS = 1"
definition PAYLOAD_NONE_PASS :: u8 where "PAYLOAD_NONE_PASS = 2"
definition PAYLOAD_HEADER_LEN :: nat where "PAYLOAD_HEADER_LEN = 8"

lemmas payload_constants =
  PAYLOAD_MAGIC_def PAYLOAD_BITMAP_def PAYLOAD_ALL_PASS_def PAYLOAD_NONE_PASS_def PAYLOAD_HEADER_LEN_def

text \<open>The loop over the selection: one bit per row, a word is written when it is full.\<close>

fun pack_words :: "nat \<Rightarrow> nat \<Rightarrow> u64 \<Rightarrow> bool list \<Rightarrow> bytes" where
  "pack_words row_count i word [] = (if row_count mod 64 \<noteq> 0 then to_le 8 word else [])"
| "pack_words row_count i word (b # bs) =
    (let word = (if b then word OR push_bit (i mod 64) 1 else word) in
     if i mod 64 = 63 then to_le 8 word @ pack_words row_count (i + 1) 0 bs
     else pack_words row_count (i + 1) word bs)"

definition encode_payload :: "bool list \<Rightarrow> nat \<Rightarrow> bytes option" where
  "encode_payload selection row_count =
    (if row_count = 0 \<or> row_count > 4294967295 then None
     else if selection \<noteq> [] \<and> length selection \<noteq> row_count then None
     else
       let kind = (if selection = [] \<or> (\<forall>b \<in> set selection. b) then PAYLOAD_ALL_PASS
                   else if \<not> (\<exists>b \<in> set selection. b) then PAYLOAD_NONE_PASS
                   else PAYLOAD_BITMAP)
       in Some ([PAYLOAD_MAGIC, kind, 0, 0] @ to_le 4 (word_of_nat row_count :: u32)
            @ (if kind = PAYLOAD_BITMAP then pack_words row_count 0 0 selection else [])))"

definition store_word :: "bool list \<Rightarrow> nat \<Rightarrow> u64 \<Rightarrow> bool list" where
  "store_word sel base word =
    map (\<lambda>j. if base \<le> j \<and> j < base + 64 then bit word (j - base) else sel ! j) [0..<length sel]"

fun unpack_words :: "nat \<Rightarrow> bytes list \<Rightarrow> bool list \<Rightarrow> bool list" where
  "unpack_words w [] sel = sel"
| "unpack_words w (chunk # chunks) sel =
    (let word = from_le chunk :: u64 in
     unpack_words (w + 1) chunks (if word = 0 then sel else store_word sel (w * 64) word))"

definition decode_payload :: "bytes \<Rightarrow> nat \<Rightarrow> CachedSelection option" where
  "decode_payload data expected_row_count =
    (if length data < PAYLOAD_HEADER_LEN \<or> data ! 0 \<noteq> PAYLOAD_MAGIC then None
     else
       let kind = data ! 1; row_count = unat (from_le (take 4 (drop 4 data)) :: u32) in
       if row_count \<noteq> expected_row_count then None
       else if kind = PAYLOAD_ALL_PASS then Some AllPass
       else if kind = PAYLOAD_NONE_PASS then Some NonePass
       else if kind = PAYLOAD_BITMAP then
         (let n_words = div_ceil row_count 64; body = drop PAYLOAD_HEADER_LEN data in
          if length body \<noteq> 8 * n_words then None
          else Some (Bitmap (unpack_words 0 (chunks_exact 8 n_words body) (replicate row_count False))))
       else None)"

section \<open>The words of a selection\<close>

primrec row_group :: "bool list \<Rightarrow> nat \<Rightarrow> nat \<Rightarrow> u64" where
  "row_group sel b 0 = 0"
| "row_group sel b (Suc m) = (if sel ! (b + m) then row_group sel b m OR push_bit m 1 else row_group sel b m)"

lemma bit_row_group: "m \<le> 64 \<Longrightarrow> bit (row_group sel b m) j \<longleftrightarrow> j < m \<and> sel ! (b + j)"
proof (induction m)
  case (Suc m)
  then show ?case by (auto simp: bit_or_iff bit_exp_iff less_Suc_eq)
qed simp

definition selection_words :: "bool list \<Rightarrow> u64 list" where
  "selection_words sel =
    map (\<lambda>w. row_group sel (64 * w) (min 64 (length sel - 64 * w))) [0..<div_ceil (length sel) 64]"

lemma pack_words_from:
  assumes "i \<le> length sel"
  shows "pack_words (length sel) i (row_group sel (64 * (i div 64)) (i mod 64)) (drop i sel)
    = concat (map (\<lambda>w. to_le 8 (row_group sel (64 * w) (min 64 (length sel - 64 * w)))) [i div 64..<div_ceil (length sel) 64])"
  using assms
proof (induction "length sel - i" arbitrary: i)
  case 0
  then have i: "i = length sel" by simp
  show ?case
  proof (cases "i mod 64 = 0")
    case True
    then show ?thesis using i by (simp add: div_ceil_def)
  next
    case False
    have "min 64 (i - 64 * (i div 64)) = i mod 64" by (simp add: minus_mult_div_eq_mod)
    then show ?thesis using False i by (simp add: div_ceil_def)
  qed
next
  case (Suc k)
  then have i: "i < length sel" by simp
  then have rest: "drop i sel = sel ! i # drop (Suc i) sel" by (simp add: Cons_nth_drop_Suc)
  have pos: "64 * (i div 64) + i mod 64 = i" by simp
  let ?word = "row_group sel (64 * (i div 64)) (Suc (i mod 64))"
  have word: "(if sel ! i then row_group sel (64 * (i div 64)) (i mod 64) OR push_bit (i mod 64) 1
      else row_group sel (64 * (i div 64)) (i mod 64)) = ?word" using pos by simp
  have IH: "pack_words (length sel) (Suc i) (row_group sel (64 * (Suc i div 64)) (Suc i mod 64)) (drop (Suc i) sel)
    = concat (map (\<lambda>w. to_le 8 (row_group sel (64 * w) (min 64 (length sel - 64 * w)))) [Suc i div 64..<div_ceil (length sel) 64])"
    using Suc by (intro Suc.hyps(1)) auto
  show ?case
  proof (cases "i mod 64 = 63")
    case True
    then have s: "Suc i div 64 = Suc (i div 64)" "Suc i mod 64 = 0" by (simp_all add: div_Suc mod_Suc)
    have "i div 64 < div_ceil (length sel) 64" using i by (rule less_div_ceil [rotated]) simp
    moreover have "min 64 (length sel - 64 * (i div 64)) = 64" using pos True i by simp
    moreover have "pack_words (length sel) i (row_group sel (64 * (i div 64)) (i mod 64)) (drop i sel)
      = to_le 8 ?word @ pack_words (length sel) (Suc i) 0 (drop (Suc i) sel)"
      unfolding rest pack_words.simps Let_def word using True by simp
    moreover have "?word = row_group sel (64 * (i div 64)) 64" unfolding True by simp
    ultimately show ?thesis using IH unfolding s by (simp only: upt_conv_Cons list.map concat.simps row_group.simps(1))
  next
    case False
    then have s: "Suc i div 64 = i div 64" "Suc i mod 64 = Suc (i mod 64)" by (simp_all add: div_Suc mod_Suc)
    have "pack_words (length sel) i (row_group sel (64 * (i div 64)) (i mod 64)) (drop i sel)
      = pack_words (length sel) (Suc i) ?word (drop (Suc i) sel)"
      unfolding rest pack_words.simps Let_def word using False by simp
    then show ?thesis using IH unfolding s by metis
  qed
qed

lemma pack_words_all: "pack_words (length sel) 0 0 sel = concat (map (to_le 8) (selection_words sel))"
  using pack_words_from [of 0 sel] by (simp add: selection_words_def comp_def)

lemma chunks_exact_table:
  fixes ws :: "u64 list"
  shows "chunks_exact 8 (length ws) (concat (map (to_le 8) ws)) = map (to_le 8) ws"
  by (induction ws) simp_all

lemma length_concat_words: "length (concat (map (to_le 8) (ws :: u64 list))) = 8 * length ws"
  by (induction ws) simp_all

lemma unpack_words_nth:
  assumes "j < length sel"
  shows "unpack_words w (map (to_le 8) (ws :: u64 list)) sel ! j =
    (if w \<le> j div 64 \<and> j div 64 < w + length ws \<and> ws ! (j div 64 - w) \<noteq> 0
     then bit (ws ! (j div 64 - w)) (j mod 64) else sel ! j)
   \<and> length (unpack_words w (map (to_le 8) ws) sel) = length sel"
  using assms
proof (induction ws arbitrary: w sel)
  case (Cons v ws)
  let ?sel = "if v = 0 then sel else store_word sel (w * 64) v"
  have len: "length ?sel = length sel" by (simp add: store_word_def)
  have in_word: "w * 64 \<le> j \<and> j < w * 64 + 64 \<longleftrightarrow> j div 64 = w" by (auto simp: div_nat_eqI) 
  have nth: "?sel ! j = (if j div 64 = w \<and> v \<noteq> 0 then bit v (j mod 64) else sel ! j)"
    using Cons.prems in_word by (auto simp: store_word_def minus_mult_div_eq_mod mult.commute)
  show ?case using Cons.IH [of ?sel "w + 1"] Cons.prems len nth
    by (auto simp: nth_Cons' Let_def split: if_splits)
qed auto

lemma nth_selection_words:
  assumes "j < length sel"
  shows "j div 64 < length (selection_words sel)" and "bit (selection_words sel ! (j div 64)) (j mod 64) = sel ! j"
proof -
  show w: "j div 64 < length (selection_words sel)" using assms less_div_ceil [of 64 j] by (simp add: selection_words_def)
  have "j mod 64 < min 64 (length sel - 64 * (j div 64))"
    using assms minus_mult_div_eq_mod [of j 64] by linarith
  then show "bit (selection_words sel ! (j div 64)) (j mod 64) = sel ! j"
    using w by (simp add: selection_words_def bit_row_group)
qed

lemma unpack_selection_words:
  "unpack_words 0 (map (to_le 8) (selection_words sel)) (replicate (length sel) False) = sel"
proof (rule nth_equalityI)
  show len: "length (unpack_words 0 (map (to_le 8) (selection_words sel)) (replicate (length sel) False)) = length sel"
    using unpack_words_nth [of 0 "replicate (length sel) False" 0 "selection_words sel"]
    by (cases sel) (simp_all add: selection_words_def div_ceil_def)
  fix j
  assume "j < length (unpack_words 0 (map (to_le 8) (selection_words sel)) (replicate (length sel) False))"
  then have j: "j < length sel" using len by simp
  then show "unpack_words 0 (map (to_le 8) (selection_words sel)) (replicate (length sel) False) ! j = sel ! j"
    using unpack_words_nth [of j "replicate (length sel) False" 0 "selection_words sel"] nth_selection_words [OF j]
    by (auto split: if_splits)
qed

lemma encode_payload_length:
  assumes "encode_payload sel n = Some data"
  shows "length data < 2 ^ 32"
proof -
  have n: "n < 2 ^ 32" and sel: "sel = [] \<or> length sel = n"
    using assms by (auto simp: encode_payload_def split: if_splits)
  have "length (pack_words n 0 0 sel) \<le> 8 * div_ceil n 64"
  proof (cases "sel = []")
    case False
    then show ?thesis using sel pack_words_all [of sel] length_concat_words [of "selection_words sel"]
      by (simp add: selection_words_def)
  next
    case True
    show ?thesis by (simp add: True div_ceil_def)
  qed
  moreover have "8 * div_ceil n 64 + 8 < 2 ^ 32"
  proof -
    have "div_ceil n 64 \<le> n div 64 + 1" by (simp add: div_ceil_def)
    moreover have "64 * (n div 64) \<le> n" by simp
    ultimately show ?thesis using n by simp
  qed
  moreover have "length data \<le> 8 + length (pack_words n 0 0 sel)"
  proof -
    define kind where "kind = (if sel = [] \<or> (\<forall>b \<in> set sel. b) then PAYLOAD_ALL_PASS
      else if \<not> (\<exists>b \<in> set sel. b) then PAYLOAD_NONE_PASS else PAYLOAD_BITMAP)"
    have "data = [PAYLOAD_MAGIC, kind, 0, 0] @ to_le 4 (word_of_nat n :: u32)
        @ (if kind = PAYLOAD_BITMAP then pack_words n 0 0 sel else [])"
      using assms unfolding encode_payload_def Let_def kind_def [symmetric] by (simp split: if_splits)
    then show ?thesis by simp
  qed
  ultimately show ?thesis by linarith
qed

section \<open>The round trip\<close>

text \<open>What a scan reads off a cached selection: the rows of the segment that pass.\<close>

fun selection_of :: "CachedSelection \<Rightarrow> nat \<Rightarrow> bool list" where
  "selection_of AllPass n = replicate n True"
| "selection_of NonePass n = replicate n False"
| "selection_of (Bitmap sel) n = sel"

lemma decode_encode_payload:
  assumes enc: "encode_payload sel n = Some data"
  shows "\<exists>s. decode_payload data n = Some s \<and> selection_of s n = (if sel = [] then replicate n True else sel)
    \<and> (\<forall>m. m \<noteq> n \<longrightarrow> decode_payload data m = None)"
proof -
  have n: "0 < n" "n < 2 ^ 32" and len: "sel \<noteq> [] \<Longrightarrow> length sel = n"
    using enc by (auto simp: encode_payload_def split: if_splits)
  define kind where "kind = (if sel = [] \<or> (\<forall>b \<in> set sel. b) then PAYLOAD_ALL_PASS
    else if \<not> (\<exists>b \<in> set sel. b) then PAYLOAD_NONE_PASS else PAYLOAD_BITMAP)"
  define body where "body = (if kind = PAYLOAD_BITMAP then pack_words n 0 0 sel else [])"
  have data: "data = [PAYLOAD_MAGIC, kind, 0, 0] @ to_le 4 (word_of_nat n :: u32) @ body"
    using enc unfolding encode_payload_def Let_def kind_def [symmetric] body_def [symmetric]
    by (simp split: if_splits)
  have rows: "unat (from_le (take 4 (drop 4 data)) :: u32) = n"
    using n by (simp add: data unat_of_nat take_bit_nat_eq_self)
  have head: "\<not> length data < PAYLOAD_HEADER_LEN" "data ! 0 = PAYLOAD_MAGIC" "data ! 1 = kind"
    "drop PAYLOAD_HEADER_LEN data = body"
    by (simp_all add: data payload_constants)
  have miss: "\<forall>m. m \<noteq> n \<longrightarrow> decode_payload data m = None"
    using head rows by (simp add: decode_payload_def Let_def)
  consider (all) "kind = PAYLOAD_ALL_PASS" "sel = [] \<or> (\<forall>b \<in> set sel. b)"
    | (none) "kind = PAYLOAD_NONE_PASS" "sel \<noteq> []" "\<forall>b \<in> set sel. \<not> b"
    | (bitmap) "kind = PAYLOAD_BITMAP" "sel \<noteq> []"
    by (metis (full_types) kind_def)
  then show ?thesis
  proof cases
    case all
    then have "decode_payload data n = Some AllPass" using head rows by (simp add: decode_payload_def Let_def)
    moreover have "sel \<noteq> [] \<Longrightarrow> sel = replicate n True" using all(2) len by (metis replicate_eqI)
    ultimately show ?thesis using miss by (intro exI [of _ AllPass]) auto
  next
    case none
    then have "decode_payload data n = Some NonePass"
      using head rows by (simp add: decode_payload_def Let_def payload_constants)
    moreover have "sel = replicate n False" using none(2,3) len by (metis replicate_eqI)
    ultimately show ?thesis using miss none(2) by (intro exI [of _ NonePass]) auto
  next
    case bitmap
    then have n: "length sel = n" using len by simp
    have body: "body = concat (map (to_le 8) (selection_words sel))"
      using bitmap(1) pack_words_all [of sel] n by (simp add: body_def)
    have words: "length (selection_words sel) = div_ceil n 64" using n by (simp add: selection_words_def)
    have "decode_payload data n = Some (Bitmap (unpack_words 0 (chunks_exact 8 (div_ceil n 64) body) (replicate n False)))"
      using head rows bitmap(1) words length_concat_words [of "selection_words sel"] body
      by (simp add: decode_payload_def Let_def payload_constants)
    then have "decode_payload data n = Some (Bitmap sel)"
      using chunks_exact_table [of "selection_words sel"] unpack_selection_words [of sel] n words body by simp
    then show ?thesis using miss bitmap(2) by (intro exI [of _ "Bitmap sel"]) auto
  qed
qed

end
