(* ===== verification/Like_Match.thy ===== *)
theory Like_Match
  imports Prelude
begin

text \<open>
  SQL \<^verbatim>\<open>LIKE\<close> on bytes (\<^verbatim>\<open>src/scan/exec/batch_qual.rs\<close>): the compiled strategies and the greedy
  matcher with one backtracking point, shown equal to the declarative meaning of a pattern.
\<close>

section \<open>Strategies and the matcher\<close>

datatype LikeStrategy = Contains bytes | StartsWith bytes | EndsWith bytes | Exact bytes | General bytes

abbreviation PERCENT :: u8 where "PERCENT \<equiv> 0x25"
abbreviation UNDERSCORE :: u8 where "UNDERSCORE \<equiv> 0x5F"
abbreviation BACKSLASH :: u8 where "BACKSLASH \<equiv> 0x5C"

text \<open>\<^verbatim>\<open>str::contains\<close>, \<^verbatim>\<open>starts_with\<close> and \<^verbatim>\<open>ends_with\<close> on the bytes of a string.\<close>

fun str_contains :: "bytes \<Rightarrow> bytes \<Rightarrow> bool" where
  "str_contains [] c = (c = [])"
| "str_contains (x # xs) c = (take (length c) (x # xs) = c \<or> str_contains xs c)"

definition str_starts_with :: "bytes \<Rightarrow> bytes \<Rightarrow> bool" where
  "str_starts_with s c \<longleftrightarrow> take (length c) s = c"

definition str_ends_with :: "bytes \<Rightarrow> bytes \<Rightarrow> bool" where
  "str_ends_with s c \<longleftrightarrow> length c \<le> length s \<and> drop (length s - length c) s = c"

definition percent_positions :: "bytes \<Rightarrow> nat list" where
  "percent_positions pattern = filter (\<lambda>i. pattern ! i = PERCENT) [0..<length pattern]"

definition compile_like_pattern :: "bytes \<Rightarrow> LikeStrategy" where
  "compile_like_pattern pattern =
     (if UNDERSCORE \<in> set pattern \<or> BACKSLASH \<in> set pattern then General pattern
      else case percent_positions pattern of
        [] \<Rightarrow> Exact pattern
      | [pos] \<Rightarrow>
          if pos = 0 \<and> length pattern = 1 then Contains []
          else if pos = 0 then EndsWith (drop 1 pattern)
          else if pos = length pattern - 1 then StartsWith (take pos pattern)
          else General pattern
      | [fst_pos, snd_pos] \<Rightarrow>
          if fst_pos = 0 \<and> snd_pos = length pattern - 1 then Contains (take (snd_pos - 1) (drop 1 pattern))
          else General pattern
      | _ \<Rightarrow> General pattern)"

text \<open>
  The loop of \<^verbatim>\<open>sql_like_match_inner\<close>. \<open>star\<close> is \<^verbatim>\<open>star_pi\<close>, with \<^const>\<open>None\<close> for \<^verbatim>\<open>usize::MAX\<close>. The
  measure: a restart moves \<open>star_ti\<close> forward, every other step consumes pattern.
\<close>

function (sequential) like_loop :: "bytes \<Rightarrow> bytes \<Rightarrow> nat \<Rightarrow> nat \<Rightarrow> nat option \<Rightarrow> nat \<Rightarrow> bool" where
  "like_loop text pat ti pi star star_ti =
     (if ti < length text then
        if pi < length pat \<and> pat ! pi = BACKSLASH then
          if pi + 1 < length pat \<and> text ! ti = pat ! (pi + 1)
          then like_loop text pat (ti + 1) (pi + 2) star star_ti
          else (case star of
                  Some star_pi \<Rightarrow> like_loop text pat (star_ti + 1) (star_pi + 1) star (star_ti + 1)
                | None \<Rightarrow> False)
        else if pi < length pat \<and> pat ! pi = UNDERSCORE
        then like_loop text pat (ti + 1) (pi + 1) star star_ti
        else if pi < length pat \<and> pat ! pi = PERCENT
        then like_loop text pat ti (pi + 1) (Some pi) ti
        else if pi < length pat \<and> text ! ti = pat ! pi
        then like_loop text pat (ti + 1) (pi + 1) star star_ti
        else (case star of
                Some star_pi \<Rightarrow> like_loop text pat (star_ti + 1) (star_pi + 1) star (star_ti + 1)
              | None \<Rightarrow> False)
      else list_all (\<lambda>c. c = PERCENT) (drop pi pat))"
  by pat_completeness auto
termination
  by (relation "measures [\<lambda>(text, pat, ti, pi, star, star_ti). if ti < star_ti then 1 else 0,
        \<lambda>(text, pat, ti, pi, star, star_ti). length text + 1 - star_ti,
        \<lambda>(text, pat, ti, pi, star, star_ti). length pat - pi]") auto

declare like_loop.simps [simp del]

definition sql_like_match_inner :: "bytes \<Rightarrow> bytes \<Rightarrow> bool" where
  "sql_like_match_inner text pat = like_loop text pat 0 0 None 0"

definition sql_like_match :: "bytes \<Rightarrow> bytes \<Rightarrow> bool" where
  "sql_like_match text pat = sql_like_match_inner text pat"

definition like_strategy_matches :: "LikeStrategy \<Rightarrow> bytes \<Rightarrow> bool" where
  "like_strategy_matches strategy s =
     (case strategy of
        Contains c \<Rightarrow> str_contains s c
      | StartsWith c \<Rightarrow> str_starts_with s c
      | EndsWith c \<Rightarrow> str_ends_with s c
      | Exact c \<Rightarrow> s = c
      | General p \<Rightarrow> sql_like_match s p)"

section \<open>The meaning of a pattern\<close>

text \<open>
  \<^verbatim>\<open>%\<close> matches any bytes, \<^verbatim>\<open>_\<close> any one byte, a backslash makes the next byte literal; a pattern that
  ends in a backslash matches nothing.
\<close>

fun like :: "bytes \<Rightarrow> bytes \<Rightarrow> bool" where
  "like [] t = (t = [])"
| "like (c # p) t =
     (if c = PERCENT then (\<exists>k \<in> {0..length t}. like p (drop k t))
      else if c = BACKSLASH then (case p of [] \<Rightarrow> False | d # p' \<Rightarrow> (case t of [] \<Rightarrow> False | x # t' \<Rightarrow> x = d \<and> like p' t'))
      else (case t of [] \<Rightarrow> False | x # t' \<Rightarrow> (c = UNDERSCORE \<or> x = c) \<and> like p t'))"

lemma like_Nil_right: "like p [] \<longleftrightarrow> list_all (\<lambda>c. c = PERCENT) p"
  by (induction p) (auto split: list.splits)

lemma like_percent: "like (PERCENT # p) t \<longleftrightarrow> (\<exists>k \<le> length t. like p (drop k t))"
  by auto

text \<open>One step of the pattern on the first byte of the text: the width in the pattern, and whether it takes the byte.\<close>

lemma like_step:
  assumes "pi < length pat" and "pat ! pi \<noteq> PERCENT"
  shows "like (drop pi pat) t \<longleftrightarrow>
    (if pat ! pi = BACKSLASH then pi + 1 < length pat \<and> t \<noteq> [] \<and> hd t = pat ! (pi + 1) \<and> like (drop (pi + 2) pat) (tl t)
     else t \<noteq> [] \<and> (pat ! pi = UNDERSCORE \<or> hd t = pat ! pi) \<and> like (drop (pi + 1) pat) (tl t))"
proof -
  have "drop pi pat = pat ! pi # drop (pi + 1) pat" using assms(1) by (simp add: Cons_nth_drop_Suc)
  moreover have "drop (pi + 1) pat = (if pi + 1 < length pat then pat ! (pi + 1) # drop (pi + 2) pat else [])"
    by (simp add: Cons_nth_drop_Suc)
  ultimately show ?thesis using assms(2) by (auto split: list.splits)
qed

section \<open>The greedy matcher is right\<close>

text \<open>
  What is known at a backtracking point \<open>(sp, st)\<close>: a match of the pattern after the star at any \<open>k\<close> gives
  a match of the rest of the pattern as many bytes after \<open>k\<close> as \<open>ti\<close> is after \<open>st\<close>.
\<close>

definition shifts :: "bytes \<Rightarrow> bytes \<Rightarrow> nat \<Rightarrow> nat \<Rightarrow> nat \<Rightarrow> nat \<Rightarrow> bool" where
  "shifts text pat ti pi sp st \<longleftrightarrow> st \<le> ti
     \<and> (\<forall>k \<le> length text. like (drop (sp + 1) pat) (drop k text) \<longrightarrow>
          k + (ti - st) \<le> length text \<and> like (drop pi pat) (drop (k + (ti - st)) text))"

definition star_ok :: "bytes \<Rightarrow> bytes \<Rightarrow> nat \<Rightarrow> nat \<Rightarrow> nat option \<Rightarrow> nat \<Rightarrow> bool" where
  "star_ok text pat ti pi star st \<longleftrightarrow> (\<forall>sp. star = Some sp \<longrightarrow> shifts text pat ti pi sp st)"

definition later_match :: "bytes \<Rightarrow> bytes \<Rightarrow> nat option \<Rightarrow> nat \<Rightarrow> bool" where
  "later_match text pat star st \<longleftrightarrow>
     (\<exists>sp k. star = Some sp \<and> st < k \<and> k \<le> length text \<and> like (drop (sp + 1) pat) (drop k text))"

lemma shifts_start: "shifts text pat st (sp + 1) sp st"
  by (simp add: shifts_def)

lemma star_ok_step:
  assumes "star_ok text pat ti pi star st" and "pi < length pat" and "pat ! pi \<noteq> PERCENT"
  shows "star_ok text pat (ti + 1) (pi + (if pat ! pi = BACKSLASH then 2 else 1)) star st"
  unfolding star_ok_def
proof (intro allI impI)
  fix sp
  assume "star = Some sp"
  with assms(1) have sh: "shifts text pat ti pi sp st" by (simp add: star_ok_def)
  have "k + (ti + 1 - st) \<le> length text \<and> like (drop (pi + (if pat ! pi = BACKSLASH then 2 else 1)) pat) (drop (k + (ti + 1 - st)) text)"
    if k: "k \<le> length text" "like (drop (sp + 1) pat) (drop k text)" for k
  proof -
    have st: "st \<le> ti" and n: "k + (ti - st) \<le> length text"
      and m: "like (drop pi pat) (drop (k + (ti - st)) text)" using sh k by (auto simp: shifts_def)
    have "drop (k + (ti - st)) text \<noteq> []"
      and m': "like (drop (pi + (if pat ! pi = BACKSLASH then 2 else 1)) pat) (tl (drop (k + (ti - st)) text))"
      using m like_step [OF assms(2,3)] by (auto split: if_splits)
    moreover have "tl (drop (k + (ti - st)) text) = drop (k + (ti + 1 - st)) text"
      using st by (simp add: tl_drop drop_Suc Suc_diff_le)
    ultimately show ?thesis using st n by (cases "k + (ti - st) = length text") auto
  qed
  with sh show "shifts text pat (ti + 1) (pi + (if pat ! pi = BACKSLASH then 2 else 1)) sp st"
    by (auto simp: shifts_def)
qed

lemma later_match_restart:
  assumes "star = Some sp" and "st + 1 \<le> length text"
  shows "later_match text pat star st \<longleftrightarrow>
    like (drop (sp + 1) pat) (drop (st + 1) text) \<or> later_match text pat star (st + 1)"
proof -
  have "(\<exists>k. st < k \<and> k \<le> length text \<and> P k) \<longleftrightarrow> P (st + 1) \<or> (\<exists>k. st + 1 < k \<and> k \<le> length text \<and> P k)" for P
    using assms(2) by (metis Suc_eq_plus1 Suc_lessI less_add_one less_trans)
  from this [of "\<lambda>k. like (drop (sp + 1) pat) (drop k text)"] show ?thesis
    using assms(1) by (simp add: later_match_def)
qed

lemma later_match_covered:
  assumes "star_ok text pat ti pi star st" and "later_match text pat star st"
  shows "\<exists>j. ti < j \<and> j \<le> length text \<and> like (drop pi pat) (drop j text)"
proof -
  obtain sp k where k: "star = Some sp" "st < k" "k \<le> length text" "like (drop (sp + 1) pat) (drop k text)"
    using assms(2) by (auto simp: later_match_def)
  with assms(1) have "st \<le> ti" "k + (ti - st) \<le> length text" "like (drop pi pat) (drop (k + (ti - st)) text)"
    by (auto simp: star_ok_def shifts_def)
  with k show ?thesis by (intro exI [of _ "k + (ti - st)"]) auto
qed

lemma percent_absorbs:
  assumes "star_ok text pat ti pi star st" and "ti \<le> length text" and "pi < length pat" and "pat ! pi = PERCENT"
  shows "like (drop pi pat) (drop ti text) \<or> later_match text pat star st \<longleftrightarrow>
    like (drop (pi + 1) pat) (drop ti text) \<or> later_match text pat (Some pi) ti"
proof -
  have d: "drop pi pat = PERCENT # drop (pi + 1) pat" using assms(3,4) by (metis Cons_nth_drop_Suc Suc_eq_plus1)
  have at: "like (drop pi pat) (drop j text) \<longleftrightarrow> (\<exists>k. j \<le> k \<and> k \<le> length text \<and> like (drop (pi + 1) pat) (drop k text))"
    if "j \<le> length text" for j
  proof -
    have "like (drop pi pat) (drop j text) \<longleftrightarrow> (\<exists>i \<le> length text - j. like (drop (pi + 1) pat) (drop (i + j) text))"
      unfolding d like_percent by simp
    also have "\<dots> \<longleftrightarrow> (\<exists>k. j \<le> k \<and> k \<le> length text \<and> like (drop (pi + 1) pat) (drop k text))"
    proof
      assume "\<exists>i \<le> length text - j. like (drop (pi + 1) pat) (drop (i + j) text)"
      then obtain i where "i \<le> length text - j" "like (drop (pi + 1) pat) (drop (i + j) text)" by blast
      with that show "\<exists>k. j \<le> k \<and> k \<le> length text \<and> like (drop (pi + 1) pat) (drop k text)"
        by (intro exI [of _ "i + j"]) auto
    next
      assume "\<exists>k. j \<le> k \<and> k \<le> length text \<and> like (drop (pi + 1) pat) (drop k text)"
      then obtain k where "j \<le> k" "k \<le> length text" "like (drop (pi + 1) pat) (drop k text)" by blast
      then show "\<exists>i \<le> length text - j. like (drop (pi + 1) pat) (drop (i + j) text)"
        by (intro exI [of _ "k - j"]) auto
    qed
    finally show ?thesis .
  qed
  have "like (drop pi pat) (drop ti text)" if later: "later_match text pat star st"
  proof -
    obtain j where j: "ti < j" "j \<le> length text" "like (drop pi pat) (drop j text)"
      using later_match_covered [OF assms(1) later] by blast
    then obtain k where "j \<le> k" "k \<le> length text" "like (drop (pi + 1) pat) (drop k text)" using at [OF j(2)] by blast
    with j(1) show ?thesis using at [OF assms(2)] by (intro iffD2 [OF at] exI [of _ k]) auto
  qed
  moreover have "like (drop pi pat) (drop ti text) \<longleftrightarrow>
      like (drop (pi + 1) pat) (drop ti text) \<or> later_match text pat (Some pi) ti"
    using at [OF assms(2)] assms(2) by (auto simp: later_match_def le_less)
  ultimately show ?thesis by blast
qed

lemma like_loop_correct:
  assumes "ti \<le> length t" and "star_ok t pat ti pi star st"
  shows "like_loop t pat ti pi star st \<longleftrightarrow> like (drop pi pat) (drop ti t) \<or> later_match t pat star st"
  using assms
proof (induction t pat ti pi star st rule: like_loop.induct)
  case (1 t pat ti pi star st)
  note ok = \<open>star_ok t pat ti pi star st\<close>
  let ?restart = "case star of Some sp \<Rightarrow> like_loop t pat (st + 1) (sp + 1) star (st + 1) | None \<Rightarrow> False"
  show ?case
  proof (cases "ti < length t")
    case False
    then have "ti = length t" using "1.prems"(1) by simp
    then have "\<not> later_match t pat star st" using later_match_covered [OF ok] by auto
    with \<open>ti = length t\<close> show ?thesis by (simp add: like_loop.simps like_Nil_right)
  next
    case True
    then have hd_t: "drop ti t \<noteq> []" "hd (drop ti t) = t ! ti" "tl (drop ti t) = drop (ti + 1) t"
      by (simp_all add: hd_drop_conv_nth tl_drop drop_Suc)
    have restart: "?restart \<longleftrightarrow> later_match t pat star st"
      if ih: "\<And>sp. star = Some sp \<Longrightarrow> st + 1 \<le> length t \<Longrightarrow> star_ok t pat (st + 1) (sp + 1) star (st + 1) \<Longrightarrow>
          like_loop t pat (st + 1) (sp + 1) star (st + 1)
          \<longleftrightarrow> like (drop (sp + 1) pat) (drop (st + 1) t) \<or> later_match t pat star (st + 1)"
    proof (cases star)
      case (Some sp)
      have "st + 1 \<le> length t" using ok Some True by (auto simp: star_ok_def shifts_def)
      moreover have "star_ok t pat (st + 1) (sp + 1) star (st + 1)" using Some shifts_start by (simp add: star_ok_def)
      ultimately show ?thesis using ih [OF Some] later_match_restart [OF Some] Some by simp
    qed (simp add: later_match_def)
    consider (esc) "pi < length pat" "pat ! pi = BACKSLASH"
      | (und) "pi < length pat" "pat ! pi = UNDERSCORE"
      | (per) "pi < length pat" "pat ! pi = PERCENT"
      | (lit) "pi < length pat" "pat ! pi \<noteq> BACKSLASH" "pat ! pi \<noteq> UNDERSCORE" "pat ! pi \<noteq> PERCENT" "t ! ti = pat ! pi"
      | (miss) "pi < length pat \<longrightarrow> pat ! pi \<noteq> BACKSLASH \<and> pat ! pi \<noteq> UNDERSCORE \<and> pat ! pi \<noteq> PERCENT \<and> t ! ti \<noteq> pat ! pi"
      by blast
    then show ?thesis
    proof cases
      case esc
      then have step: "like (drop pi pat) (drop ti t) \<longleftrightarrow>
          pi + 1 < length pat \<and> t ! ti = pat ! (pi + 1) \<and> like (drop (pi + 2) pat) (drop (ti + 1) t)"
        using like_step [OF esc(1), of "drop ti t"] hd_t by simp
      have ok': "star_ok t pat (ti + 1) (pi + 2) star st" using star_ok_step [OF ok esc(1)] esc(2) by simp
      show ?thesis
      proof (cases "pi + 1 < length pat \<and> t ! ti = pat ! (pi + 1)")
        case hit: True
        have "like_loop t pat ti pi star st = like_loop t pat (ti + 1) (pi + 2) star st"
          using True esc hit by (subst like_loop.simps) simp
        then show ?thesis using "1.IH"(1) [OF True _ hit _ ok'] esc True hit step by simp
      next
        case miss: False
        have "like_loop t pat ti pi star st = ?restart"
          using True esc miss by (subst like_loop.simps) auto
        moreover have "?restart \<longleftrightarrow> later_match t pat star st"
          by (rule restart) (use "1.IH"(2) [OF True _ miss] esc in blast)
        ultimately show ?thesis using miss step by auto
      qed
    next
      case und
      have "like_loop t pat ti pi star st = like_loop t pat (ti + 1) (pi + 1) star st"
        using True und by (subst like_loop.simps) simp
      moreover have "star_ok t pat (ti + 1) (pi + 1) star st" using star_ok_step [OF ok und(1)] und(2) by simp
      moreover have "like (drop pi pat) (drop ti t) \<longleftrightarrow> like (drop (pi + 1) pat) (drop (ti + 1) t)"
        using like_step [OF und(1), of "drop ti t"] hd_t und by simp
      ultimately show ?thesis using "1.IH"(3) [OF True] und True by simp
    next
      case per
      have "like_loop t pat ti pi star st = like_loop t pat ti (pi + 1) (Some pi) ti"
        using True per by (subst like_loop.simps) simp
      moreover have "star_ok t pat ti (pi + 1) (Some pi) ti" using shifts_start by (simp add: star_ok_def)
      ultimately show ?thesis using "1.IH"(4) [OF True] per True percent_absorbs [OF ok _ per] by simp
    next
      case lit
      have "like_loop t pat ti pi star st = like_loop t pat (ti + 1) (pi + 1) star st"
        using True lit by (subst like_loop.simps) simp
      moreover have "star_ok t pat (ti + 1) (pi + 1) star st" using star_ok_step [OF ok lit(1)] lit by simp
      moreover have "like (drop pi pat) (drop ti t) \<longleftrightarrow> like (drop (pi + 1) pat) (drop (ti + 1) t)"
        using like_step [OF lit(1), of "drop ti t"] hd_t lit by simp
      ultimately show ?thesis using "1.IH"(5) [OF True] lit True by simp
    next
      case miss
      have "like_loop t pat ti pi star st = ?restart"
        using True miss by (subst like_loop.simps) auto
      moreover have "?restart \<longleftrightarrow> later_match t pat star st"
        by (rule restart) (use "1.IH"(6) [OF True] miss in blast)
      moreover have "\<not> like (drop pi pat) (drop ti t)"
        using like_step [of pi pat "drop ti t"] hd_t miss by (cases "pi < length pat") auto
      ultimately show ?thesis by simp
    qed
  qed
qed

lemma sql_like_match_like: "sql_like_match s p \<longleftrightarrow> like p s"
  using like_loop_correct [of 0 s p 0 None 0]
  by (simp add: sql_like_match_def sql_like_match_inner_def star_ok_def later_match_def)

section \<open>The compiled strategies are right\<close>

definition plain :: "bytes \<Rightarrow> bool" where
  "plain p \<longleftrightarrow> PERCENT \<notin> set p \<and> UNDERSCORE \<notin> set p \<and> BACKSLASH \<notin> set p"

lemma like_plain: "plain p \<Longrightarrow> like p t \<longleftrightarrow> t = p"
  by (induction p arbitrary: t) (auto simp: plain_def split: list.splits)

lemma like_plain_prefix: "plain p \<Longrightarrow> like (p @ [PERCENT]) t \<longleftrightarrow> str_starts_with t p"
proof (induction p arbitrary: t)
  case Nil
  show ?case by (auto simp: str_starts_with_def intro!: bexI [of _ "length t"])
next
  case (Cons c p)
  then show ?case by (auto simp: plain_def str_starts_with_def split: list.splits)
qed

lemma like_plain_suffix: "plain p \<Longrightarrow> like (PERCENT # p) t \<longleftrightarrow> str_ends_with t p"
  unfolding like_percent by (auto simp: like_plain str_ends_with_def intro: exI [of _ "length t - length p"])

lemma str_contains_iff: "str_contains s c \<longleftrightarrow> (\<exists>k \<le> length s. take (length c) (drop k s) = c)"
proof (induction s)
  case (Cons x xs)
  have "(\<exists>k \<le> length (x # xs). take (length c) (drop k (x # xs)) = c) \<longleftrightarrow>
      take (length c) (x # xs) = c \<or> (\<exists>k \<le> length xs. take (length c) (drop k xs) = c)"
    using Ex_less_Suc2 [of "length xs + 1" "\<lambda>k. take (length c) (drop k (x # xs)) = c"]
    by (simp add: less_Suc_eq_le)
  with Cons show ?case by simp
qed auto

lemma like_plain_infix: "plain p \<Longrightarrow> like (PERCENT # p @ [PERCENT]) t \<longleftrightarrow> str_contains t p"
  unfolding like_percent by (simp add: like_plain_prefix str_starts_with_def str_contains_iff)

lemma set_percent_positions: "set (percent_positions p) = {i. i < length p \<and> p ! i = PERCENT}"
  by (auto simp: percent_positions_def)

lemma percent_notin:
  "PERCENT \<notin> set (take n (drop m p)) \<longleftrightarrow> (\<forall>i \<in> set (percent_positions p). i < m \<or> m + n \<le> i)"
proof -
  have "PERCENT \<in> set (take n (drop m p)) \<longleftrightarrow> (\<exists>i. m \<le> i \<and> i < m + n \<and> i < length p \<and> p ! i = PERCENT)"
  proof
    assume "PERCENT \<in> set (take n (drop m p))"
    then obtain j where "j < length (take n (drop m p))" "take n (drop m p) ! j = PERCENT"
      by (metis in_set_conv_nth)
    then show "\<exists>i. m \<le> i \<and> i < m + n \<and> i < length p \<and> p ! i = PERCENT" by (intro exI [of _ "m + j"]) auto
  next
    assume "\<exists>i. m \<le> i \<and> i < m + n \<and> i < length p \<and> p ! i = PERCENT"
    then obtain i where "m \<le> i" "i < m + n" "i < length p" "p ! i = PERCENT" by blast
    then show "PERCENT \<in> set (take n (drop m p))"
      by (intro iffD2 [OF in_set_conv_nth] exI [of _ "i - m"]) auto
  qed
  then show ?thesis by (auto simp: set_percent_positions not_less)
qed

lemma compile_like_pattern_correct: "like_strategy_matches (compile_like_pattern p) s \<longleftrightarrow> like p s"
proof (cases "UNDERSCORE \<in> set p \<or> BACKSLASH \<in> set p")
  case True
  then show ?thesis by (simp add: compile_like_pattern_def like_strategy_matches_def sql_like_match_like)
next
  case False
  have plain: "plain (take n (drop m p))" if "\<forall>i \<in> set (percent_positions p). i < m \<or> m + n \<le> i" for m n
    using that False percent_notin [of n m p] by (auto simp: plain_def dest: in_set_takeD in_set_dropD)
  note defs = compile_like_pattern_def like_strategy_matches_def sql_like_match_like
  have at: "i < length p \<and> p ! i = PERCENT" if "i \<in> set (percent_positions p)" for i
    using that by (simp add: set_percent_positions)
  have front: "p = PERCENT # drop 1 p" if "0 \<in> set (percent_positions p)"
    using at [OF that] by (cases p) simp_all
  have rear: "p = take (length p - 1) p @ [PERCENT]" if "length p - 1 \<in> set (percent_positions p)"
    using at [OF that] by (metis append_butlast_last_id butlast_conv_take last_conv_nth length_greater_0_conv less_nat_zero_code list.size(3))
  consider (none) "percent_positions p = []" | (one) pos where "percent_positions p = [pos]"
    | (two) a b where "percent_positions p = [a, b]" | (more) a b c xs where "percent_positions p = a # b # c # xs"
    by (metis list.exhaust)
  then show ?thesis
  proof cases
    case none
    then show ?thesis using False plain [of 0 "length p"] by (simp add: defs like_plain)
  next
    case one
    consider "pos = 0" "length p = 1" | "pos = 0" "length p \<noteq> 1" | "pos \<noteq> 0" "pos = length p - 1" | "pos \<noteq> 0" "pos \<noteq> length p - 1"
      by blast
    then show ?thesis
    proof cases
      case 1
      then have "p = [PERCENT]" using front one by (cases p) simp_all
      then show ?thesis using False one 1 like_plain_infix [of "[]" s] like_plain_suffix [of "[]" s]
        by (auto simp: defs plain_def str_contains_iff)
    next
      case 2
      then have "plain (drop 1 p)" using plain [of 1 "length p"] one by simp
      then show ?thesis using False one 2 front like_plain_suffix [of "drop 1 p" s] by (simp add: defs)
    next
      case 3
      then have "plain (take pos p)" using plain [of 0 pos] one by simp
      then show ?thesis using False one 3 rear like_plain_prefix [of "take pos p" s] by (simp add: defs)
    qed (use False one in \<open>simp add: defs\<close>)
  next
    case two
    show ?thesis
    proof (cases "a = 0 \<and> b = length p - 1")
      case True
      have "distinct (percent_positions p)" by (simp add: percent_positions_def)
      with two True have "1 < length p" by (cases "length p = 1") (use at [of b] two in auto)
      have "plain (take (b - 1) (drop 1 p))" using plain [of 1 "b - 1"] two True \<open>1 < length p\<close> by simp
      moreover have "p = PERCENT # take (b - 1) (drop 1 p) @ [PERCENT]"
      proof (cases p)
        case (Cons x q)
        then show ?thesis using front rear two True \<open>1 < length p\<close> by (simp add: take_Cons')
      qed (use \<open>1 < length p\<close> in simp)
      ultimately show ?thesis using False two True like_plain_infix [of "take (b - 1) (drop 1 p)" s] by (simp add: defs)
    qed (use False two in \<open>auto simp: defs\<close>)
  qed (use False in \<open>simp add: defs\<close>)
qed

end
