(* ===== verification/Text.thy ===== *)
theory Text
  imports Prelude
begin

unbundle bit_operations_syntax

text \<open>
  Text as bytes: ASCII literals, decimal rendering of integers as \<^verbatim>\<open>to_string\<close> does it, zero padding as
  \<^verbatim>\<open>{:0width}\<close> does it, and the value of a string of digits. The numeric and the time components share
  these and the lemmas that rendering and reading back are inverse.
\<close>

definition str :: "string \<Rightarrow> bytes" where
  "str s = map of_char s"

definition is_digit :: "u8 \<Rightarrow> bool" where
  "is_digit c \<longleftrightarrow> 0x30 \<le> c \<and> c \<le> 0x39"

definition digit :: "nat \<Rightarrow> u8" where
  "digit d = 0x30 + word_of_nat d"

text \<open>\<^verbatim>\<open>n.to_string()\<close> of an unsigned and of a signed integer.\<close>

fun dec :: "nat \<Rightarrow> bytes" where
  "dec n = (if n < 10 then [digit n] else dec (n div 10) @ [digit (n mod 10)])"

declare dec.simps [simp del]

definition dec_int :: "int \<Rightarrow> bytes" where
  "dec_int i = (if i < 0 then 0x2D # dec (nat (- i)) else dec (nat i))"

text \<open>\<^verbatim>\<open>format!("{:0>width$}", s)\<close>.\<close>

definition pad_zeros :: "nat \<Rightarrow> bytes \<Rightarrow> bytes" where
  "pad_zeros width s = replicate (width - length s) 0x30 @ s"

text \<open>The value of a string of digits.\<close>

definition digit_val :: "u8 \<Rightarrow> nat" where
  "digit_val c = unat (c - 0x30)"

fun digits_val :: "nat \<Rightarrow> bytes \<Rightarrow> nat" where
  "digits_val acc [] = acc"
| "digits_val acc (c # cs) = digits_val (acc * 10 + digit_val c) cs"

lemma unat_digit: "d < 10 \<Longrightarrow> unat (digit d) = 48 + d"
proof -
  assume "d < 10"
  then have "digit d = word_of_nat (48 + d)" by (simp add: digit_def)
  moreover have "unat (word_of_nat (48 + d) :: u8) = 48 + d" using \<open>d < 10\<close> by (intro word_of_nat_inverse) simp
  ultimately show ?thesis by simp
qed

lemma is_digit_iff: "is_digit c \<longleftrightarrow> 48 \<le> unat c \<and> unat c \<le> 57"
  by (simp add: is_digit_def word_le_nat_alt)

lemma is_digit_digit [simp]: "d < 10 \<Longrightarrow> is_digit (digit d)"
  by (simp add: is_digit_iff unat_digit)

lemma digit_val_digit [simp]: "d < 10 \<Longrightarrow> digit_val (digit d) = d"
proof -
  assume "d < 10"
  then have "unat (word_of_nat d :: u8) = d" by (intro word_of_nat_inverse) simp
  then show ?thesis by (simp add: digit_val_def digit_def)
qed

lemma digit_val_less: "is_digit c \<Longrightarrow> digit_val c < 10"
  and digit_digit_val: "is_digit c \<Longrightarrow> digit (digit_val c) = c"
proof -
  assume c: "is_digit c"
  then have "unat (c - 0x30) = unat c - 48"
    by (subst unat_sub) (simp_all add: is_digit_def)
  with c show "digit_val c < 10" unfolding digit_val_def is_digit_iff by linarith
  show "digit (digit_val c) = c" by (simp add: digit_def digit_val_def)
qed

lemma digits_val_append: "digits_val acc (xs @ ys) = digits_val (digits_val acc xs) ys"
  by (induction acc xs rule: digits_val.induct) simp_all

lemma digits_val_acc: "digits_val acc xs = acc * 10 ^ length xs + digits_val 0 xs"
proof (induction xs arbitrary: acc)
  case (Cons c cs)
  show ?case using Cons [of "acc * 10 + digit_val c"] Cons [of "digit_val c"] by (simp add: algebra_simps)
qed simp

lemma digits_val_less: "\<forall>c \<in> set xs. is_digit c \<Longrightarrow> digits_val 0 xs < 10 ^ length xs"
proof (induction xs rule: rev_induct)
  case (snoc c xs)
  then have "digits_val 0 xs < 10 ^ length xs" "digit_val c < 10" by (simp_all add: digit_val_less)
  then show ?case by (simp add: digits_val_append)
qed simp

lemma dec_not_Nil [simp]: "dec n \<noteq> []"
  by (subst dec.simps) simp

lemma dec_digits: "c \<in> set (dec n) \<Longrightarrow> is_digit c"
proof (induction n rule: dec.induct)
  case (1 n)
  then show ?case by (cases "n < 10") (auto simp: dec.simps [of n])
qed

lemma digits_val_dec [simp]: "digits_val 0 (dec n) = n"
proof (induction n rule: dec.induct)
  case (1 n)
  then show ?case by (cases "n < 10") (simp_all add: dec.simps [of n] digits_val_append)
qed

lemma dec_snoc: "0 < n \<Longrightarrow> d < 10 \<Longrightarrow> dec (n * 10 + d) = dec n @ [digit d]"
proof -
  assume "0 < n" "d < 10"
  moreover from this have "(n * 10 + d) div 10 = n" "(n * 10 + d) mod 10 = d" by simp_all
  ultimately show ?thesis by (subst dec.simps) simp
qed

lemma dec_single: "d < 10 \<Longrightarrow> dec d = [digit d]"
  by (simp add: dec.simps)

text \<open>A number followed by a block of digits is rendered as the number followed by that block.\<close>

lemma dec_digits_block:
  assumes "0 < n" and "\<forall>c \<in> set fp. is_digit c"
  shows "dec (n * 10 ^ length fp + digits_val 0 fp) = dec n @ fp"
  using assms(2)
proof (induction fp rule: rev_induct)
  case (snoc c fp)
  let ?m = "n * 10 ^ length fp + digits_val 0 fp"
  have m: "n * 10 ^ length (fp @ [c]) + digits_val 0 (fp @ [c]) = ?m * 10 + digit_val c"
    by (simp add: digits_val_append algebra_simps)
  have "dec (?m * 10 + digit_val c) = dec ?m @ [digit (digit_val c)]"
    using assms(1) snoc.prems by (intro dec_snoc) (simp_all add: digit_val_less)
  with snoc show ?case unfolding m by (simp add: digit_digit_val)
qed simp

lemma length_dec_le: "n < 10 ^ k \<Longrightarrow> 0 < k \<Longrightarrow> length (dec n) \<le> k"
proof (induction n arbitrary: k rule: dec.induct)
  case (1 n)
  show ?case
  proof (cases "n < 10")
    case True
    with 1 show ?thesis by (simp add: dec_single)
  next
    case False
    obtain j where k: "k = Suc j" using 1(3) by (cases k) auto
    have "n div 10 < 10 ^ j" using 1(2) k by (simp add: less_mult_imp_div_less mult.commute)
    moreover have "0 < j" using False 1(2) k by (cases j) simp_all
    ultimately show ?thesis using 1(1) [OF False, of j] False k by (simp add: dec.simps [of n])
  qed
qed

text \<open>Padding the value of a block of digits to its length gives the block back.\<close>

lemma pad_zeros_digits:
  assumes "fp \<noteq> []" and "\<forall>c \<in> set fp. is_digit c"
  shows "pad_zeros (length fp) (dec (digits_val 0 fp)) = fp"
  using assms
proof (induction fp rule: rev_induct)
  case (snoc c fp)
  have c: "digit_val c < 10" "digit (digit_val c) = c" using snoc.prems by (simp_all add: digit_val_less digit_digit_val)
  have v: "digits_val 0 (fp @ [c]) = digits_val 0 fp * 10 + digit_val c" by (simp add: digits_val_append)
  show ?case
  proof (cases "digits_val 0 fp = 0")
    case True
    have z: "replicate (length fp) 0x30 = fp"
    proof (cases "fp = []")
      case False
      then have "pad_zeros (length fp) (dec 0) = fp" using snoc True by simp
      then show ?thesis using False
        by (cases fp rule: rev_cases) (auto simp: pad_zeros_def dec_single digit_def replicate_append_same)
    qed simp
    then show ?thesis using True c v by (simp add: pad_zeros_def dec_single)
  next
    case False
    then have "fp \<noteq> []" by auto
    with snoc have "pad_zeros (length fp) (dec (digits_val 0 fp)) = fp" by simp
    then show ?thesis using False c v dec_snoc [of "digits_val 0 fp" "digit_val c"] by (simp add: pad_zeros_def)
  qed
qed simp

lemma digits_val_pad_zeros: "digits_val 0 (pad_zeros w (dec n)) = n"
proof -
  have "digits_val 0 (replicate k 0x30) = 0" for k
    by (induction k) (simp_all add: digit_val_def)
  then show ?thesis by (simp add: pad_zeros_def digits_val_append)
qed

lemma length_pad_zeros: "length s \<le> w \<Longrightarrow> length (pad_zeros w s) = w"
  by (simp add: pad_zeros_def)

lemma pad_zeros_is_digits: "c \<in> set (pad_zeros w (dec n)) \<Longrightarrow> is_digit c"
  by (auto simp: pad_zeros_def dec_digits) (simp add: is_digit_def)

end
