(* ===== verification/Typed_Column.thy ===== *)
theory Typed_Column
  imports Text Compressed_Column
begin

unbundle bit_operations_syntax

text \<open>
  The in-memory columns of \<^verbatim>\<open>src/compress.rs\<close>: how a PostgreSQL type is classified, the typed
  accumulators and their operations, and the per-segment sums. PostgreSQL type names are ASCII, so
  \<^verbatim>\<open>to_lowercase\<close> is the ASCII one. Text values are their UTF-8 bytes; a float is its bit pattern.
\<close>

section \<open>Type names\<close>

definition lower_char :: "char \<Rightarrow> char" where
  "lower_char c = (let n = of_char c :: nat in if 65 \<le> n \<and> n \<le> 90 then char_of (n + 32) else c)"

definition lower :: "string \<Rightarrow> string" where
  "lower s = map lower_char s"

definition starts_with :: "string \<Rightarrow> string \<Rightarrow> bool" where
  "starts_with s p \<longleftrightarrow> take (length p) s = p"

fun contains_str :: "string \<Rightarrow> string \<Rightarrow> bool" where
  "contains_str [] p = (p = [])"
| "contains_str (c # cs) p = (starts_with (c # cs) p \<or> contains_str cs p)"

datatype ColumnKind = KText | KInt16 | KInt32 | KInt64 | KFloat32 | KFloat64 | KBool | KTimestamp
  | KTimestampTz | KDate | KTime | KJsonb | KUuid | KBytea | KInet

text \<open>\<open>force\<close> is the GUC \<^verbatim>\<open>FORCE_TEXT_FALLBACK\<close>.\<close>

definition classify_column :: "bool \<Rightarrow> string \<Rightarrow> bool \<Rightarrow> ColumnKind" where
  "classify_column force data_type is_segment_by =
     (if is_segment_by then KText
      else let dt = lower data_type in
        if dt = ''smallint'' \<or> dt = ''int2'' then KInt16
        else if dt = ''integer'' \<or> dt = ''int4'' then KInt32
        else if dt = ''bigint'' \<or> dt = ''int8'' then KInt64
        else if dt = ''double precision'' \<or> dt = ''float8'' then KFloat64
        else if dt = ''real'' \<or> dt = ''float4'' then KFloat32
        else if dt = ''boolean'' \<or> dt = ''bool'' then KBool
        else if dt = ''timestamp with time zone'' then KTimestampTz
        else if contains_str dt ''timestamp'' then KTimestamp
        else if dt = ''date'' then KDate
        else if dt = ''jsonb'' then KJsonb
        else if force then KText
        else if dt = ''time'' \<or> dt = ''time without time zone'' then KTime
        else if dt = ''uuid'' then KUuid
        else if dt = ''bytea'' then KBytea
        else if dt = ''inet'' \<or> dt = ''cidr'' then KInet
        else KText)"

definition is_text_data_type :: "string \<Rightarrow> bool" where
  "is_text_data_type dt \<longleftrightarrow> dt = ''text'' \<or> dt = ''varchar'' \<or> starts_with dt ''varchar(''
     \<or> dt = ''character varying'' \<or> starts_with dt ''character varying('' \<or> dt = ''char''
     \<or> starts_with dt ''char('' \<or> dt = ''character'' \<or> starts_with dt ''character('' \<or> dt = ''bpchar''"

definition supports_minmax :: "string \<Rightarrow> bool" where
  "supports_minmax data_type =
     (let dt = lower data_type
      in contains_str dt ''timestamp'' \<or> dt = ''date'' \<or> dt = ''time'' \<or> dt = ''time without time zone''
         \<or> dt = ''integer'' \<or> dt = ''int4'' \<or> dt = ''bigint'' \<or> dt = ''int8'' \<or> dt = ''smallint'' \<or> dt = ''int2''
         \<or> dt = ''double precision'' \<or> dt = ''float8'' \<or> dt = ''real'' \<or> dt = ''float4'')"

definition supports_sum :: "string \<Rightarrow> bool" where
  "supports_sum data_type =
     (let dt = lower data_type
      in dt = ''integer'' \<or> dt = ''int4'' \<or> dt = ''bigint'' \<or> dt = ''int8'' \<or> dt = ''smallint'' \<or> dt = ''int2''
         \<or> dt = ''double precision'' \<or> dt = ''float8'' \<or> dt = ''real'' \<or> dt = ''float4'' \<or> is_text_data_type dt)"

section \<open>Typed columns\<close>

datatype TypedColumn =
    TText "bytes option list"
  | TBytes "bytes option list"
  | TInt16 "i16 option list"
  | TInt32 "i32 option list"
  | TInt64 "i64 option list"
  | TFloat32 "u32 option list"
  | TFloat64 "u64 option list"
  | TBool "bool option list"

fun rows :: "TypedColumn \<Rightarrow> nat" where
  "rows (TText v) = length v"
| "rows (TBytes v) = length v"
| "rows (TInt16 v) = length v"
| "rows (TInt32 v) = length v"
| "rows (TInt64 v) = length v"
| "rows (TFloat32 v) = length v"
| "rows (TFloat64 v) = length v"
| "rows (TBool v) = length v"

text \<open>\<^verbatim>\<open>split_off\<close> leaves the first part in \<^verbatim>\<open>self\<close>; the model returns both. It panics beyond the end.\<close>

definition vec_split_off :: "'a list \<Rightarrow> nat \<Rightarrow> ('a list \<times> 'a list) option" where
  "vec_split_off v n = (if n \<le> length v then Some (take n v, drop n v) else None)"

fun split_off :: "TypedColumn \<Rightarrow> nat \<Rightarrow> (TypedColumn \<times> TypedColumn) option" where
  "split_off (TText v) n = map_option (map_prod TText TText) (vec_split_off v n)"
| "split_off (TBytes v) n = map_option (map_prod TBytes TBytes) (vec_split_off v n)"
| "split_off (TInt16 v) n = map_option (map_prod TInt16 TInt16) (vec_split_off v n)"
| "split_off (TInt32 v) n = map_option (map_prod TInt32 TInt32) (vec_split_off v n)"
| "split_off (TInt64 v) n = map_option (map_prod TInt64 TInt64) (vec_split_off v n)"
| "split_off (TFloat32 v) n = map_option (map_prod TFloat32 TFloat32) (vec_split_off v n)"
| "split_off (TFloat64 v) n = map_option (map_prod TFloat64 TFloat64) (vec_split_off v n)"
| "split_off (TBool v) n = map_option (map_prod TBool TBool) (vec_split_off v n)"

definition extend :: "TypedColumn \<Rightarrow> TypedColumn \<Rightarrow> TypedColumn option" where
  "extend self other =
     (case (self, other) of
        (TText a, TText b) \<Rightarrow> Some (TText (a @ b))
      | (TBytes a, TBytes b) \<Rightarrow> Some (TBytes (a @ b))
      | (TInt16 a, TInt16 b) \<Rightarrow> Some (TInt16 (a @ b))
      | (TInt32 a, TInt32 b) \<Rightarrow> Some (TInt32 (a @ b))
      | (TInt64 a, TInt64 b) \<Rightarrow> Some (TInt64 (a @ b))
      | (TFloat32 a, TFloat32 b) \<Rightarrow> Some (TFloat32 (a @ b))
      | (TFloat64 a, TFloat64 b) \<Rightarrow> Some (TFloat64 (a @ b))
      | (TBool a, TBool b) \<Rightarrow> Some (TBool (a @ b))
      | _ \<Rightarrow> None)"

definition push_from :: "TypedColumn \<Rightarrow> TypedColumn \<Rightarrow> nat \<Rightarrow> TypedColumn option" where
  "push_from self src i =
     (case (self, src) of
        (TText dst, TText s) \<Rightarrow> map_option (\<lambda>v. TText (dst @ [v])) (index s i)
      | (TBytes dst, TBytes s) \<Rightarrow> map_option (\<lambda>v. TBytes (dst @ [v])) (index s i)
      | (TInt16 dst, TInt16 s) \<Rightarrow> map_option (\<lambda>v. TInt16 (dst @ [v])) (index s i)
      | (TInt32 dst, TInt32 s) \<Rightarrow> map_option (\<lambda>v. TInt32 (dst @ [v])) (index s i)
      | (TInt64 dst, TInt64 s) \<Rightarrow> map_option (\<lambda>v. TInt64 (dst @ [v])) (index s i)
      | (TFloat32 dst, TFloat32 s) \<Rightarrow> map_option (\<lambda>v. TFloat32 (dst @ [v])) (index s i)
      | (TFloat64 dst, TFloat64 s) \<Rightarrow> map_option (\<lambda>v. TFloat64 (dst @ [v])) (index s i)
      | (TBool dst, TBool s) \<Rightarrow> map_option (\<lambda>v. TBool (dst @ [v])) (index s i)
      | _ \<Rightarrow> None)"

fun new_typed_column :: "ColumnKind \<Rightarrow> TypedColumn" where
  "new_typed_column KText = TText []"
| "new_typed_column KJsonb = TBytes []"
| "new_typed_column KInt16 = TInt16 []"
| "new_typed_column KInt32 = TInt32 []"
| "new_typed_column KInt64 = TInt64 []"
| "new_typed_column KFloat32 = TFloat32 []"
| "new_typed_column KFloat64 = TFloat64 []"
| "new_typed_column KBool = TBool []"
| "new_typed_column KTimestamp = TInt64 []"
| "new_typed_column KTimestampTz = TInt64 []"
| "new_typed_column KDate = TInt64 []"
| "new_typed_column KTime = TInt64 []"
| "new_typed_column KUuid = TBytes []"
| "new_typed_column KBytea = TBytes []"
| "new_typed_column KInet = TBytes []"

definition new_worker_typed_column :: "ColumnKind \<Rightarrow> TypedColumn" where
  "new_worker_typed_column kind = (if kind = KJsonb then TText [] else new_typed_column kind)"

fun push_typed_null :: "TypedColumn \<Rightarrow> TypedColumn" where
  "push_typed_null (TInt16 v) = TInt16 (v @ [None])"
| "push_typed_null (TInt32 v) = TInt32 (v @ [None])"
| "push_typed_null (TInt64 v) = TInt64 (v @ [None])"
| "push_typed_null (TFloat32 v) = TFloat32 (v @ [None])"
| "push_typed_null (TFloat64 v) = TFloat64 (v @ [None])"
| "push_typed_null (TBool v) = TBool (v @ [None])"
| "push_typed_null (TText v) = TText (v @ [None])"
| "push_typed_null (TBytes v) = TBytes (v @ [None])"

text \<open>Two columns of the same variant; a column built for a kind.\<close>

definition same_variant :: "TypedColumn \<Rightarrow> TypedColumn \<Rightarrow> bool" where
  "same_variant a b =
     (case (a, b) of
        (TText _, TText _) \<Rightarrow> True
      | (TBytes _, TBytes _) \<Rightarrow> True
      | (TInt16 _, TInt16 _) \<Rightarrow> True
      | (TInt32 _, TInt32 _) \<Rightarrow> True
      | (TInt64 _, TInt64 _) \<Rightarrow> True
      | (TFloat32 _, TFloat32 _) \<Rightarrow> True
      | (TFloat64 _, TFloat64 _) \<Rightarrow> True
      | (TBool _, TBool _) \<Rightarrow> True
      | _ \<Rightarrow> False)"

lemma extend_split_off:
  assumes "split_off col n = Some (a, b)"
  shows "extend a b = Some col" and "rows a = n" and "same_variant a col" and "same_variant b col"
  using assms by (cases col; auto simp: vec_split_off_def extend_def same_variant_def split: if_splits)+

lemma split_off_total: "n \<le> rows col \<Longrightarrow> \<exists>a b. split_off col n = Some (a, b)"
  by (cases col) (auto simp: vec_split_off_def)

lemma extend_Some_iff: "(\<exists>c. extend a b = Some c) \<longleftrightarrow> same_variant a b"
  by (cases a; cases b) (auto simp: extend_def same_variant_def)

lemma extend_rows: "extend a b = Some c \<Longrightarrow> rows c = rows a + rows b \<and> same_variant c a"
  by (cases a; cases b) (auto simp: extend_def same_variant_def)

lemma push_typed_null_rows: "rows (push_typed_null c) = rows c + 1 \<and> same_variant (push_typed_null c) c"
  by (cases c) (auto simp: same_variant_def)

lemma push_from_rows: "push_from dst s i = Some c \<Longrightarrow> rows c = rows dst + 1 \<and> same_variant c dst \<and> i < rows s"
  by (cases dst; cases s) (auto simp: push_from_def same_variant_def index_def split: if_splits)

section \<open>Segment sums\<close>

fun sum_int_loop :: "'w::len word option list \<Rightarrow> int \<Rightarrow> int \<Rightarrow> int \<Rightarrow> int \<times> int \<times> int" where
  "sum_int_loop [] acc n nonzero = (acc, n, nonzero)"
| "sum_int_loop (None # vs) acc n nonzero = sum_int_loop vs acc n nonzero"
| "sum_int_loop (Some v # vs) acc n nonzero =
     sum_int_loop vs (acc + sint v) (n + 1) (if v \<noteq> 0 then nonzero + 1 else nonzero)"

definition sum_int_column :: "'w::len word option list \<Rightarrow> bytes option \<times> int \<times> int" where
  "sum_int_column v =
     (let (acc, n, nonzero) = sum_int_loop v 0 0 0
      in if 0 < n then (Some (dec_int acc), n, nonzero) else (None, 0, 0))"

lemma sum_int_loop_eq:
  "sum_int_loop vs t n z = (t + sum_list (map sint (somes vs)), n + int (length (somes vs)),
     z + int (length (filter (\<lambda>v. v \<noteq> 0) (somes vs))))"
  by (induction vs t n z rule: sum_int_loop.induct) auto

lemma sum_int_column_eq:
  "sum_int_column vs =
     (if somes vs = [] then (None, 0, 0)
      else (Some (dec_int (sum_list (map sint (somes vs)))), int (length (somes vs)),
            int (length (filter (\<lambda>v. v \<noteq> 0) (somes vs)))))"
  by (simp add: sum_int_column_def sum_int_loop_eq)

text \<open>The number of characters of a UTF-8 string: its bytes that do not continue a character.\<close>

definition chars_count :: "bytes \<Rightarrow> nat" where
  "chars_count s = length (filter (\<lambda>b. b AND 0xC0 \<noteq> 0x80) s)"

fun sum_text_loop :: "bytes option list \<Rightarrow> int \<Rightarrow> int \<Rightarrow> int \<Rightarrow> int \<times> int \<times> int" where
  "sum_text_loop [] acc nonnull nonempty = (acc, nonnull, nonempty)"
| "sum_text_loop (None # vs) acc nonnull nonempty = sum_text_loop vs acc nonnull nonempty"
| "sum_text_loop (Some s # vs) acc nonnull nonempty =
     (let chars = int (chars_count s)
      in sum_text_loop vs (acc + chars) (nonnull + 1) (if 0 < chars then nonempty + 1 else nonempty))"

text \<open>\<open>float_sum\<close> stands for \<^verbatim>\<open>sum_float_column\<close>, whose IEEE additions and rendering are not modelled.\<close>

definition compute_typed_sum ::
    "(u32 option list \<Rightarrow> bytes option \<times> int \<times> int) \<Rightarrow> (u64 option list \<Rightarrow> bytes option \<times> int \<times> int)
     \<Rightarrow> TypedColumn \<Rightarrow> bytes option \<times> int \<times> int" where
  "compute_typed_sum float_sum32 float_sum64 col =
     (case col of
        TInt16 v \<Rightarrow> sum_int_column v
      | TInt32 v \<Rightarrow> sum_int_column v
      | TInt64 v \<Rightarrow> sum_int_column v
      | TFloat32 v \<Rightarrow> float_sum32 v
      | TFloat64 v \<Rightarrow> float_sum64 v
      | TBool _ \<Rightarrow> (None, 0, 0)
      | TText v \<Rightarrow>
          let (acc, nonnull, nonempty) = sum_text_loop v 0 0 0
          in if 0 < nonnull then (Some (dec_int acc), nonnull, nonempty) else (None, 0, 0)
      | TBytes _ \<Rightarrow> (None, 0, 0))"

end
