(* ===== verification/Calendar.thy ===== *)
theory Calendar
  imports Prelude "HOL-Library.Signed_Division"
begin

text \<open>
  The conversion between Gregorian dates and days since 1970-01-01
  (\<^verbatim>\<open>date_to_epoch_days\<close>, \<^verbatim>\<open>epoch_days_to_date\<close> of \<^verbatim>\<open>src/timeparse.rs\<close>). Rust's \<^verbatim>\<open>/\<close> truncates, which is
  \<^const>\<open>signed_divide\<close>. The values stay far inside their machine types for every date the extension
  handles (an \<^verbatim>\<open>i64\<close> of microseconds spans years of magnitude below 300000), so they are integers here.
\<close>

definition date_to_epoch_days :: "int \<Rightarrow> int \<Rightarrow> int \<Rightarrow> int" where
  "date_to_epoch_days year month day =
     (let y = (if month \<le> 2 then year - 1 else year);
          m = (if month \<le> 2 then month + 9 else month - 3);
          era = (if 0 \<le> y then y else y - 399) sdiv 400;
          yoe = y - era * 400;
          doy = (153 * m + 2) div 5 + day - 1;
          doe = yoe * 365 + yoe div 4 - yoe div 100 + doy
      in era * 146097 + doe - 719468)"

definition epoch_days_to_date :: "int \<Rightarrow> int \<times> int \<times> int" where
  "epoch_days_to_date days =
     (let z = days + 719468;
          era = (if 0 \<le> z then z else z - 146096) sdiv 146097;
          doe = z - era * 146097;
          yoe = (doe - doe div 1460 + doe div 36524 - doe div 146096) div 365;
          y = yoe + era * 400;
          doy = doe - (365 * yoe + yoe div 4 - yoe div 100);
          mp = (5 * doy + 2) div 153;
          d = doy - (153 * mp + 2) div 5 + 1;
          m = (if mp < 10 then mp + 3 else mp - 9);
          y' = (if m \<le> 2 then y + 1 else y)
      in (y', m, d))"

section \<open>The calendar\<close>

definition is_leap :: "int \<Rightarrow> bool" where
  "is_leap y \<longleftrightarrow> 4 dvd y \<and> (\<not> 100 dvd y \<or> 400 dvd y)"

definition days_in_month :: "int \<Rightarrow> int \<Rightarrow> int" where
  "days_in_month y m = (if m = 2 then if is_leap y then 29 else 28
                        else if m \<in> {4, 6, 9, 11} then 30 else 31)"

definition valid_date :: "int \<Rightarrow> int \<Rightarrow> int \<Rightarrow> bool" where
  "valid_date y m d \<longleftrightarrow> 1 \<le> m \<and> m \<le> 12 \<and> 1 \<le> d \<and> d \<le> days_in_month y m"

lemma int_div_eqI: "q * b \<le> a \<Longrightarrow> a < q * b + b \<Longrightarrow> a div b = (q::int)"
  using int_div_pos_eq [of a b q "a - b * q"] by (simp add: mult.commute)

lemma dvd_last: "1 \<le> k \<Longrightarrow> k \<le> n \<Longrightarrow> n dvd (n * x + k) \<longleftrightarrow> k = (n::int)"
  by (auto simp: dvd_add_right_iff dest: zdvd_imp_le)

text \<open>Floor division from truncating division, as both functions write it.\<close>

lemma sdiv_floor: "0 < d \<Longrightarrow> e = d - 1 \<Longrightarrow> (if 0 \<le> y then y else y - e) sdiv d = y div (d::int)"
proof (cases "0 \<le> y")
  case False
  assume d: "0 < d" and e: "e = d - 1"
  have "(y - (d - 1)) sdiv d = - ((d - 1 - y) div d)"
    using False d by (simp add: signed_divide_int_def sgn_if)
  also have "\<dots> = y div d"
  proof -
    define q r where "q = y div d" and "r = y mod d"
    have y: "y = q * d + r" "0 \<le> r" "r < d" using d by (simp_all add: q_def r_def)
    have "(d - 1 - y) div d = (d - 1 - r + (- q) * d) div d" by (simp add: y(1) algebra_simps)
    also have "\<dots> = - q + (d - 1 - r) div d" using d by (subst div_mult_self1) simp_all
    also have "(d - 1 - r) div d = 0" using y by (intro div_pos_pos_trivial) linarith+
    finally show ?thesis by (simp add: q_def)
  qed
  finally show ?thesis using False e by simp
qed (simp add: signed_divide_int_def sgn_if)

text \<open>
  Inside an era of 400 years that start in March: \<open>a\<close> centuries, \<open>b\<close> four-year cycles, and \<open>t\<close> days into
  the cycle. The last cycle of a century has no leap day, except the last century of the era.
\<close>

lemma year_of_era:
  fixes a b c doy :: int
  assumes "0 \<le> a" "a \<le> 3" "0 \<le> b" "b \<le> 24" "0 \<le> c" "c \<le> 3" "0 \<le> doy" "doy \<le> 365"
    and leap: "doy = 365 \<longrightarrow> c = 3 \<and> (b = 24 \<longrightarrow> a = 3)"
  defines "yoe \<equiv> 100 * a + 4 * b + c"
  defines "doe \<equiv> 365 * yoe + yoe div 4 - yoe div 100 + doy"
  shows "(doe - doe div 1460 + doe div 36524 - doe div 146096) div 365 = yoe" and "0 \<le> doe" and "doe \<le> 146096"
proof -
  define t where "t = 365 * c + doy"
  have y4: "yoe div 4 = 25 * a + b" and y100: "yoe div 100 = a"
    using assms(3-6) by (simp_all add: yoe_def)
  have doe: "doe = 36524 * a + 1461 * b + t" unfolding doe_def y4 y100 by (simp add: yoe_def t_def)
  have c: "c = 0 \<or> c = 1 \<or> c = 2 \<or> c = 3" using assms(5,6) by linarith
  have t: "0 \<le> t" "t \<le> 1460" "t = 1460 \<longrightarrow> (b = 24 \<longrightarrow> a = 3)"
    using assms(5-8) leap c by (auto simp: t_def)
  show "0 \<le> doe" "doe \<le> 146096" using doe t assms(1-4) by linarith+
  have hi: "1461 * b + t \<le> 36524" "1461 * b + t = 36524 \<longrightarrow> a = 3" using t assms(3,4) by auto
  have q23: "doe div 36524 - doe div 146096 = a"
  proof (cases "1461 * b + t = 36524")
    case True
    with hi doe have "doe = 146096" by simp
    then show ?thesis using True hi by simp
  next
    case False
    then have "1461 * b + t < 36524" using hi by linarith
    then have "doe div 36524 = a" "doe < 146096"
      using doe t assms(1-4) by (auto intro!: int_div_eqI)
    moreover have "doe div 146096 = 0" using \<open>doe < 146096\<close> doe t assms(1-4) by (intro div_pos_pos_trivial) linarith+
    ultimately show ?thesis by simp
  qed
  define s where "s = (24 * a + b + t) div 1460"
  have "doe = (24 * a + b + t) + (25 * a + b) * 1460" by (simp add: doe)
  then have q1: "doe div 1460 = 25 * a + b + s" by (simp add: s_def)
  have s: "s = 0 \<and> 24 * a + b + t < 1460 \<or> s = 1 \<and> 1460 \<le> 24 * a + b + t"
  proof (cases "24 * a + b + t < 1460")
    case True
    with t assms(1-4) show ?thesis by (auto simp: s_def intro!: div_pos_pos_trivial)
  next
    case False
    have "(24 * a + b + t) div 1460 = 1" using False t assms(1-4) by (intro int_div_eqI) linarith+
    with False show ?thesis by (simp add: s_def)
  qed
  have "doe - doe div 1460 + doe div 36524 - doe div 146096 = (t - s) + (100 * a + 4 * b) * 365"
    using q23 q1 doe by simp
  moreover have "(t - s) div 365 = c"
    using s c t assms(1-8) leap by (intro int_div_eqI) (auto simp: t_def)
  ultimately show "(doe - doe div 1460 + doe div 36524 - doe div 146096) div 365 = yoe"
    by (simp add: yoe_def)
qed

text \<open>Every year of an era, and every day of an era, has these coordinates.\<close>

lemma year_coordinates:
  fixes yoe :: int
  assumes "0 \<le> yoe" and "yoe \<le> 399"
  obtains a b c where "yoe = 100 * a + 4 * b + c" and "0 \<le> a" "a \<le> 3" "0 \<le> b" "b \<le> 24" "0 \<le> c" "c \<le> 3"
proof -
  define a j b c where "a = yoe div 100" and "j = yoe mod 100" and "b = j div 4" and "c = j mod 4"
  have "yoe = 100 * a + j" "0 \<le> j" "j < 100" "j = 4 * b + c" "0 \<le> c" "c < 4"
    by (simp_all add: a_def j_def b_def c_def)
  with assms have "yoe = 100 * a + 4 * b + c" "0 \<le> a" "a \<le> 3" "0 \<le> b" "b \<le> 24" "0 \<le> c" "c \<le> 3" by linarith+
  with that show thesis by blast
qed

text \<open>The leap day, last day of a March-based year, is in the year's next February.\<close>

lemma leap_coordinates:
  fixes a b c era :: int
  assumes "0 \<le> a" "a \<le> 3" "0 \<le> b" "b \<le> 24" "0 \<le> c" "c \<le> 3"
  shows "is_leap (400 * era + (100 * a + 4 * b + c) + 1) \<longleftrightarrow> c = 3 \<and> (b = 24 \<longrightarrow> a = 3)"
proof -
  let ?y = "400 * era + (100 * a + 4 * b + c) + 1"
  have e4: "?y = 4 * (100 * era + 25 * a + b) + (c + 1)" by simp
  have d4: "4 dvd ?y \<longleftrightarrow> c = 3" unfolding e4 using assms(5,6) by (subst dvd_last) auto
  have e100: "?y = 100 * (4 * era + a) + (4 * b + c + 1)" by simp
  have d100: "100 dvd ?y \<longleftrightarrow> c = 3 \<and> b = 24" unfolding e100 using assms(3-6) by (subst dvd_last) linarith+
  have e400: "?y = 400 * era + (100 * a + 4 * b + c + 1)" by simp
  have d400: "400 dvd ?y \<longleftrightarrow> c = 3 \<and> b = 24 \<and> a = 3" unfolding e400 using assms by (subst dvd_last) linarith+
  show ?thesis unfolding is_leap_def d4 d100 d400 by blast
qed

text \<open>Months from March: the day of the year of the first of month \<open>mp\<close> is \<open>(153 * mp + 2) div 5\<close>.\<close>

lemma month_of_year:
  fixes mp d :: int
  assumes "0 \<le> mp" "mp \<le> 11" "1 \<le> d"
    and "d \<le> (if mp \<in> {1, 3, 6, 8} then 30 else if mp = 11 then 29 else 31)"
  defines "doy \<equiv> (153 * mp + 2) div 5 + d - 1"
  shows "(5 * doy + 2) div 153 = mp" and "doy - (153 * mp + 2) div 5 + 1 = d" and "0 \<le> doy" and "doy \<le> 365"
    and "doy = 365 \<longleftrightarrow> mp = 11 \<and> d = 29"
proof -
  have mp: "mp = 0 \<or> mp = 1 \<or> mp = 2 \<or> mp = 3 \<or> mp = 4 \<or> mp = 5 \<or> mp = 6 \<or> mp = 7 \<or> mp = 8 \<or> mp = 9 \<or> mp = 10 \<or> mp = 11"
    using assms(1,2) by presburger
  show "(5 * doy + 2) div 153 = mp"
    using mp assms(3,4) unfolding doy_def by (intro int_div_eqI; elim disjE; simp)
  show "doy - (153 * mp + 2) div 5 + 1 = d" by (simp add: doy_def)
  show "0 \<le> doy" "doy \<le> 365" "doy = 365 \<longleftrightarrow> mp = 11 \<and> d = 29"
    using mp assms(3,4) unfolding doy_def by (elim disjE; simp)+
qed

section \<open>The conversions are inverse\<close>

text \<open>Both functions in terms of floor division.\<close>

definition march_year :: "int \<Rightarrow> int \<Rightarrow> int" where
  "march_year y m = (if m \<le> 2 then y - 1 else y)"

definition march_month :: "int \<Rightarrow> int" where
  "march_month m = (if m \<le> 2 then m + 9 else m - 3)"

lemma date_to_epoch_days_eq:
  "date_to_epoch_days y m d =
     (let my = march_year y m; era = my div 400; yoe = my mod 400
      in era * 146097 + (365 * yoe + yoe div 4 - yoe div 100 + ((153 * march_month m + 2) div 5 + d - 1)) - 719468)"
proof -
  have e1: "(if 0 \<le> march_year y m then march_year y m else march_year y m - 399) sdiv 400 = march_year y m div 400"
    by (rule sdiv_floor) simp_all
  have e2: "march_year y m - march_year y m div 400 * 400 = march_year y m mod 400"
    by (simp add: minus_div_mult_eq_mod)
  show ?thesis
    unfolding date_to_epoch_days_def Let_def march_year_def [symmetric] march_month_def [symmetric] e1 e2 by simp
qed

lemma valid_date_march:
  assumes "valid_date y m d"
  shows "0 \<le> march_month m" "march_month m \<le> 11" "1 \<le> d"
    and "d \<le> (if march_month m \<in> {1, 3, 6, 8} then 30 else if march_month m = 11 then 29 else 31)"
    and "march_month m = 11 \<and> d = 29 \<longrightarrow> is_leap (march_year y m + 1)"
    and "(if march_month m < 10 then march_month m + 3 else march_month m - 9) = m"
  using assms by (auto simp: valid_date_def days_in_month_def march_month_def march_year_def split: if_splits)

lemma epoch_days_of_date:
  assumes "valid_date y m d"
  shows "epoch_days_to_date (date_to_epoch_days y m d) = (y, m, d)"
proof -
  define my era yoe mp doy where "my = march_year y m" and "era = my div 400" and "yoe = my mod 400"
    and "mp = march_month m" and "doy = (153 * mp + 2) div 5 + d - 1"
  note v = valid_date_march [OF assms, folded mp_def my_def]
  note moy = month_of_year [OF v(1-4), folded doy_def]
  have yoe: "0 \<le> yoe" "yoe \<le> 399" and my: "my = 400 * era + yoe" by (simp_all add: yoe_def era_def)
  obtain a b c where abc: "yoe = 100 * a + 4 * b + c" "0 \<le> a" "a \<le> 3" "0 \<le> b" "b \<le> 24" "0 \<le> c" "c \<le> 3"
    using year_coordinates [OF yoe] .
  have "doy = 365 \<longrightarrow> c = 3 \<and> (b = 24 \<longrightarrow> a = 3)"
    using moy(5) v(5) leap_coordinates [OF abc(2-7), of era] my abc(1) by (auto simp: algebra_simps)
  define doe where "doe = 365 * yoe + yoe div 4 - yoe div 100 + doy"
  have era_year: "(doe - doe div 1460 + doe div 36524 - doe div 146096) div 365 = yoe" "0 \<le> doe" "doe \<le> 146096"
    using year_of_era [OF abc(2-7) moy(3,4) \<open>doy = 365 \<longrightarrow> c = 3 \<and> (b = 24 \<longrightarrow> a = 3)\<close>, folded abc(1), folded doe_def] by blast+
  have days: "date_to_epoch_days y m d = era * 146097 + doe - 719468"
    by (simp add: date_to_epoch_days_eq Let_def era_def my_def yoe_def mp_def doe_def doy_def)
  have z: "(if 0 \<le> era * 146097 + doe then era * 146097 + doe else era * 146097 + doe - 146096) sdiv 146097 = era"
    using era_year(2,3) by (subst sdiv_floor) (simp_all add: int_div_eqI)
  have zeq: "era * 146097 + doe - 719468 + 719468 = era * 146097 + doe"
    and doe': "era * 146097 + doe - era * 146097 = doe" by simp_all
  have doy': "doe - (365 * yoe + yoe div 4 - yoe div 100) = doy" by (simp add: doe_def)
  have year: "(if m \<le> 2 then yoe + era * 400 + 1 else yoe + era * 400) = y"
    using my by (auto simp: my_def march_year_def split: if_splits)
  have "epoch_days_to_date (era * 146097 + doe - 719468) = (y, m, d)"
    by (simp only: epoch_days_to_date_def Let_def zeq z doe' era_year(1) doy' moy(1,2) v(6) year)
  then show ?thesis by (simp only: days)
qed

lemma day_coordinates:
  fixes doe :: int
  assumes "0 \<le> doe" and "doe \<le> 146096"
  obtains a b c doy where "0 \<le> a" "a \<le> 3" "0 \<le> b" "b \<le> 24" "0 \<le> c" "c \<le> 3" "0 \<le> doy" "doy \<le> 365"
    and "doy = 365 \<longrightarrow> c = 3 \<and> (b = 24 \<longrightarrow> a = 3)" and "doe = 36524 * a + 1461 * b + 365 * c + doy"
proof -
  define a where "a = min 3 (doe div 36524)"
  define r where "r = doe - 36524 * a"
  define b where "b = r div 1461"
  define t where "t = r mod 1461"
  define c where "c = min 3 (t div 365)"
  define doy where "doy = t - 365 * c"
  have q: "36524 * (doe div 36524) \<le> doe" "doe < 36524 * (doe div 36524) + 36524" by simp_all
  have a: "0 \<le> a" "a \<le> 3" using assms by (simp_all add: a_def)
  have r: "0 \<le> r" "r \<le> 36524" "r = 36524 \<longrightarrow> a = 3"
    using q assms by (auto simp: r_def a_def min_def)
  have rb: "r = 1461 * b + t" "0 \<le> t" "t \<le> 1460" by (simp_all add: b_def t_def)
  with r have b: "0 \<le> b" "b \<le> 24" by linarith+
  have qt: "365 * (t div 365) \<le> t" "t < 365 * (t div 365) + 365" by simp_all
  have c: "0 \<le> c" "c \<le> 3" using rb by (simp_all add: c_def)
  have doy: "0 \<le> doy" "doy \<le> 365" "doy = 365 \<longrightarrow> c = 3 \<and> t = 1460"
    using qt rb by (auto simp: doy_def c_def min_def)
  have "doy = 365 \<longrightarrow> c = 3 \<and> (b = 24 \<longrightarrow> a = 3)" using doy(3) rb(1) r(3) by auto
  moreover have "doe = 36524 * a + 1461 * b + 365 * c + doy" using rb(1) by (simp add: doy_def r_def)
  ultimately show thesis using that a b c doy by blast
qed

lemma month_coordinates:
  fixes doy :: int
  assumes "0 \<le> doy" and "doy \<le> 365"
  obtains mp d where "0 \<le> mp" "mp \<le> 11" "1 \<le> d"
    and "d \<le> (if mp \<in> {1, 3, 6, 8} then 30 else if mp = 11 then 29 else 31)"
    and "doy = (153 * mp + 2) div 5 + d - 1"
proof -
  define mp where "mp = (5 * doy + 2) div 153"
  define d where "d = doy - (153 * mp + 2) div 5 + 1"
  have q: "153 * mp \<le> 5 * doy + 2" "5 * doy + 2 < 153 * mp + 153" by (simp_all add: mp_def)
  with assms have mp: "0 \<le> mp" "mp \<le> 11" by linarith+
  then have "mp = 0 \<or> mp = 1 \<or> mp = 2 \<or> mp = 3 \<or> mp = 4 \<or> mp = 5 \<or> mp = 6 \<or> mp = 7 \<or> mp = 8 \<or> mp = 9 \<or> mp = 10 \<or> mp = 11"
    by presburger
  then have "1 \<le> d" "d \<le> (if mp \<in> {1, 3, 6, 8} then 30 else if mp = 11 then 29 else 31)"
    using q assms unfolding d_def by (elim disjE; simp)+
  moreover have "doy = (153 * mp + 2) div 5 + d - 1" by (simp add: d_def)
  ultimately show thesis using that mp by blast
qed

lemma date_of_epoch_days:
  obtains y m d where "valid_date y m d" and "date_to_epoch_days y m d = z"
proof -
  define era doe where "era = (z + 719468) div 146097" and "doe = (z + 719468) mod 146097"
  have z: "z = era * 146097 + doe - 719468" by (simp add: era_def doe_def)
  have "0 \<le> doe" "doe \<le> 146096" by (simp_all add: doe_def)
  then obtain a b c doy where abc: "0 \<le> a" "a \<le> 3" "0 \<le> b" "b \<le> 24" "0 \<le> c" "c \<le> 3" and doy: "0 \<le> doy" "doy \<le> 365"
    and leap: "doy = 365 \<longrightarrow> c = 3 \<and> (b = 24 \<longrightarrow> a = 3)" and doe: "doe = 36524 * a + 1461 * b + 365 * c + doy"
    using day_coordinates by metis
  obtain mp d where mp: "0 \<le> mp" "mp \<le> 11" "1 \<le> d"
    "d \<le> (if mp \<in> {1, 3, 6, 8} then 30 else if mp = 11 then 29 else 31)" and mpd: "doy = (153 * mp + 2) div 5 + d - 1"
    using month_coordinates [OF doy] .
  define yoe where "yoe = 100 * a + 4 * b + c"
  define m where "m = (if mp < 10 then mp + 3 else mp - 9)"
  define y where "y = (if m \<le> 2 then era * 400 + yoe + 1 else era * 400 + yoe)"
  have mm: "march_month m = mp" "march_year y m = era * 400 + yoe"
    using mp by (auto simp: m_def march_month_def march_year_def y_def)
  have "mp = 11 \<and> d = 29 \<longrightarrow> is_leap (era * 400 + yoe + 1)"
    using leap month_of_year(5) [OF mp] mpd leap_coordinates [OF abc, of era] by (auto simp: yoe_def algebra_simps)
  then have "valid_date y m d"
    using mp by (auto simp: valid_date_def days_in_month_def m_def y_def split: if_splits)
  moreover have yoe: "0 \<le> yoe" "yoe \<le> 399" using abc by (simp_all add: yoe_def)
  then have "march_year y m div 400 = era" "march_year y m mod 400 = yoe" by (simp_all add: mm)
  moreover have "yoe div 4 = 25 * a + b" "yoe div 100 = a" using abc by (simp_all add: yoe_def)
  ultimately have "date_to_epoch_days y m d = z"
    by (simp add: date_to_epoch_days_eq Let_def mm(1) mpd [symmetric] z doe yoe_def)
  with \<open>valid_date y m d\<close> that show thesis by blast
qed

lemma date_to_epoch_days_epoch_days:
  "case epoch_days_to_date z of (y, m, d) \<Rightarrow> valid_date y m d \<and> date_to_epoch_days y m d = z"
proof -
  obtain y m d where "valid_date y m d" "date_to_epoch_days y m d = z" using date_of_epoch_days .
  with epoch_days_of_date show ?thesis by auto
qed

end
