(* ===== verification/Time_Text.thy ===== *)
theory Time_Text
  imports Text Calendar
begin

unbundle bit_operations_syntax

text \<open>
  Parsing and formatting of timestamps, dates and times of day (\<^verbatim>\<open>src/timeparse.rs\<close>), as bytes.
  \<^const>\<open>None\<close> is the panic of an out-of-range slice in the timestamp parser, and the \<^verbatim>\<open>Err\<close> of the
  time-of-day parser. No intermediate value of the timestamp parser leaves its machine type (four
  digit positions give a year below 300000), so they are integers until the final \<^verbatim>\<open>i64\<close>.
\<close>

section \<open>Shared helpers\<close>

text \<open>\<^verbatim>\<open>str::trim\<close>: the UTF-8 encodings of the characters with the \<^verbatim>\<open>White_Space\<close> property.\<close>

definition white_space :: "bytes list" where
  "white_space =
     [[0x20], [0x09], [0x0A], [0x0B], [0x0C], [0x0D], [0xC2, 0x85], [0xC2, 0xA0], [0xE1, 0x9A, 0x80],
      [0xE2, 0x80, 0xA8], [0xE2, 0x80, 0xA9], [0xE2, 0x80, 0xAF], [0xE2, 0x81, 0x9F], [0xE3, 0x80, 0x80]]
     @ map (\<lambda>i. [0xE2, 0x80, 0x80 + word_of_nat i]) [0..<11]"

fun strip_ws :: "bytes list \<Rightarrow> nat \<Rightarrow> bytes \<Rightarrow> bytes" where
  "strip_ws ws 0 s = s"
| "strip_ws ws (Suc n) s =
     (case find (\<lambda>w. take (length w) s = w) ws of
        None \<Rightarrow> s
      | Some w \<Rightarrow> strip_ws ws n (drop (length w) s))"

definition trim :: "bytes \<Rightarrow> bytes" where
  "trim s = (let s1 = strip_ws white_space (length s) s
             in rev (strip_ws (map rev white_space) (length s1) (rev s1)))"

text \<open>\<^verbatim>\<open>parse_int_fast\<close>: no digit check; a byte below \<^verbatim>\<open>'0'\<close> wraps, as \<^const>\<open>digit_val\<close> does.\<close>

definition parse_int_fast :: "bytes \<Rightarrow> int" where
  "parse_int_fast bs = int (digits_val 0 bs)"

section \<open>Parsing a timestamp\<close>

definition parse_date_part :: "bytes \<Rightarrow> (int \<times> int \<times> int) option" where
  "parse_date_part s = do {
     y \<leftarrow> slice s 0 4;
     m \<leftarrow> slice s 5 7;
     d \<leftarrow> slice s 8 10;
     Some (parse_int_fast y, parse_int_fast m, parse_int_fast d)
   }"

definition find_tz_split :: "bytes \<Rightarrow> bytes \<times> bytes option" where
  "find_tz_split s =
     (let i = (if 8 < length s \<and> s ! 8 = 0x2E then 9 + length (takeWhile is_digit (drop 9 s)) else 8)
      in if i < length s \<and> (s ! i = 0x2B \<or> s ! i = 0x2D) then (take i s, Some (drop i s)) else (s, None))"

definition parse_fractional_usec :: "bytes \<Rightarrow> int" where
  "parse_fractional_usec digits =
     (let buf = take 6 digits @ replicate (6 - length digits) 0x30
      in int (digits_val 0 buf))"

definition parse_time_part :: "bytes \<Rightarrow> int option" where
  "parse_time_part s = do {
     h \<leftarrow> slice s 0 2;
     m \<leftarrow> slice s 3 5;
     sec \<leftarrow> slice s 6 8;
     let frac_usec = (if 8 < length s \<and> s ! 8 = 0x2E then parse_fractional_usec (drop 9 s) else 0);
     Some (parse_int_fast h * 3600000000 + parse_int_fast m * 60000000 + parse_int_fast sec * 1000000 + frac_usec)
   }"

definition parse_tz_offset :: "bytes \<Rightarrow> int option" where
  "parse_tz_offset s = do {
     b \<leftarrow> index s 0;
     let sign = (if b = 0x2D then - 1 else 1);
     let rest = drop 1 s;
     h \<leftarrow> slice rest 0 2;
     let minutes =
       (if 5 \<le> length rest \<and> rest ! 2 = 0x3A then parse_int_fast (take 2 (drop 3 rest))
        else if 4 \<le> length rest \<and> rest ! 2 \<noteq> 0x3A then parse_int_fast (take 2 (drop 2 rest))
        else 0);
     Some (sign * (parse_int_fast h * 3600000000 + minutes * 60000000))
   }"

definition parse_time_and_tz :: "bytes \<Rightarrow> (int \<times> int) option" where
  "parse_time_and_tz s =
     (let (time_str, tz_str) = find_tz_split s
      in do {
        time_usec \<leftarrow> parse_time_part time_str;
        tz_offset_usec \<leftarrow> (case tz_str of Some tz \<Rightarrow> parse_tz_offset tz | None \<Rightarrow> Some 0);
        Some (time_usec, tz_offset_usec)
      })"

definition parse_timestamp_to_usec :: "bytes \<Rightarrow> i64 option" where
  "parse_timestamp_to_usec s0 =
     (let s = trim s0;
          split_pos = (case position (\<lambda>c. c = 0x20) s of
                         Some p \<Rightarrow> Some p
                       | None \<Rightarrow> if 10 < length s \<and> s ! 10 = 0x54 then Some 10 else None);
          (date_part, time_tz) = (case split_pos of
                                    Some pos \<Rightarrow> (take pos s, Some (drop (pos + 1) s))
                                  | None \<Rightarrow> (s, None))
      in do {
        (year, month, day) \<leftarrow> parse_date_part date_part;
        let days = date_to_epoch_days year month day;
        (time_usec, tz_offset_usec) \<leftarrow>
          (case time_tz of Some t \<Rightarrow> parse_time_and_tz t | None \<Rightarrow> Some (0, 0));
        Some (word_of_int (days * 86400 * 1000000 + time_usec - tz_offset_usec))
      })"

section \<open>Formatting\<close>

text \<open>\<^verbatim>\<open>{:0w}\<close> of a signed integer: the sign counts in the width.\<close>

definition fmt0 :: "nat \<Rightarrow> int \<Rightarrow> bytes" where
  "fmt0 w i = (if i < 0 then 0x2D # pad_zeros (w - 1) (dec (nat (- i))) else pad_zeros w (dec (nat i)))"

definition trim_end_zeros :: "bytes \<Rightarrow> bytes" where
  "trim_end_zeros s = rev (dropWhile (\<lambda>c. c = 0x30) (rev s))"

definition date_text :: "int \<times> int \<times> int \<Rightarrow> bytes" where
  "date_text ymd = (case ymd of (y, m, d) \<Rightarrow> fmt0 4 y @ [0x2D] @ fmt0 2 m @ [0x2D] @ fmt0 2 d)"

definition clock_text :: "int \<Rightarrow> int \<Rightarrow> int \<Rightarrow> bytes" where
  "clock_text h m s = fmt0 2 h @ [0x3A] @ fmt0 2 m @ [0x3A] @ fmt0 2 s"

definition frac_text :: "int \<Rightarrow> bytes" where
  "frac_text frac_usec = (if 0 < frac_usec then 0x2E # trim_end_zeros (fmt0 6 frac_usec) else [])"

definition usec_to_timestamp_string :: "i64 \<Rightarrow> bytes" where
  "usec_to_timestamp_string usec =
     (let (negative, abs_usec) = (if sint usec < 0 then (True, uint (- usec)) else (False, uint usec));
          total_secs = abs_usec div 1000000;
          frac_usec = abs_usec mod 1000000;
          (total_secs, frac_usec) =
            (if negative
             then if 0 < frac_usec then (- (total_secs + 1), 1000000 - frac_usec) else (- total_secs, 0)
             else (total_secs, frac_usec));
          day_secs = total_secs mod 86400;
          days = (total_secs - day_secs) sdiv 86400;
          hours = day_secs div 3600;
          minutes = (day_secs mod 3600) div 60;
          seconds = day_secs mod 60
      in date_text (epoch_days_to_date days) @ [0x20] @ clock_text hours minutes seconds
         @ frac_text frac_usec @ [0x2B, 0x30, 0x30])"

definition usec_to_date_string :: "i64 \<Rightarrow> bytes" where
  "usec_to_date_string usec =
     (let total_secs = (if 0 \<le> sint usec then sint usec sdiv 1000000 else sint (usec - 999999) sdiv 1000000);
          days = (if 0 \<le> total_secs then total_secs sdiv 86400 else (total_secs - 86399) sdiv 86400)
      in date_text (epoch_days_to_date days))"

definition usec_to_time_string :: "i64 \<Rightarrow> bytes" where
  "usec_to_time_string usec =
     (let total_secs = sint usec sdiv 1000000;
          frac_usec = sint usec smod 1000000;
          hours = total_secs sdiv 3600;
          minutes = (total_secs smod 3600) sdiv 60;
          seconds = total_secs smod 60
      in clock_text hours minutes seconds @ frac_text frac_usec)"

section \<open>Parsing a time of day\<close>

text \<open>\<^verbatim>\<open>split_once(c)\<close>, and \<^verbatim>\<open>parse::<i64>()\<close>: an optional sign and at least one digit, in range.\<close>

definition split_once :: "u8 \<Rightarrow> bytes \<Rightarrow> (bytes \<times> bytes) option" where
  "split_once c s = map_option (\<lambda>p. (take p s, drop (p + 1) s)) (position (\<lambda>b. b = c) s)"

definition parse_i64 :: "bytes \<Rightarrow> int option" where
  "parse_i64 s =
     (let (neg, digits) = (case s of [] \<Rightarrow> (False, [])
                           | c # cs \<Rightarrow> if c = 0x2D then (True, cs) else if c = 0x2B then (False, cs) else (False, s));
          v = (if neg then - int (digits_val 0 digits) else int (digits_val 0 digits))
      in if digits \<noteq> [] \<and> list_all is_digit digits \<and> - (2 ^ 63) \<le> v \<and> v < 2 ^ 63 then Some v else None)"

text \<open>The first six digits of the fraction, right-padded with zeros; every character must be a digit.\<close>

fun frac_loop :: "bytes \<Rightarrow> int \<Rightarrow> nat \<Rightarrow> (int \<times> nat) option" where
  "frac_loop [] usec digits = Some (usec, digits)"
| "frac_loop (c # cs) usec digits =
     (if is_digit c
      then if digits < 6 then frac_loop cs (usec * 10 + int (digit_val c)) (digits + 1)
           else frac_loop cs usec digits
      else None)"

definition parse_time_to_usec :: "bytes \<Rightarrow> i64 option" where
  "parse_time_to_usec s0 =
     (let s = trim s0;
          (p1, rest1) = (case split_once 0x3A s of None \<Rightarrow> (s, None) | Some (a, b) \<Rightarrow> (a, Some b))
      in do {
        hours \<leftarrow> parse_i64 p1;
        r1 \<leftarrow> rest1;
        let (p2, rest2) = (case split_once 0x3A r1 of None \<Rightarrow> (r1, None) | Some (a, b) \<Rightarrow> (a, Some b));
        minutes \<leftarrow> parse_i64 p2;
        (seconds, frac_usec) \<leftarrow>
          (case rest2 of
             None \<Rightarrow> Some (0, 0)
           | Some sec_part \<Rightarrow>
               (case split_once 0x2E sec_part of
                  None \<Rightarrow> map_option (\<lambda>v. (v, 0)) (parse_i64 sec_part)
                | Some (sec, frac) \<Rightarrow> do {
                    v \<leftarrow> parse_i64 sec;
                    (usec, digits) \<leftarrow> frac_loop frac 0 0;
                    Some (v, usec * 10 ^ (6 - digits))
                  }));
        if \<not> (0 \<le> hours \<and> hours \<le> 24) \<or> \<not> (0 \<le> minutes \<and> minutes < 60) \<or> \<not> (0 \<le> seconds \<and> seconds < 61)
           \<or> (hours = 24 \<and> (minutes \<noteq> 0 \<or> seconds \<noteq> 0 \<or> frac_usec \<noteq> 0))
        then None
        else Some (word_of_int ((hours * 3600 + minutes * 60 + seconds) * 1000000 + frac_usec))
      })"

section \<open>Reading back what was formatted\<close>

lemma fmt0_text:
  assumes "0 \<le> i" and "i < 10 ^ w" and "0 < w"
  shows "length (fmt0 w i) = w" and "\<forall>c \<in> set (fmt0 w i). is_digit c" and "digits_val 0 (fmt0 w i) = nat i"
proof -
  have f: "fmt0 w i = pad_zeros w (dec (nat i))" using assms(1) by (simp add: fmt0_def)
  have "nat i < 10 ^ w" using assms(1,2) by (simp add: nat_less_iff)
  then have "length (dec (nat i)) \<le> w" using assms(3) by (rule length_dec_le)
  then show "length (fmt0 w i) = w" by (simp add: f length_pad_zeros)
  show "\<forall>c \<in> set (fmt0 w i). is_digit c" by (simp add: f pad_zeros_is_digits)
  show "digits_val 0 (fmt0 w i) = nat i" by (simp add: f digits_val_pad_zeros)
qed

lemma parse_fmt0: "0 \<le> i \<Longrightarrow> i < 10 ^ w \<Longrightarrow> 0 < w \<Longrightarrow> parse_int_fast (fmt0 w i) = i"
  by (simp add: parse_int_fast_def fmt0_text)

lemma strip_ws_id:
  assumes "\<forall>w \<in> set ws. w \<noteq> [] \<and> \<not> is_digit (hd w)" and "is_digit c"
  shows "strip_ws ws n (c # cs) = c # cs"
proof -
  have "find (\<lambda>w. take (length w) (c # cs) = w) ws = None"
    unfolding find_None_iff
  proof
    assume "\<exists>w. w \<in> set ws \<and> take (length w) (c # cs) = w"
    then obtain w where "w \<in> set ws" "take (length w) (c # cs) = w" by blast
    with assms show False by (cases w) auto
  qed
  then show ?thesis by (cases n) simp_all
qed

lemma white_space_no_digit: "\<forall>w \<in> set white_space. w \<noteq> [] \<and> \<not> is_digit (hd w)"
  by (simp add: white_space_def is_digit_def)

lemma white_space_no_last_digit: "\<forall>w \<in> set (map rev white_space). w \<noteq> [] \<and> \<not> is_digit (hd w)"
  by (simp add: white_space_def is_digit_def upt_rec)

lemma trim_id:
  assumes "is_digit c" and "is_digit e" and "s = c # cs" and "s = ds @ [e]"
  shows "trim s = s"
proof -
  have "strip_ws white_space (length s) s = s"
    unfolding assms(3) by (rule strip_ws_id [OF white_space_no_digit assms(1)])
  moreover have "rev s = e # rev ds" using assms(4) by simp
  then have "strip_ws (map rev white_space) (length s) (rev s) = rev s"
    by (simp only: strip_ws_id [OF white_space_no_last_digit assms(2)])
  ultimately show ?thesis by (simp add: trim_def)
qed

lemma position_append:
  "\<forall>x \<in> set xs. \<not> p x \<Longrightarrow> p y \<Longrightarrow> position p (xs @ y # ys) = Some (length xs)"
  by (induction xs) auto

lemma digits_ne: "\<forall>c \<in> set s. is_digit c \<Longrightarrow> \<not> is_digit b \<Longrightarrow> \<forall>c \<in> set s. c \<noteq> b"
  by blast

lemma not_digit_bytes: "\<not> is_digit 0x20" "\<not> is_digit 0x2B" "\<not> is_digit 0x2D" "\<not> is_digit 0x2E" "\<not> is_digit 0x3A"
  by (simp_all add: is_digit_def)

lemma trim_end_zeros_pad:
  "trim_end_zeros s @ replicate (length s - length (trim_end_zeros s)) 0x30 = s"
proof -
  have "takeWhile (\<lambda>c. c = 0x30) xs = replicate (length (takeWhile (\<lambda>c. c = 0x30) xs)) 0x30" for xs :: bytes
    by (rule sym, rule replicate_length_same) (auto dest: set_takeWhileD)
  then have tw: "rev (takeWhile (\<lambda>c. c = 0x30) (rev s)) = replicate (length (takeWhile (\<lambda>c. c = 0x30) (rev s))) 0x30"
    by (metis rev_replicate)
  have s: "s = trim_end_zeros s @ rev (takeWhile (\<lambda>c. c = 0x30) (rev s))"
    unfolding trim_end_zeros_def by (metis rev_append rev_rev_ident takeWhile_dropWhile_id)
  then have "length s - length (trim_end_zeros s) = length (takeWhile (\<lambda>c. c = 0x30) (rev s))"
    by (metis add_diff_cancel_left' length_append length_rev)
  with tw s show ?thesis by metis
qed

lemma frac_digits:
  assumes "0 < f" and "f < 1000000"
  defines "fd \<equiv> trim_end_zeros (fmt0 6 f)"
  shows "\<forall>c \<in> set fd. is_digit c" and "length fd \<le> 6" and "parse_fractional_usec fd = f" and "fd \<noteq> []"
proof -
  have t: "length (fmt0 6 f) = 6" "\<forall>c \<in> set (fmt0 6 f). is_digit c" "digits_val 0 (fmt0 6 f) = nat f"
    using fmt0_text [of f 6] assms(1,2) by simp_all
  have pad: "fd @ replicate (6 - length fd) 0x30 = fmt0 6 f"
    using trim_end_zeros_pad [of "fmt0 6 f"] t(1) by (simp add: fd_def)
  show "\<forall>c \<in> set fd. is_digit c" using t(2) pad by (metis Un_iff set_append)
  show len: "length fd \<le> 6" using t(1) pad by (metis le_add1 length_append)
  show "parse_fractional_usec fd = f"
    using pad t(3) len assms(1) by (simp add: parse_fractional_usec_def)
  show "fd \<noteq> []"
  proof
    assume "fd = []"
    then have "digits_val 0 (replicate 6 0x30) = nat f" using pad t(3) by simp
    then show False using assms(1) by (simp add: numeral_eq_Suc digit_val_def)
  qed
qed

text \<open>Seconds and microseconds of an instant, by floor division.\<close>

lemma split_usec:
  fixes u :: i64
  defines "U \<equiv> sint u"
  shows "(let (negative, abs_usec) = (if sint u < 0 then (True, uint (- u)) else (False, uint u));
              total_secs = abs_usec div 1000000; frac_usec = abs_usec mod 1000000
          in if negative
             then if 0 < frac_usec then (- (total_secs + 1), 1000000 - frac_usec) else (- total_secs, 0)
             else (total_secs, frac_usec))
    = (U div 1000000, U mod 1000000)"
proof (cases "U < 0")
  case False
  then have "uint u = U" by (simp add: U_def uint_sint_nonneg)
  with False show ?thesis by (simp add: U_def)
next
  case True
  have "uint (- u) = - U" using True uint_minus_sint [of u] by (simp add: U_def)
  moreover have "- U div 1000000 = (if U mod 1000000 = 0 then - (U div 1000000) else - (U div 1000000) - 1)"
    by (simp add: zdiv_zminus1_eq_if)
  moreover have "- U mod 1000000 = (if U mod 1000000 = 0 then 0 else 1000000 - U mod 1000000)"
    by (simp add: zmod_zminus1_eq_if)
  moreover have "0 \<le> U mod 1000000" "U mod 1000000 < 1000000" by simp_all
  ultimately show ?thesis using True by (auto simp: U_def Let_def)
qed

lemma exact_sdiv: "(t - t mod 86400) sdiv 86400 = t div (86400 :: int)"
proof -
  have "t - t mod 86400 = 86400 * (t div 86400)" by (simp add: minus_mod_eq_mult_div)
  then show ?thesis by (simp add: signed_divide_int_def sgn_mult abs_mult) (auto simp: sgn_if)
qed

definition in_four_digit_years :: "int \<Rightarrow> bool" where
  "in_four_digit_years days \<longleftrightarrow> (case epoch_days_to_date days of (y, m, d) \<Rightarrow> 0 \<le> y \<and> y \<le> 9999)"

lemma date_text_shape:
  assumes "in_four_digit_years days"
  obtains y m d Y M D where "epoch_days_to_date days = (y, m, d)" and "date_to_epoch_days y m d = days"
    and "date_text (y, m, d) = Y @ [0x2D] @ M @ [0x2D] @ D"
    and "length Y = 4" "length M = 2" "length D = 2"
    and "\<forall>c \<in> set Y \<union> set M \<union> set D. is_digit c"
    and "parse_int_fast Y = y" "parse_int_fast M = m" "parse_int_fast D = d"
proof -
  obtain y m d where ymd: "epoch_days_to_date days = (y, m, d)" by (metis surj_pair)
  with date_to_epoch_days_epoch_days [of days] have v: "valid_date y m d" "date_to_epoch_days y m d = days" by simp_all
  have "0 \<le> y" "y < 10 ^ 4" using assms ymd by (simp_all add: in_four_digit_years_def)
  moreover have "0 \<le> m" "m < 10 ^ 2" "0 \<le> d" "d < 10 ^ 2"
    using v(1) by (auto simp: valid_date_def days_in_month_def split: if_splits)
  ultimately show thesis
    using that [OF ymd v(2), of "fmt0 4 y" "fmt0 2 m" "fmt0 2 d"] fmt0_text [of y 4] fmt0_text [of m 2] fmt0_text [of d 2]
      parse_fmt0 by (auto simp: date_text_def)
qed

lemma parse_date_text:
  assumes "length Y = 4" "length M = 2" "length D = 2"
  shows "parse_date_part (Y @ [0x2D] @ M @ [0x2D] @ D) = Some (parse_int_fast Y, parse_int_fast M, parse_int_fast D)"
proof -
  have "slice (Y @ [0x2D] @ M @ [0x2D] @ D) 0 4 = Some Y" using assms by simp
  moreover have "slice ((Y @ [0x2D]) @ M @ [0x2D] @ D) 5 (5 + 2) = Some M" using assms by (intro slice_middle) simp_all
  moreover have "slice ((Y @ [0x2D] @ M @ [0x2D]) @ D @ []) 8 (8 + 2) = Some D" using assms by (intro slice_middle) simp_all
  ultimately show ?thesis by (simp add: parse_date_part_def)
qed

lemma clock_text_shape:
  assumes "0 \<le> h" "h < 100" "0 \<le> m" "m < 100" "0 \<le> s" "s < 100"
  obtains H M S where "clock_text h m s = H @ [0x3A] @ M @ [0x3A] @ S" and "length H = 2" "length M = 2" "length S = 2"
    and "\<forall>c \<in> set H \<union> set M \<union> set S. is_digit c"
    and "parse_int_fast H = h" "parse_int_fast M = m" "parse_int_fast S = s"
  using that [of "fmt0 2 h" "fmt0 2 m" "fmt0 2 s"] assms fmt0_text [of h 2] fmt0_text [of m 2] fmt0_text [of s 2] parse_fmt0
  by (auto simp: clock_text_def)

lemma parse_clock_text:
  assumes "length H = 2" "length M = 2" "length S = 2"
  shows "parse_time_part (H @ [0x3A] @ M @ [0x3A] @ S @ rest)
    = Some (parse_int_fast H * 3600000000 + parse_int_fast M * 60000000 + parse_int_fast S * 1000000
            + (case rest of [] \<Rightarrow> 0 | c # cs \<Rightarrow> if c = 0x2E then parse_fractional_usec cs else 0))"
proof -
  let ?t = "H @ [0x3A] @ M @ [0x3A] @ S @ rest"
  have "slice ?t 0 2 = Some H" using assms by simp
  moreover have "slice ((H @ [0x3A]) @ M @ [0x3A] @ S @ rest) 3 (3 + 2) = Some M" using assms by (intro slice_middle) simp_all
  moreover have "slice ((H @ [0x3A] @ M @ [0x3A]) @ S @ rest) 6 (6 + 2) = Some S" using assms by (intro slice_middle) simp_all
  moreover have "?t ! 8 = rest ! 0" "drop 9 ?t = drop 1 rest" "8 < length ?t \<longleftrightarrow> rest \<noteq> []"
    using assms by (simp_all add: nth_append nth_Cons')
  ultimately show ?thesis using assms by (cases rest) (simp_all add: parse_time_part_def)
qed

lemma parse_clock_utc:
  assumes "0 \<le> h" "h < 100" "0 \<le> m" "m < 100" "0 \<le> s" "s < 100" "0 \<le> f" "f < 1000000"
  shows "parse_time_and_tz (clock_text h m s @ frac_text f @ [0x2B, 0x30, 0x30])
    = Some (h * 3600000000 + m * 60000000 + s * 1000000 + f, 0)"
proof -
  obtain H M S where c: "clock_text h m s = H @ [0x3A] @ M @ [0x3A] @ S" "length H = 2" "length M = 2" "length S = 2"
    "parse_int_fast H = h" "parse_int_fast M = m" "parse_int_fast S = s"
    using clock_text_shape [OF assms(1-6)] by metis
  have len: "length (clock_text h m s) = 8" using c by simp
  let ?t = "clock_text h m s @ frac_text f @ [0x2B, 0x30, 0x30]"
  have "find_tz_split ?t = (clock_text h m s @ frac_text f, Some [0x2B, 0x30, 0x30])"
  proof (cases "0 < f")
    case True
    note fd = frac_digits [OF True assms(8)]
    let ?fd = "trim_end_zeros (fmt0 6 f)"
    have ft: "frac_text f = 0x2E # ?fd" using True by (simp add: frac_text_def)
    have "takeWhile is_digit (drop 9 ?t) = ?fd"
      using fd(1) len not_digit_bytes by (simp add: ft takeWhile_append2)
    moreover have "?t ! 8 = 0x2E" "?t ! (9 + length ?fd) = 0x2B" using len by (simp_all add: ft nth_append)
    moreover have "8 < length ?t" "9 + length ?fd < length ?t" using len by (simp_all add: ft)
    ultimately show ?thesis using len by (simp add: find_tz_split_def Let_def ft)
  next
    case False
    then have "frac_text f = []" by (simp add: frac_text_def)
    then show ?thesis using len by (simp add: find_tz_split_def nth_append)
  qed
  moreover have "parse_tz_offset [0x2B, 0x30, 0x30] = Some 0"
    by (simp add: parse_tz_offset_def parse_int_fast_def digit_val_def slice_def)
  moreover have "parse_time_part (clock_text h m s @ frac_text f) = Some (h * 3600000000 + m * 60000000 + s * 1000000 + f)"
    using parse_clock_text [OF c(2-4), of "frac_text f"] c frac_digits(3) [OF _ assms(8)] assms(7)
    by (cases "0 < f") (simp_all add: frac_text_def)
  ultimately show ?thesis by (simp add: parse_time_and_tz_def)
qed

lemma parse_timestamp_text:
  assumes "in_four_digit_years days" and "0 \<le> h" "h < 100" "0 \<le> m" "m < 100" "0 \<le> s" "s < 100" "0 \<le> f" "f < 1000000"
  shows "parse_timestamp_to_usec (date_text (epoch_days_to_date days) @ [0x20] @ clock_text h m s @ frac_text f @ [0x2B, 0x30, 0x30])
    = Some (word_of_int (days * 86400 * 1000000 + (h * 3600000000 + m * 60000000 + s * 1000000 + f)))"
proof -
  obtain y mo d Y M D where ymd: "epoch_days_to_date days = (y, mo, d)" "date_to_epoch_days y mo d = days"
    "date_text (y, mo, d) = Y @ [0x2D] @ M @ [0x2D] @ D" "length Y = 4" "length M = 2" "length D = 2"
    "\<forall>c \<in> set Y \<union> set M \<union> set D. is_digit c"
    "parse_int_fast Y = y" "parse_int_fast M = mo" "parse_int_fast D = d"
    using date_text_shape [OF assms(1)] by metis
  let ?d = "Y @ [0x2D] @ M @ [0x2D] @ D" and ?t = "clock_text h m s @ frac_text f @ [0x2B, 0x30, 0x30]"
  let ?s = "?d @ [0x20] @ ?t"
  obtain c Y' where Y: "Y = c # Y'" using ymd(4) by (cases Y) auto
  have "trim ?s = ?s"
  proof (rule trim_id)
    show "is_digit c" using ymd(7) Y by simp
    show "is_digit 0x30" by (simp add: is_digit_def)
    show "?s = c # Y' @ [0x2D] @ M @ [0x2D] @ D @ [0x20] @ ?t" using Y by simp
    show "?s = (?d @ [0x20] @ clock_text h m s @ frac_text f @ [0x2B, 0x30]) @ [0x30]" by simp
  qed
  moreover have "position (\<lambda>c. c = 0x20) ?s = Some 10"
  proof -
    have "\<forall>x \<in> set ?d. x \<noteq> 0x20" using ymd(7) not_digit_bytes(1) by auto
    then show ?thesis using position_append [where p = "\<lambda>c. c = 0x20" and xs = ?d and y = "0x20" and ys = ?t] ymd(4-6) by simp
  qed
  moreover have "take 10 ?s = ?d" "drop 11 ?s = ?t" using ymd(4-6) by simp_all
  ultimately have "parse_timestamp_to_usec ?s
      = Some (word_of_int (days * 86400 * 1000000 + (h * 3600000000 + m * 60000000 + s * 1000000 + f) - 0))"
    using parse_date_text [OF ymd(4-6)] ymd(2,8-10) parse_clock_utc [OF assms(2-9)]
    by (simp only: parse_timestamp_to_usec_def Let_def) (simp add: Let_def)
  then show ?thesis using ymd(1,3) by simp
qed

lemma usec_to_timestamp_string_eq:
  fixes u :: i64
  defines "U \<equiv> sint u"
  defines "t \<equiv> U div 1000000"
  shows "usec_to_timestamp_string u = date_text (epoch_days_to_date (t div 86400)) @ [0x20]
    @ clock_text (t mod 86400 div 3600) (t mod 86400 mod 3600 div 60) (t mod 86400 mod 60)
    @ frac_text (U mod 1000000) @ [0x2B, 0x30, 0x30]"
proof -
  have "usec_to_timestamp_string u =
    (case (let (negative, abs_usec) = (if sint u < 0 then (True, uint (- u)) else (False, uint u));
              total_secs = abs_usec div 1000000; frac_usec = abs_usec mod 1000000
          in if negative
             then if 0 < frac_usec then (- (total_secs + 1), 1000000 - frac_usec) else (- total_secs, 0)
             else (total_secs, frac_usec)) of (total_secs, frac_usec) \<Rightarrow>
       let day_secs = total_secs mod 86400; days = (total_secs - day_secs) sdiv 86400
       in date_text (epoch_days_to_date days) @ [0x20]
          @ clock_text (day_secs div 3600) (day_secs mod 3600 div 60) (day_secs mod 60)
          @ frac_text frac_usec @ [0x2B, 0x30, 0x30])"
    by (auto simp: usec_to_timestamp_string_def Let_def split: if_splits)
  then show ?thesis
    unfolding split_usec by (simp only: prod.case Let_def exact_sdiv U_def t_def)
qed

lemma parse_usec_to_timestamp_string [roundtrips]:
  assumes "in_four_digit_years (sint u div 1000000 div 86400)"
  shows "parse_timestamp_to_usec (usec_to_timestamp_string u) = Some u"
proof -
  define t where "t = sint u div 1000000"
  let ?D = "t mod 86400"
  have d: "0 \<le> ?D" "?D < 86400" by simp_all
  have split: "?D = ?D div 3600 * 3600 + ?D mod 3600 div 60 * 60 + ?D mod 60"
  proof -
    have "?D mod 3600 mod 60 = ?D mod 60" by (rule mod_mod_cancel) simp
    moreover have "?D = ?D div 3600 * 3600 + ?D mod 3600" by simp
    moreover have "?D mod 3600 = ?D mod 3600 div 60 * 60 + ?D mod 3600 mod 60" by (rule div_mult_mod_eq [symmetric])
    ultimately show ?thesis by linarith
  qed
  have hi: "?D div 3600 < 100" "?D mod 3600 div 60 < 100" "?D mod 60 < 100" using d by linarith+
  have lo: "0 \<le> ?D div 3600" "0 \<le> ?D mod 3600 div 60" "0 \<le> ?D mod 60" by simp_all
  have f: "0 \<le> sint u mod 1000000" "sint u mod 1000000 < 1000000" by simp_all
  have "parse_timestamp_to_usec (usec_to_timestamp_string u)
    = Some (word_of_int (t div 86400 * 86400 * 1000000
        + (?D div 3600 * 3600000000 + ?D mod 3600 div 60 * 60000000 + ?D mod 60 * 1000000 + sint u mod 1000000)))"
    unfolding usec_to_timestamp_string_eq t_def [symmetric]
    by (rule parse_timestamp_text [OF assms [folded t_def] lo(1) hi(1) lo(2) hi(2) lo(3) hi(3) f])
  also have "t div 86400 * 86400 * 1000000
        + (?D div 3600 * 3600000000 + ?D mod 3600 div 60 * 60000000 + ?D mod 60 * 1000000 + sint u mod 1000000) = sint u"
  proof -
    have "t = t div 86400 * 86400 + ?D" "sint u = t * 1000000 + sint u mod 1000000" by (simp_all add: t_def)
    with split show ?thesis by linarith
  qed
  finally show ?thesis by (simp only: word_of_int_sint)
qed

section \<open>Times of day\<close>

lemma parse_i64_digits:
  assumes "s \<noteq> []" and "\<forall>c \<in> set s. is_digit c" and "length s \<le> 18"
  shows "parse_i64 s = Some (parse_int_fast s)"
proof -
  obtain c cs where s: "s = c # cs" using assms(1) by (cases s) auto
  then have ne: "c \<noteq> 0x2D" "c \<noteq> 0x2B" using assms(2) not_digit_bytes by auto
  have "digits_val 0 s < 10 ^ length s" by (rule digits_val_less [OF assms(2)])
  also have "\<dots> \<le> 10 ^ 18" using assms(3) by (rule power_increasing) simp
  finally have "int (digits_val 0 s) < 2 ^ 63" by simp
  with s ne assms(1,2) show ?thesis
    by (simp add: parse_i64_def list_all_iff parse_int_fast_def)
qed

lemma frac_loop_digits:
  assumes "\<forall>c \<in> set fd. is_digit c" and "n + length fd \<le> 6" and "0 \<le> v"
  shows "frac_loop fd v n = Some (int (digits_val (nat v) fd), n + length fd)"
  using assms
proof (induction fd arbitrary: v n)
  case (Cons c fd)
  have "nat (v * 10 + int (digit_val c)) = nat v * 10 + digit_val c" using Cons.prems(3) by (simp add: nat_add_distrib nat_mult_distrib)
  with Cons show ?case by simp
qed simp

lemma digits_val_pad: "digits_val acc (replicate k 0x30) = acc * 10 ^ k"
  by (induction k arbitrary: acc) (simp_all add: digit_val_def)

lemma split_once_append:
  "\<forall>x \<in> set a. x \<noteq> c \<Longrightarrow> split_once c (a @ [c] @ b) = Some (a, b)"
  using position_append [where p = "\<lambda>x. x = c" and xs = a and y = c and ys = b] by (simp add: split_once_def)

lemma split_once_None: "\<forall>x \<in> set a. x \<noteq> c \<Longrightarrow> split_once c a = None"
  by (simp add: split_once_def position_None)

lemma last_digit_text:
  assumes "\<forall>c \<in> set S. is_digit c" and "S \<noteq> []" and "0 \<le> f" "f < 1000000"
  obtains ds e where "S @ frac_text f = ds @ [e]" and "is_digit e"
proof (cases "0 < f")
  case True
  let ?fd = "trim_end_zeros (fmt0 6 f)"
  have "S @ frac_text f = (S @ [0x2E] @ butlast ?fd) @ [last ?fd]" "is_digit (last ?fd)"
    using frac_digits [OF True assms(4)] True by (simp_all add: frac_text_def)
  with that show thesis by blast
next
  case False
  then have "S @ frac_text f = butlast S @ [last S]" "is_digit (last S)"
    using assms by (simp_all add: frac_text_def)
  with that show thesis by blast
qed

lemma parse_seconds_text:
  assumes "length S = 2" and "\<forall>c \<in> set S. is_digit c" and "0 \<le> f" "f < 1000000"
  shows "(case split_once 0x2E (S @ frac_text f) of
            None \<Rightarrow> map_option (\<lambda>v. (v, 0)) (parse_i64 (S @ frac_text f))
          | Some (sec, frac) \<Rightarrow> do { v \<leftarrow> parse_i64 sec; (usec, digits) \<leftarrow> frac_loop frac 0 0; Some (v, usec * 10 ^ (6 - digits)) })
    = Some (parse_int_fast S, f)"
proof (cases "0 < f")
  case True
  let ?fd = "trim_end_zeros (fmt0 6 f)"
  note fd = frac_digits [OF True assms(4)]
  have "split_once 0x2E (S @ frac_text f) = Some (S, ?fd)"
    using split_once_append [of S "0x2E" ?fd] digits_ne [OF assms(2) not_digit_bytes(4)] True by (simp add: frac_text_def)
  moreover have "frac_loop ?fd 0 0 = Some (int (digits_val 0 ?fd), length ?fd)"
    using frac_loop_digits [OF fd(1), of 0 0] fd(2) by simp
  moreover have "int (digits_val 0 ?fd) * 10 ^ (6 - length ?fd) = f"
    using fd(2,3) by (simp add: parse_fractional_usec_def digits_val_append digits_val_pad)
  moreover have "parse_i64 S = Some (parse_int_fast S)" using assms(1,2) by (intro parse_i64_digits) auto
  ultimately show ?thesis by simp
next
  case False
  then have "frac_text f = []" "f = 0" using assms(3) by (simp_all add: frac_text_def)
  moreover have "parse_i64 S = Some (parse_int_fast S)" using assms(1,2) by (intro parse_i64_digits) auto
  moreover have "split_once 0x2E S = None" using digits_ne [OF assms(2) not_digit_bytes(4)] by (rule split_once_None)
  ultimately show ?thesis by simp
qed

lemma parse_clock_of_day:
  assumes h: "0 \<le> h" "h \<le> 24" and m: "0 \<le> m" "m < 60" and s: "0 \<le> s" "s < 60" and f: "0 \<le> f" "f < 1000000"
    and midnight: "h = 24 \<Longrightarrow> m = 0 \<and> s = 0 \<and> f = 0"
  shows "parse_time_to_usec (clock_text h m s @ frac_text f)
    = Some (word_of_int ((h * 3600 + m * 60 + s) * 1000000 + f))"
proof -
  obtain H M S where c: "clock_text h m s = H @ [0x3A] @ M @ [0x3A] @ S" "length H = 2" "length M = 2" "length S = 2"
    "\<forall>c \<in> set H \<union> set M \<union> set S. is_digit c" "parse_int_fast H = h" "parse_int_fast M = m" "parse_int_fast S = s"
  proof (rule clock_text_shape)
    show "0 \<le> h" "h < 100" "0 \<le> m" "m < 100" "0 \<le> s" "s < 100" using h m s by simp_all
  qed blast
  let ?r2 = "S @ frac_text f" and ?s = "H @ [0x3A] @ M @ [0x3A] @ S @ frac_text f"
  have dg: "\<forall>c \<in> set H. is_digit c" "\<forall>c \<in> set M. is_digit c" "\<forall>c \<in> set S. is_digit c" using c(5) by auto
  obtain ds e where de: "?r2 = ds @ [e]" "is_digit e"
    using last_digit_text [OF dg(3) _ f] c(4) by (metis length_0_conv zero_neq_numeral)
  obtain b H' where H: "H = b # H'" using c(2) by (cases H) auto
  have trim: "trim ?s = ?s"
    by (rule trim_id [of b e _ "H' @ [0x3A] @ M @ [0x3A] @ S @ frac_text f" "H @ [0x3A] @ M @ [0x3A] @ ds"])
       (use H dg(1) de in simp_all)
  have sp: "split_once 0x3A ?s = Some (H, M @ [0x3A] @ ?r2)" "split_once 0x3A (M @ [0x3A] @ ?r2) = Some (M, ?r2)"
    using digits_ne [OF dg(1) not_digit_bytes(5)] digits_ne [OF dg(2) not_digit_bytes(5)]
    by (simp_all only: split_once_append)
  have ints: "parse_i64 H = Some h" "parse_i64 M = Some m"
    using parse_i64_digits [of H] parse_i64_digits [of M] c(2,3,6,7) dg by (cases H; cases M; auto)+
  have ok: "\<not> (\<not> (0 \<le> h \<and> h \<le> 24) \<or> \<not> (0 \<le> m \<and> m < 60) \<or> \<not> (0 \<le> s \<and> s < 61) \<or> (h = 24 \<and> (m \<noteq> 0 \<or> s \<noteq> 0 \<or> f \<noteq> 0)))"
    using h m s midnight by auto
  have "parse_time_to_usec ?s = Some (word_of_int ((h * 3600 + m * 60 + s) * 1000000 + f))"
    unfolding parse_time_to_usec_def Let_def trim
    by (simp only: sp ints option.case prod.case bind.bind_lunit parse_seconds_text [OF c(4) dg(3) f] c(8) ok if_False)
  then show ?thesis using c(1) by simp
qed

lemma parse_usec_to_time_string [roundtrips]:
  assumes "0 \<le> sint u" and "sint u \<le> 86400000000"
  shows "parse_time_to_usec (usec_to_time_string u) = Some u"
proof -
  define t where "t = sint u div 1000000"
  have t: "0 \<le> t" "t \<le> 86400" using assms by (simp_all add: t_def)
  have u: "sint u = t * 1000000 + sint u mod 1000000" by (simp add: t_def)
  have nonneg: "a sdiv b = a div b" "a smod b = a mod b" if "0 \<le> a" "0 < b" for a b :: int
    using that by (simp_all add: signed_divide_int_def signed_modulo_int_def sgn_if minus_div_mult_eq_mod [symmetric])
  have str: "usec_to_time_string u
      = clock_text (t div 3600) (t mod 3600 div 60) (t mod 60) @ frac_text (sint u mod 1000000)"
    using assms(1) t(1) by (simp add: usec_to_time_string_def Let_def nonneg t_def)
  have "t mod 3600 mod 60 = t mod 60" by (rule mod_mod_cancel) simp
  moreover have "t mod 3600 = t mod 3600 div 60 * 60 + t mod 3600 mod 60" by (rule div_mult_mod_eq [symmetric])
  moreover have "t = t div 3600 * 3600 + t mod 3600" by simp
  ultimately have parts: "t = t div 3600 * 3600 + t mod 3600 div 60 * 60 + t mod 60" by linarith
  have "parse_time_to_usec (usec_to_time_string u)
      = Some (word_of_int ((t div 3600 * 3600 + t mod 3600 div 60 * 60 + t mod 60) * 1000000 + sint u mod 1000000))"
    unfolding str
  proof (rule parse_clock_of_day)
    show "0 \<le> t div 3600" "t div 3600 \<le> 24" using t by linarith+
    show "0 \<le> t mod 3600 div 60" "t mod 3600 div 60 < 60" by simp_all
    show "0 \<le> t mod 60" "t mod 60 < 60" by simp_all
    show "0 \<le> sint u mod 1000000" "sint u mod 1000000 < 1000000" by simp_all
    assume "t div 3600 = 24"
    with t have "t = 86400" by linarith
    with u assms(2) have "sint u mod 1000000 \<le> 0" by linarith
    moreover have "0 \<le> sint u mod 1000000" by simp
    ultimately show "t mod 3600 div 60 = 0 \<and> t mod 60 = 0 \<and> sint u mod 1000000 = 0"
      using \<open>t = 86400\<close> by auto
  qed
  also have "(t div 3600 * 3600 + t mod 3600 div 60 * 60 + t mod 60) * 1000000 + sint u mod 1000000 = sint u"
    unfolding parts [symmetric] using u by simp
  finally show ?thesis by (simp only: word_of_int_sint)
qed

end
