(* ===== verification/Minmax.thy ===== *)
theory Minmax
  imports Typed_Column Time_Text
begin

unbundle bit_operations_syntax

text \<open>
  The per-segment minimum and maximum of a column (\<^verbatim>\<open>src/compress.rs\<close>): the order-preserving
  \<^verbatim>\<open>i64\<close> encoding of floats, the reduction over the non-NULL values and the texts written to the
  catalogue. A float is its bit pattern; the comparisons of \<^verbatim>\<open>PartialOrd\<close> are those of IEEE 754 on
  the sign and the magnitude of the pattern.
\<close>

section \<open>IEEE comparisons on bit patterns\<close>

definition float_neg :: "'a::len word \<Rightarrow> bool" where
  "float_neg b \<longleftrightarrow> bit b (LENGTH('a) - 1)"

definition float_mag :: "'a::len word \<Rightarrow> int" where
  "float_mag b = uint (take_bit (LENGTH('a) - 1) b)"

definition float_key :: "'a::len word \<Rightarrow> int" where
  "float_key b = (if float_neg b then - float_mag b else float_mag b)"

text \<open>A pattern whose magnitude exceeds that of infinity is a NaN.\<close>

definition is_nan64 :: "u64 \<Rightarrow> bool" where
  "is_nan64 b \<longleftrightarrow> 0x7FF0000000000000 < float_mag b"

definition is_nan32 :: "u32 \<Rightarrow> bool" where
  "is_nan32 b \<longleftrightarrow> 0x7F800000 < float_mag b"

section \<open>The order-preserving encoding\<close>

definition encode_f64_to_i64 :: "u64 \<Rightarrow> i64" where
  "encode_f64_to_i64 bits =
     (let unsigned_key = (if bits AND 0x8000000000000000 \<noteq> 0 then NOT bits else bits XOR 0x8000000000000000)
      in unsigned_key XOR 0x8000000000000000)"

definition decode_i64_to_f64 :: "i64 \<Rightarrow> u64" where
  "decode_i64_to_f64 enc =
     (let unsigned_key = enc XOR 0x8000000000000000
      in if unsigned_key AND 0x8000000000000000 \<noteq> 0 then unsigned_key XOR 0x8000000000000000 else NOT unsigned_key)"

definition encode_f32_to_i64 :: "u32 \<Rightarrow> i64" where
  "encode_f32_to_i64 bits =
     (let unsigned_key = (if bits AND 0x80000000 \<noteq> 0 then NOT bits else bits XOR 0x80000000)
      in scast (unsigned_key XOR 0x80000000))"

definition decode_i64_to_f32 :: "i64 \<Rightarrow> u32" where
  "decode_i64_to_f32 enc =
     (let unsigned_key = ucast enc XOR 0x80000000 :: u32
      in if unsigned_key AND 0x80000000 \<noteq> 0 then unsigned_key XOR 0x80000000 else NOT unsigned_key)"

lemma sign_masks:
  "(0x8000000000000000 :: u64) = push_bit (LENGTH(64) - 1) 1" "(0x80000000 :: u32) = push_bit (LENGTH(32) - 1) 1"
  by (simp_all add: push_bit_eq_mult)

lemma and_sign: "b AND push_bit (LENGTH('a) - 1) 1 \<noteq> 0 \<longleftrightarrow> float_neg b" for b :: "'a::len word"
proof
  assume "b AND push_bit (LENGTH('a) - 1) 1 \<noteq> 0"
  then obtain n where "bit (b AND push_bit (LENGTH('a) - 1) 1) n" by (metis bit_eq_iff bit_0_eq bot_apply bot_bool_def)
  then show "float_neg b" by (auto simp: bit_simps float_neg_def)
next
  assume "float_neg b"
  then have "bit (b AND push_bit (LENGTH('a) - 1) 1) (LENGTH('a) - 1)" by (simp add: bit_simps float_neg_def)
  then show "b AND push_bit (LENGTH('a) - 1) 1 \<noteq> 0" by auto
qed

lemma order_bits:
  fixes b :: "'a::len word"
  shows "(if b AND push_bit (LENGTH('a) - 1) 1 \<noteq> 0 then NOT b else b XOR push_bit (LENGTH('a) - 1) 1)
      XOR push_bit (LENGTH('a) - 1) 1 = (if float_neg b then NOT (take_bit (LENGTH('a) - 1) b) else b)"
  unfolding and_sign by (rule bit_word_eqI) (auto simp: bit_simps float_neg_def)

lemma sint_take_bit: "sint (take_bit (LENGTH('a) - 1) b) = float_mag b" for b :: "'a::len word"
proof -
  have "\<not> bit (take_bit (LENGTH('a) - 1) b) (LENGTH('a) - 1)" by (simp add: bit_simps)
  then have "0 \<le> sint (take_bit (LENGTH('a) - 1) b)"
    by (simp add: sint_uint signed_take_bit_nonnegative_iff bit_simps)
  then show ?thesis by (simp add: float_mag_def uint_sint_nonneg)
qed

lemma sint_order_bits:
  "sint (if float_neg b then NOT (take_bit (LENGTH('a) - 1) b) else b)
     = (if float_neg b then - float_mag b - 1 else float_mag b)" for b :: "'a::len word"
proof (cases "float_neg b")
  case True
  have "sint (NOT w) = - sint w - 1" for w :: "'a word"
  proof -
    have "(2 :: int) ^ (LENGTH('a) - Suc 0) \<le> 2 ^ LENGTH('a)" by (rule power_increasing) simp_all
    with sint_greater_eq [of w] sint_less [of w]
    have "signed_take_bit LENGTH('a) (- sint w - 1) = - sint w - 1" by (intro signed_take_bit_int_eq_self) linarith+
    then show ?thesis by (simp add: signed_not_eq not_int_def)
  qed
  with True show ?thesis using sint_take_bit [of b] by simp
next
  case False
  have top: "n = LENGTH('a) - 1" if "n < LENGTH('a)" "\<not> n < LENGTH('a) - 1" for n using that by simp
  have "take_bit (LENGTH('a) - 1) b = b"
  proof (rule bit_word_eqI)
    fix n
    assume "n < LENGTH('a)"
    then show "bit (take_bit (LENGTH('a) - 1) b) n = bit b n"
      using False top [of n] by (auto simp: bit_take_bit_iff float_neg_def)
  qed
  with False show ?thesis using sint_take_bit [of b] by simp
qed

lemma sint_encode_f64: "sint (encode_f64_to_i64 b) = (if float_neg b then - float_mag b - 1 else float_mag b)"
  unfolding encode_f64_to_i64_def Let_def sign_masks order_bits sint_order_bits ..

lemma sint_encode_f32: "sint (encode_f32_to_i64 b) = (if float_neg b then - float_mag b - 1 else float_mag b)"
  unfolding encode_f32_to_i64_def Let_def sign_masks order_bits sint_order_bits [symmetric]
  by (simp add: sint_up_scast is_up)

lemma float_mag_nonneg: "0 \<le> float_mag b"
  by (simp add: float_mag_def)

text \<open>Signed comparison of the encodings is the IEEE order, except that \<open>-0.0\<close> is below \<open>+0.0\<close>.\<close>

lemma encode_f64_less: "float_key a < float_key b \<Longrightarrow> sint (encode_f64_to_i64 a) < sint (encode_f64_to_i64 b)"
  using float_mag_nonneg [of a] float_mag_nonneg [of b] unfolding sint_encode_f64 float_key_def by (simp split: if_splits; linarith)

lemma encode_f32_less: "float_key a < float_key b \<Longrightarrow> sint (encode_f32_to_i64 a) < sint (encode_f32_to_i64 b)"
  using float_mag_nonneg [of a] float_mag_nonneg [of b] unfolding sint_encode_f32 float_key_def by (simp split: if_splits; linarith)

lemma decode_encode_f64 [simp, roundtrips]: "decode_i64_to_f64 (encode_f64_to_i64 b) = b"
  unfolding decode_i64_to_f64_def encode_f64_to_i64_def Let_def sign_masks and_sign
  by (rule bit_word_eqI) (auto simp: bit_simps float_neg_def)

lemma decode_encode_f32 [simp, roundtrips]: "decode_i64_to_f32 (encode_f32_to_i64 b) = b"
  unfolding decode_i64_to_f32_def encode_f32_to_i64_def Let_def sign_masks and_sign
  by (rule bit_word_eqI) (auto simp: bit_simps float_neg_def)

section \<open>Reduction of a column\<close>

text \<open>\<^verbatim>\<open>i64::min\<close> and \<^verbatim>\<open>max\<close>, and the running minimum and maximum \<^verbatim>\<open>Some(cur.map_or(e, |c| c.min(e)))\<close>.\<close>

definition signed_min :: "'a::len word \<Rightarrow> 'a word \<Rightarrow> 'a word" where
  "signed_min a b = (if sint b < sint a then b else a)"

definition signed_max :: "'a::len word \<Rightarrow> 'a word \<Rightarrow> 'a word" where
  "signed_max a b = (if sint a \<le> sint b then b else a)"

definition running :: "('a \<Rightarrow> 'a \<Rightarrow> 'a) \<Rightarrow> 'a option \<Rightarrow> 'a \<Rightarrow> 'a option" where
  "running pick cur e = Some (case cur of None \<Rightarrow> e | Some c \<Rightarrow> pick c e)"

fun minmax_loop :: "('a \<Rightarrow> 'a \<Rightarrow> 'a) \<Rightarrow> ('a \<Rightarrow> 'a \<Rightarrow> 'a) \<Rightarrow> 'a option list \<Rightarrow> 'a option \<Rightarrow> 'a option \<Rightarrow> 'a option \<times> 'a option" where
  "minmax_loop lo hi [] min_v max_v = (min_v, max_v)"
| "minmax_loop lo hi (None # vs) min_v max_v = minmax_loop lo hi vs min_v max_v"
| "minmax_loop lo hi (Some v # vs) min_v max_v = minmax_loop lo hi vs (running lo min_v v) (running hi max_v v)"

definition minmax_encoded_via :: "'a option list \<Rightarrow> ('a \<Rightarrow> i64) \<Rightarrow> i64 option \<times> i64 option" where
  "minmax_encoded_via values encode = minmax_loop signed_min signed_max (map (map_option encode) values) None None"

definition minmax_ord :: "'a::len word option list \<Rightarrow> 'a word option \<times> 'a word option" where
  "minmax_ord values = minmax_loop signed_min signed_max values None None"

text \<open>\<^verbatim>\<open>minmax_float\<close>: a comparison with a NaN is false, so a NaN only stays when it is the first value.\<close>

definition minmax_float :: "('a::len word \<Rightarrow> bool) \<Rightarrow> 'a word option list \<Rightarrow> 'a word option \<times> 'a word option" where
  "minmax_float is_nan values =
     (let less = (\<lambda>a b. \<not> is_nan a \<and> \<not> is_nan b \<and> float_key a < float_key b)
      in minmax_loop (\<lambda>cur v. if less v cur then v else cur) (\<lambda>cur v. if less cur v then v else cur) values None None)"

definition compute_minmax_encoded_i64 :: "TypedColumn \<Rightarrow> string \<Rightarrow> i64 option \<times> i64 option" where
  "compute_minmax_encoded_i64 col data_type =
     (if \<not> supports_minmax data_type then (None, None)
      else case col of
        TInt16 values \<Rightarrow> minmax_encoded_via values scast
      | TInt32 values \<Rightarrow> minmax_encoded_via values scast
      | TInt64 values \<Rightarrow> minmax_encoded_via values (\<lambda>v. v)
      | TFloat64 values \<Rightarrow> minmax_encoded_via values encode_f64_to_i64
      | TFloat32 values \<Rightarrow> minmax_encoded_via values encode_f32_to_i64
      | _ \<Rightarrow> (None, None))"

text \<open>
  The texts for the catalogue. \<open>parse_f64\<close> is \<^verbatim>\<open>str::parse::<f64>\<close> and the renderings of floats are
  \<^verbatim>\<open>Display\<close>; both belong to the standard library's float conversions and stay parameters.
\<close>

fun byte_less :: "bytes \<Rightarrow> bytes \<Rightarrow> bool" where
  "byte_less _ [] = False"
| "byte_less [] (_ # _) = True"
| "byte_less (x # xs) (y # ys) = (x < y \<or> x = y \<and> byte_less xs ys)"

datatype Ordering = Less | Equal | Greater

definition compare_values :: "(bytes \<Rightarrow> u64 option) \<Rightarrow> bytes \<Rightarrow> bytes \<Rightarrow> string \<Rightarrow> Ordering" where
  "compare_values parse_f64 a b data_type =
     (let dt = lower data_type
      in if contains_str dt ''timestamp'' \<or> dt = ''date''
         then if byte_less a b then Less else if byte_less b a then Greater else Equal
         else if dt = ''double precision'' \<or> dt = ''float8'' \<or> dt = ''real'' \<or> dt = ''float4''
         then let fa = (case parse_f64 a of None \<Rightarrow> 0 | Some v \<Rightarrow> v);
                  fb = (case parse_f64 b of None \<Rightarrow> 0 | Some v \<Rightarrow> v)
              in if is_nan64 fa \<or> is_nan64 fb then Equal
                 else if float_key fa < float_key fb then Less
                 else if float_key fb < float_key fa then Greater else Equal
         else let ia = (case parse_i64 a of None \<Rightarrow> 0 | Some v \<Rightarrow> v);
                  ib = (case parse_i64 b of None \<Rightarrow> 0 | Some v \<Rightarrow> v)
              in if ia < ib then Less else if ib < ia then Greater else Equal)"

definition compute_column_minmax :: "(bytes \<Rightarrow> u64 option) \<Rightarrow> bytes option list \<Rightarrow> string \<Rightarrow> bytes option \<times> bytes option" where
  "compute_column_minmax parse_f64 values data_type =
     minmax_loop (\<lambda>cur v. if compare_values parse_f64 v cur data_type = Less then v else cur)
       (\<lambda>cur v. if compare_values parse_f64 v cur data_type = Greater then v else cur) values None None"

definition both :: "('a \<Rightarrow> 'b) \<Rightarrow> 'a option \<times> 'a option \<Rightarrow> 'b option \<times> 'b option" where
  "both f mm = (map_option f (fst mm), map_option f (snd mm))"

definition compute_typed_minmax ::
    "(bytes \<Rightarrow> u64 option) \<Rightarrow> (u64 \<Rightarrow> bytes) \<Rightarrow> (u32 \<Rightarrow> bytes) \<Rightarrow> TypedColumn \<Rightarrow> string \<Rightarrow> bytes option \<times> bytes option" where
  "compute_typed_minmax parse_f64 show_f64 show_f32 col data_type =
     (case col of
        TInt16 values \<Rightarrow> both (\<lambda>v. dec_int (sint v)) (minmax_ord values)
      | TInt32 values \<Rightarrow> both (\<lambda>v. dec_int (sint v)) (minmax_ord values)
      | TInt64 values \<Rightarrow>
          let dt = lower data_type
          in both (if contains_str dt ''timestamp'' then usec_to_timestamp_string
                   else if dt = ''date'' then usec_to_date_string else (\<lambda>v. dec_int (sint v))) (minmax_ord values)
      | TFloat64 values \<Rightarrow> both show_f64 (minmax_float is_nan64 values)
      | TFloat32 values \<Rightarrow> both show_f32 (minmax_float is_nan32 values)
      | TText values \<Rightarrow> compute_column_minmax parse_f64 values data_type
      | TBytes _ \<Rightarrow> (None, None)
      | TBool _ \<Rightarrow> (None, None))"

section \<open>The reduction bounds every value\<close>

lemma minmax_loop_somes:
  "minmax_loop lo hi vs mn mx = (foldl (running lo) mn (somes vs), foldl (running hi) mx (somes vs))"
  by (induction lo hi vs mn mx rule: minmax_loop.induct) simp_all

lemma foldl_running_None: "foldl (running pick) None (v # vs) = foldl (running pick) (Some v) vs"
  by (simp add: running_def)

lemma foldl_running_min:
  "\<exists>m. foldl (running signed_min) (Some v) vs = Some m \<and> m \<in> set (v # vs) \<and> (\<forall>w \<in> set (v # vs). sint m \<le> sint w)"
proof (induction vs arbitrary: v)
  case (Cons x xs)
  from Cons.IH [of "signed_min v x"] show ?case
    by (auto simp: running_def signed_min_def split: if_splits)
qed simp

lemma foldl_running_max:
  "\<exists>m. foldl (running signed_max) (Some v) vs = Some m \<and> m \<in> set (v # vs) \<and> (\<forall>w \<in> set (v # vs). sint w \<le> sint m)"
proof (induction vs arbitrary: v)
  case (Cons x xs)
  from Cons.IH [of "signed_max v x"] show ?case
    by (auto simp: running_def signed_max_def split: if_splits)
qed simp

text \<open>\<open>bounds mm xs\<close>: \<open>mm\<close> is the least and the greatest of \<open>xs\<close> in signed order, or nothing when \<open>xs\<close> is empty.\<close>

definition bounds :: "'a::len word option \<times> 'a word option \<Rightarrow> 'a word list \<Rightarrow> bool" where
  "bounds mm xs \<longleftrightarrow> (if xs = [] then mm = (None, None)
     else \<exists>mn mx. mm = (Some mn, Some mx) \<and> mn \<in> set xs \<and> mx \<in> set xs
            \<and> (\<forall>x \<in> set xs. sint mn \<le> sint x \<and> sint x \<le> sint mx))"

lemma minmax_loop_bounds: "bounds (minmax_loop signed_min signed_max vs None None) (somes vs)"
proof (cases "somes vs")
  case (Cons v ws)
  then show ?thesis
    using foldl_running_min [of v ws] foldl_running_max [of v ws]
    by (auto simp: bounds_def minmax_loop_somes foldl_running_None simp del: foldl_Cons)
qed (simp add: bounds_def minmax_loop_somes)

lemma minmax_encoded_via_bounds: "bounds (minmax_encoded_via vs enc) (map enc (somes vs))"
  using minmax_loop_bounds [of "map (map_option enc) vs"] by (simp add: minmax_encoded_via_def somes_map_option)

lemma minmax_ord_bounds: "bounds (minmax_ord vs) (somes vs)"
  by (simp add: minmax_ord_def minmax_loop_bounds)

text \<open>The encodings of the non-NULL values of a column.\<close>

fun encoded_values :: "TypedColumn \<Rightarrow> i64 list" where
  "encoded_values (TInt16 vs) = map scast (somes vs)"
| "encoded_values (TInt32 vs) = map scast (somes vs)"
| "encoded_values (TInt64 vs) = somes vs"
| "encoded_values (TFloat64 vs) = map encode_f64_to_i64 (somes vs)"
| "encoded_values (TFloat32 vs) = map encode_f32_to_i64 (somes vs)"
| "encoded_values _ = []"

lemma compute_minmax_bounds:
  assumes "supports_minmax dt"
  shows "bounds (compute_minmax_encoded_i64 col dt) (encoded_values col)"
  using assms minmax_encoded_via_bounds [of _ "\<lambda>v. v"]
  by (cases col) (simp_all add: compute_minmax_encoded_i64_def minmax_encoded_via_bounds, simp_all add: bounds_def)

end
