(* ===== verification/Batch_Qual.thy ===== *)
theory Batch_Qual
  imports Like_Match Minmax
begin

unbundle bit_operations_syntax

text \<open>
  Vectorised evaluation of simple predicates over a decoded segment
  (\<^verbatim>\<open>src/scan/exec/batch_qual.rs\<close>). A datum is the 64-bit word PostgreSQL passes by value; a cell is
  a datum with its NULL flag. The filters AND their result into a selection vector.
\<close>

section \<open>Types\<close>

type_synonym datum = u64
type_synonym oid = nat
type_synonym cell = "datum \<times> bool"

abbreviation BOOLOID :: oid where "BOOLOID \<equiv> 16"
abbreviation INT8OID :: oid where "INT8OID \<equiv> 20"
abbreviation INT2OID :: oid where "INT2OID \<equiv> 21"
abbreviation INT4OID :: oid where "INT4OID \<equiv> 23"
abbreviation TEXTOID :: oid where "TEXTOID \<equiv> 25"
abbreviation FLOAT4OID :: oid where "FLOAT4OID \<equiv> 700"
abbreviation FLOAT8OID :: oid where "FLOAT8OID \<equiv> 701"
abbreviation BPCHAROID :: oid where "BPCHAROID \<equiv> 1042"
abbreviation VARCHAROID :: oid where "VARCHAROID \<equiv> 1043"
abbreviation DATEOID :: oid where "DATEOID \<equiv> 1082"
abbreviation TIMEOID :: oid where "TIMEOID \<equiv> 1083"
abbreviation TIMESTAMPOID :: oid where "TIMESTAMPOID \<equiv> 1114"
abbreviation TIMESTAMPTZOID :: oid where "TIMESTAMPTZOID \<equiv> 1184"

datatype BatchCompareOp = Eq | Ne | Lt | Le | Gt | Ge | Like | NotLike | InList

record BatchQual =
  col_idx :: nat
  op :: BatchCompareOp
  const_datum :: datum
  type_oid :: oid
  like_strategy :: "LikeStrategy option"
  text_const :: "bytes option"
  in_list_i64 :: "i64 list option"
  in_list_text :: "bytes list option"

definition default_qual :: BatchQual where
  "default_qual = \<lparr>col_idx = 0, op = Eq, const_datum = 0, type_oid = 0, like_strategy = None,
     text_const = None, in_list_i64 = None, in_list_text = None\<rparr>"

definition is_batch_comparable_type :: "oid \<Rightarrow> bool" where
  "is_batch_comparable_type t \<longleftrightarrow> t \<in> {INT2OID, INT4OID, INT8OID, FLOAT4OID, FLOAT8OID, BOOLOID, DATEOID,
     TIMESTAMPOID, TIMESTAMPTZOID}"

definition is_text_type :: "oid \<Rightarrow> bool" where
  "is_text_type t \<longleftrightarrow> t \<in> {TEXTOID, VARCHAROID, BPCHAROID}"

fun flip_compare_op :: "BatchCompareOp \<Rightarrow> BatchCompareOp" where
  "flip_compare_op Lt = Gt"
| "flip_compare_op Le = Ge"
| "flip_compare_op Gt = Lt"
| "flip_compare_op Ge = Le"
| "flip_compare_op c = c"

definition parse_compare_op :: "string \<Rightarrow> BatchCompareOp option" where
  "parse_compare_op opname =
     (if opname = ''='' then Some Eq
      else if opname = ''<>'' \<or> opname = ''!='' then Some Ne
      else if opname = ''<'' then Some Lt
      else if opname = ''<='' then Some Le
      else if opname = ''>'' then Some Gt
      else if opname = ''>='' then Some Ge
      else None)"

section \<open>Filters\<close>

text \<open>The comparison of \<^verbatim>\<open>PartialOrd\<close> by operator; \<^const>\<open>None\<close> is \<^verbatim>\<open>unreachable!()\<close>.\<close>

fun signed_test :: "BatchCompareOp \<Rightarrow> 'a::len word \<Rightarrow> 'a word \<Rightarrow> bool option" where
  "signed_test Eq v c = Some (v = c)"
| "signed_test Ne v c = Some (v \<noteq> c)"
| "signed_test Lt v c = Some (sint v < sint c)"
| "signed_test Le v c = Some (sint v \<le> sint c)"
| "signed_test Gt v c = Some (sint v > sint c)"
| "signed_test Ge v c = Some (sint v \<ge> sint c)"
| "signed_test _ v c = None"

definition float_test :: "('a::len word \<Rightarrow> bool) \<Rightarrow> BatchCompareOp \<Rightarrow> 'a word \<Rightarrow> 'a word \<Rightarrow> bool option" where
  "float_test is_nan p v c =
     (let ordered = (\<not> is_nan v \<and> \<not> is_nan c)
      in case p of
           Eq \<Rightarrow> Some (ordered \<and> float_key v = float_key c)
         | Ne \<Rightarrow> Some (\<not> (ordered \<and> float_key v = float_key c))
         | Lt \<Rightarrow> Some (ordered \<and> float_key v < float_key c)
         | Le \<Rightarrow> Some (ordered \<and> float_key v \<le> float_key c)
         | Gt \<Rightarrow> Some (ordered \<and> float_key v > float_key c)
         | Ge \<Rightarrow> Some (ordered \<and> float_key v \<ge> float_key c)
         | _ \<Rightarrow> None)"

text \<open>
  The loop all filters share: a deselected row stays so, a NULL row is dropped, otherwise the test
  decides. A selection vector shorter than the column is an index panic.
\<close>

fun filter_loop :: "(datum \<Rightarrow> bool option) \<Rightarrow> cell list \<Rightarrow> bool list \<Rightarrow> bool list option" where
  "filter_loop test [] sel = Some sel"
| "filter_loop test (_ # _) [] = None"
| "filter_loop test ((d, is_null) # col) (s # sel) = do {
     b \<leftarrow> (if \<not> s then Some False else if is_null then Some False else test d);
     rest \<leftarrow> filter_loop test col sel;
     Some (b # rest)
   }"

definition apply_batch_filter_typed ::
    "(BatchCompareOp \<Rightarrow> 'a \<Rightarrow> 'a \<Rightarrow> bool option) \<Rightarrow> cell list \<Rightarrow> bool list \<Rightarrow> BatchCompareOp \<Rightarrow> 'a \<Rightarrow> (datum \<Rightarrow> 'a) \<Rightarrow> bool list option" where
  "apply_batch_filter_typed test col sel p constant decode = filter_loop (\<lambda>d. test p (decode d) constant) col sel"

definition apply_batch_filter_i64 :: "cell list \<Rightarrow> bool list \<Rightarrow> BatchCompareOp \<Rightarrow> i64 \<Rightarrow> bool list option" where
  "apply_batch_filter_i64 col sel p constant = apply_batch_filter_typed signed_test col sel p constant (\<lambda>d. d)"

definition apply_batch_filter_i32 :: "cell list \<Rightarrow> bool list \<Rightarrow> BatchCompareOp \<Rightarrow> i32 \<Rightarrow> bool list option" where
  "apply_batch_filter_i32 col sel p constant = apply_batch_filter_typed signed_test col sel p constant ucast"

definition apply_batch_filter_i16 :: "cell list \<Rightarrow> bool list \<Rightarrow> BatchCompareOp \<Rightarrow> i16 \<Rightarrow> bool list option" where
  "apply_batch_filter_i16 col sel p constant = apply_batch_filter_typed signed_test col sel p constant ucast"

definition apply_batch_filter_f64 :: "cell list \<Rightarrow> bool list \<Rightarrow> BatchCompareOp \<Rightarrow> u64 \<Rightarrow> bool list option" where
  "apply_batch_filter_f64 col sel p constant = apply_batch_filter_typed (float_test is_nan64) col sel p constant (\<lambda>d. d)"

definition apply_batch_filter_f32 :: "cell list \<Rightarrow> bool list \<Rightarrow> BatchCompareOp \<Rightarrow> u32 \<Rightarrow> bool list option" where
  "apply_batch_filter_f32 col sel p constant = apply_batch_filter_typed (float_test is_nan32) col sel p constant ucast"

definition bool_test :: "BatchCompareOp \<Rightarrow> bool \<Rightarrow> bool \<Rightarrow> bool option" where
  "bool_test p v c = (case p of Ne \<Rightarrow> Some (v \<noteq> c) | Like \<Rightarrow> None | NotLike \<Rightarrow> None | InList \<Rightarrow> None | _ \<Rightarrow> Some (v = c))"

definition apply_batch_filter_bool :: "cell list \<Rightarrow> bool list \<Rightarrow> BatchCompareOp \<Rightarrow> bool \<Rightarrow> bool list option" where
  "apply_batch_filter_bool col sel p constant = filter_loop (\<lambda>d. bool_test p (d \<noteq> 0) constant) col sel"

definition apply_batch_filter_in_list :: "cell list \<Rightarrow> bool list \<Rightarrow> i64 list \<Rightarrow> oid \<Rightarrow> bool list option" where
  "apply_batch_filter_in_list col sel values t =
     (if t = INT2OID
      then let vals = map ucast values :: i16 list in filter_loop (\<lambda>d. Some (ucast d \<in> set vals)) col sel
      else if t = INT4OID \<or> t = DATEOID
      then let vals = map ucast values :: i32 list in filter_loop (\<lambda>d. Some (ucast d \<in> set vals)) col sel
      else if t = INT8OID \<or> t = TIMESTAMPOID \<or> t = TIMESTAMPTZOID
      then filter_loop (\<lambda>d. Some (d \<in> set values)) col sel
      else Some sel)"

section \<open>Evaluation of all quals of a segment\<close>

definition apply_qual :: "BatchQual \<Rightarrow> cell list \<Rightarrow> bool list \<Rightarrow> bool list option" where
  "apply_qual bq col sel =
     (let t = type_oid bq; c = const_datum bq
      in if op bq = InList
         then (case in_list_i64 bq of Some values \<Rightarrow> apply_batch_filter_in_list col sel values t | None \<Rightarrow> Some sel)
         else if t = INT8OID \<or> t = TIMESTAMPOID \<or> t = TIMESTAMPTZOID then apply_batch_filter_i64 col sel (op bq) c
         else if t = INT4OID \<or> t = DATEOID then apply_batch_filter_i32 col sel (op bq) (ucast c)
         else if t = INT2OID then apply_batch_filter_i16 col sel (op bq) (ucast c)
         else if t = FLOAT8OID then apply_batch_filter_f64 col sel (op bq) c
         else if t = FLOAT4OID then apply_batch_filter_f32 col sel (op bq) (ucast c)
         else if t = BOOLOID then apply_batch_filter_bool col sel (op bq) (c \<noteq> 0)
         else Some sel)"

fun eval_quals_loop :: "cell list list \<Rightarrow> BatchQual list \<Rightarrow> bool list \<Rightarrow> bool list option" where
  "eval_quals_loop segment [] sel = Some sel"
| "eval_quals_loop segment (bq # bqs) sel = do {
     col \<leftarrow> index segment (col_idx bq);
     sel' \<leftarrow> (if col = [] then Some sel else apply_qual bq col sel);
     eval_quals_loop segment bqs sel'
   }"

definition evaluate_batch_quals :: "cell list list \<Rightarrow> nat \<Rightarrow> BatchQual list \<Rightarrow> bool list \<Rightarrow> bool list option" where
  "evaluate_batch_quals segment row_count bqs pre_selection =
     (if bqs = [] \<and> pre_selection = [] then Some []
      else eval_quals_loop segment bqs
             (if pre_selection = [] then replicate row_count True else pre_selection))"

section \<open>What a qual decides\<close>

text \<open>The test a qual runs on a non-NULL datum; \<^const>\<open>None\<close> when the evaluator skips the qual.\<close>

definition qual_test :: "BatchQual \<Rightarrow> (datum \<Rightarrow> bool option) option" where
  "qual_test bq =
     (let t = type_oid bq; c = const_datum bq; p = op bq
      in if p = InList
         then (case in_list_i64 bq of
                 None \<Rightarrow> None
               | Some vs \<Rightarrow>
                   if t = INT2OID then Some (\<lambda>d. Some ((ucast d :: i16) \<in> set (map ucast vs)))
                   else if t = INT4OID \<or> t = DATEOID then Some (\<lambda>d. Some ((ucast d :: i32) \<in> set (map ucast vs)))
                   else if t = INT8OID \<or> t = TIMESTAMPOID \<or> t = TIMESTAMPTZOID then Some (\<lambda>d. Some (d \<in> set vs))
                   else None)
         else if t = INT8OID \<or> t = TIMESTAMPOID \<or> t = TIMESTAMPTZOID then Some (\<lambda>d. signed_test p d c)
         else if t = INT4OID \<or> t = DATEOID then Some (\<lambda>d. signed_test p (ucast d :: i32) (ucast c))
         else if t = INT2OID then Some (\<lambda>d. signed_test p (ucast d :: i16) (ucast c))
         else if t = FLOAT8OID then Some (\<lambda>d. float_test is_nan64 p d c)
         else if t = FLOAT4OID then Some (\<lambda>d. float_test is_nan32 p (ucast d) (ucast c))
         else if t = BOOLOID then Some (\<lambda>d. bool_test p (d \<noteq> 0) (c \<noteq> 0))
         else None)"

lemma apply_qual_test:
  "apply_qual bq col sel = (case qual_test bq of None \<Rightarrow> Some sel | Some t \<Rightarrow> filter_loop t col sel)"
  by (simp add: apply_qual_def qual_test_def Let_def apply_batch_filter_in_list_def apply_batch_filter_i64_def
      apply_batch_filter_i32_def apply_batch_filter_i16_def apply_batch_filter_f64_def apply_batch_filter_f32_def
      apply_batch_filter_bool_def apply_batch_filter_typed_def split: option.split)

definition row_ok :: "BatchQual \<Rightarrow> cell \<Rightarrow> bool" where
  "row_ok bq cell = (case qual_test bq of None \<Rightarrow> True | Some t \<Rightarrow> \<not> snd cell \<and> t (fst cell) = Some True)"

text \<open>A qual the extractor can emit: \<^verbatim>\<open>LIKE\<close> never reaches a comparison of a by-value type.\<close>

definition comparable_qual :: "BatchQual \<Rightarrow> bool" where
  "comparable_qual bq \<longleftrightarrow> (is_batch_comparable_type (type_oid bq) \<longrightarrow> op bq \<notin> {Like, NotLike})"

lemma qual_test_total: "comparable_qual bq \<Longrightarrow> qual_test bq = Some t \<Longrightarrow> t d \<noteq> None"
  by (cases "op bq") (auto simp: qual_test_def Let_def comparable_qual_def is_batch_comparable_type_def float_test_def
      bool_test_def split: if_splits option.splits)

lemma filter_loop_spec:
  assumes "length col = length sel" and "\<And>d. test d \<noteq> None"
  shows "filter_loop test col sel = Some (map2 (\<lambda>c s. s \<and> \<not> snd c \<and> test (fst c) = Some True) col sel)"
  using assms(1)
proof (induction col sel rule: list_induct2)
  case (Cons c col s sel)
  obtain d n where c: "c = (d, n)" by (cases c)
  obtain b where "test d = Some b" using assms(2) by blast
  with Cons.IH c show ?case by simp
qed simp

lemma apply_qual_spec:
  assumes "comparable_qual bq" and "length col = length sel"
  shows "apply_qual bq col sel = Some (map2 (\<lambda>c s. s \<and> row_ok bq c) col sel)"
proof (cases "qual_test bq")
  case None
  have "map2 (\<lambda>c s. s) col sel = sel" using assms(2) by (simp add: map_snd_zip case_prod_unfold)
  with None show ?thesis by (simp add: apply_qual_test row_ok_def)
next
  case (Some t)
  then show ?thesis
    using filter_loop_spec [OF assms(2)] qual_test_total [OF assms(1) Some] by (simp add: apply_qual_test row_ok_def)
qed

lemma evaluate_batch_quals_spec:
  assumes "\<forall>bq \<in> set bqs. comparable_qual bq \<and> col_idx bq < length segment"
    and "\<forall>col \<in> set segment. col = [] \<or> length col = n" and "length sel = n"
  shows "\<exists>out. eval_quals_loop segment bqs sel = Some out \<and> length out = n
    \<and> (\<forall>r < n. out ! r \<longleftrightarrow> sel ! r \<and> (\<forall>bq \<in> set bqs. segment ! col_idx bq \<noteq> [] \<longrightarrow> row_ok bq (segment ! col_idx bq ! r)))"
  using assms(1,3)
proof (induction bqs arbitrary: sel)
  case (Cons bq bqs)
  let ?col = "segment ! col_idx bq"
  have idx: "col_idx bq < length segment" and cq: "comparable_qual bq" using Cons.prems by simp_all
  show ?case
  proof (cases "?col = []")
    case True
    with Cons.IH [OF _ Cons.prems(2)] Cons.prems(1) idx show ?thesis by auto
  next
    case False
    then have len: "length ?col = length sel" using assms(2) idx Cons.prems(2) nth_mem by fastforce
    let ?sel = "map2 (\<lambda>c s. s \<and> row_ok bq c) ?col sel"
    have sel_len: "length ?sel = n" using len Cons.prems(2) by simp
    have rest: "\<forall>bq \<in> set bqs. comparable_qual bq \<and> col_idx bq < length segment" using Cons.prems(1) by simp
    from Cons.IH [OF rest sel_len] obtain out where out: "eval_quals_loop segment bqs ?sel = Some out" "length out = n"
      "\<forall>r < n. out ! r \<longleftrightarrow> ?sel ! r \<and> (\<forall>bq \<in> set bqs. segment ! col_idx bq \<noteq> [] \<longrightarrow> row_ok bq (segment ! col_idx bq ! r))"
      by blast
    have "eval_quals_loop segment (bq # bqs) sel = Some out"
      using out(1) idx False apply_qual_spec [OF cq len] by simp
    moreover have "?sel ! r \<longleftrightarrow> sel ! r \<and> row_ok bq (?col ! r)" if "r < n" for r
      using that len Cons.prems(2) by simp
    ultimately show ?thesis using out(2,3) False by auto
  qed
qed simp

end
