(* ===== verification/Cond_Fingerprint.thy ===== *)
theory Cond_Fingerprint
  imports Batch_Qual
begin

text \<open>
  The fingerprint of a filter set (src/src/scan/exec/cond_cache.rs): FNV-1a over a canonical byte
  encoding of the quals.  The encoding itself is a prefix code, so two filter sets that are hashed
  from the same bytes select the same rows; what remains is the collision of two different byte
  strings under the 64-bit hash.
\<close>

section \<open>The hash\<close>

definition fp_new :: u64 where
  "fp_new = 0xcbf29ce484222325"

definition fp_u8 :: "u64 \<Rightarrow> u8 \<Rightarrow> u64" where
  "fp_u8 h b = (h XOR ucast b) * 0x100000001B3"

definition fp_u64 :: "u64 \<Rightarrow> u64 \<Rightarrow> u64" where
  "fp_u64 h v = foldl fp_u8 h (to_le 8 v)"

definition fp_bytes :: "u64 \<Rightarrow> bytes \<Rightarrow> u64" where
  "fp_bytes h s = foldl fp_u8 (fp_u64 h (word_of_nat (length s))) s"

definition fp_opt_str :: "u64 \<Rightarrow> bytes option \<Rightarrow> u64" where
  "fp_opt_str h s = (case s of None \<Rightarrow> fp_u8 h 0 | Some v \<Rightarrow> fp_bytes (fp_u8 h 1) v)"

fun op_tag :: "BatchCompareOp \<Rightarrow> u8" where
  "op_tag Eq = 1"
| "op_tag Ne = 2"
| "op_tag Lt = 3"
| "op_tag Le = 4"
| "op_tag Gt = 5"
| "op_tag Ge = 6"
| "op_tag Like = 7"
| "op_tag NotLike = 8"
| "op_tag InList = 9"

fun like_tag :: "LikeStrategy \<Rightarrow> u8 \<times> bytes" where
  "like_tag (Contains p) = (1, p)"
| "like_tag (StartsWith p) = (2, p)"
| "like_tag (EndsWith p) = (3, p)"
| "like_tag (Exact p) = (4, p)"
| "like_tag (General p) = (5, p)"

datatype TextQualInfo = TqEqNe nat bytes bool | TqLike nat LikeStrategy bool | TqInList nat "bytes list"

definition FP_VERSION :: u64 where "FP_VERSION = 1"

definition fp_like :: "u64 \<Rightarrow> LikeStrategy option \<Rightarrow> u64" where
  "fp_like h s = (case s of None \<Rightarrow> fp_u8 h 0
     | Some ls \<Rightarrow> let (tag, pat) = like_tag ls in fp_bytes (fp_u8 h (0x10 OR tag)) pat)"

definition fp_list :: "(u64 \<Rightarrow> 'a \<Rightarrow> u64) \<Rightarrow> u64 \<Rightarrow> 'a list option \<Rightarrow> u64" where
  "fp_list f h l = (case l of None \<Rightarrow> fp_u8 h 0
     | Some list \<Rightarrow> foldl f (fp_u64 (fp_u8 h 1) (word_of_nat (length list))) list)"

text \<open>One batch qual; \<^const>\<open>None\<close> when a pointer datum has no canonical form.\<close>

definition fp_qual :: "u64 \<Rightarrow> BatchQual \<Rightarrow> u64 option" where
  "fp_qual h bq =
    (let h = fp_u8 h 0x01;
         h = fp_u64 h (word_of_nat (col_idx bq));
         h = fp_u8 h (op_tag (op bq));
         h = fp_u64 h (word_of_nat (type_oid bq));
         h = fp_opt_str h (text_const bq);
         h = fp_like h (like_strategy bq);
         h = fp_list fp_u64 h (in_list_i64 bq);
         h = fp_list fp_bytes h (in_list_text bq)
     in if is_batch_comparable_type (type_oid bq) then Some (fp_u64 (fp_u8 h 1) (const_datum bq))
        else if text_const bq = None \<and> like_strategy bq = None \<and> in_list_i64 bq = None \<and> in_list_text bq = None
        then None
        else Some (fp_u8 h 0))"

fun fp_quals :: "u64 \<Rightarrow> BatchQual list \<Rightarrow> u64 option" where
  "fp_quals h [] = Some h"
| "fp_quals h (bq # bqs) = do { h \<leftarrow> fp_qual h bq; fp_quals h bqs }"

fun fp_text_qual :: "u64 \<Rightarrow> TextQualInfo \<Rightarrow> u64" where
  "fp_text_qual h (TqEqNe col const_str is_ne) =
    fp_bytes (fp_u8 (fp_u64 (fp_u8 h 0x02) (word_of_nat col)) (if is_ne then 1 else 0)) const_str"
| "fp_text_qual h (TqLike col strategy negate) =
    (let (tag, pat) = like_tag strategy in
     fp_bytes (fp_u8 (fp_u8 (fp_u64 (fp_u8 h 0x03) (word_of_nat col)) (if negate then 1 else 0)) tag) pat)"
| "fp_text_qual h (TqInList col texts) =
    foldl fp_bytes (fp_u64 (fp_u64 (fp_u8 h 0x04) (word_of_nat col)) (word_of_nat (length texts))) texts"

definition fingerprint_quals :: "BatchQual list \<Rightarrow> TextQualInfo list \<Rightarrow> u64 option" where
  "fingerprint_quals batch_quals text_quals =
    (if batch_quals = [] \<and> text_quals = [] then None
     else do { h \<leftarrow> fp_quals (fp_u64 fp_new FP_VERSION) batch_quals; Some (foldl fp_text_qual h text_quals) })"

section \<open>The bytes that are hashed\<close>

definition canon_bytes :: "bytes \<Rightarrow> bytes" where
  "canon_bytes s = to_le 8 (word_of_nat (length s) :: u64) @ s"

definition canon_opt :: "('a \<Rightarrow> bytes) \<Rightarrow> 'a option \<Rightarrow> bytes" where
  "canon_opt f x = (case x of None \<Rightarrow> [0] | Some v \<Rightarrow> 1 # f v)"

definition canon_list :: "('a \<Rightarrow> bytes) \<Rightarrow> 'a list \<Rightarrow> bytes" where
  "canon_list f xs = to_le 8 (word_of_nat (length xs) :: u64) @ concat (map f xs)"

definition canon_like :: "LikeStrategy option \<Rightarrow> bytes" where
  "canon_like s = (case s of None \<Rightarrow> [0] | Some ls \<Rightarrow> (0x10 OR fst (like_tag ls)) # canon_bytes (snd (like_tag ls)))"

definition canon_datum :: "BatchQual \<Rightarrow> bytes" where
  "canon_datum bq = (if is_batch_comparable_type (type_oid bq) then 1 # to_le 8 (const_datum bq) else [0])"

definition canon_qual :: "BatchQual \<Rightarrow> bytes" where
  "canon_qual bq = 0x01 # to_le 8 (word_of_nat (col_idx bq) :: u64) @ op_tag (op bq)
     # to_le 8 (word_of_nat (type_oid bq) :: u64) @ canon_opt canon_bytes (text_const bq)
     @ canon_like (like_strategy bq) @ canon_opt (canon_list (to_le 8)) (in_list_i64 bq)
     @ canon_opt (canon_list canon_bytes) (in_list_text bq)
     @ canon_datum bq"

fun canon_text_qual :: "TextQualInfo \<Rightarrow> bytes" where
  "canon_text_qual (TqEqNe col s ne) = 0x02 # to_le 8 (word_of_nat col :: u64) @ (if ne then 1 else 0) # canon_bytes s"
| "canon_text_qual (TqLike col ls ng) = 0x03 # to_le 8 (word_of_nat col :: u64) @ (if ng then 1 else 0)
     # fst (like_tag ls) # canon_bytes (snd (like_tag ls))"
| "canon_text_qual (TqInList col vs) = 0x04 # to_le 8 (word_of_nat col :: u64) @ canon_list canon_bytes vs"

definition canonical :: "BatchQual list \<Rightarrow> TextQualInfo list \<Rightarrow> bytes" where
  "canonical qs ts = to_le 8 FP_VERSION @ concat (map canon_qual qs) @ concat (map canon_text_qual ts)"

lemma foldl_concat: "(\<And>h x. f h x = foldl g h (c x)) \<Longrightarrow> foldl f h xs = foldl g h (concat (map c xs))"
  by (induction xs arbitrary: h) simp_all

lemma fp_bytes_canon: "fp_bytes h s = foldl fp_u8 h (canon_bytes s)"
  by (simp add: fp_bytes_def fp_u64_def canon_bytes_def)

lemma fp_opt_str_canon: "fp_opt_str h s = foldl fp_u8 h (canon_opt canon_bytes s)"
  by (simp add: fp_opt_str_def canon_opt_def fp_bytes_canon split: option.split)

lemma fp_like_canon: "fp_like h s = foldl fp_u8 h (canon_like s)"
  by (simp add: fp_like_def canon_like_def fp_bytes_canon split_beta split: option.split)

lemma fp_list_canon:
  assumes "\<And>h x. f h x = foldl fp_u8 h (g x)"
  shows "fp_list f h l = foldl fp_u8 h (canon_opt (canon_list g) l)"
  using foldl_concat [of f fp_u8 g, OF assms]
  by (simp add: fp_list_def canon_opt_def canon_list_def fp_u64_def split: option.split)

definition encodable :: "BatchQual \<Rightarrow> bool" where
  "encodable bq \<longleftrightarrow> is_batch_comparable_type (type_oid bq) \<or> text_const bq \<noteq> None \<or> like_strategy bq \<noteq> None
     \<or> in_list_i64 bq \<noteq> None \<or> in_list_text bq \<noteq> None"

lemma fp_qual_canon: "fp_qual h bq = (if encodable bq then Some (foldl fp_u8 h (canon_qual bq)) else None)"
  by (simp add: fp_qual_def encodable_def canon_qual_def canon_datum_def Let_def fp_opt_str_canon fp_like_canon
      fp_list_canon [of fp_u64 "to_le 8", OF fp_u64_def] fp_list_canon [of fp_bytes canon_bytes, OF fp_bytes_canon]
      fp_u64_def)

lemma fp_quals_canon:
  "fp_quals h qs = (if \<forall>q \<in> set qs. encodable q then Some (foldl fp_u8 h (concat (map canon_qual qs))) else None)"
  by (induction qs arbitrary: h) (simp_all add: fp_qual_canon)

lemma fp_text_qual_canon: "fp_text_qual h t = foldl fp_u8 h (canon_text_qual t)"
proof (cases t)
  case (TqInList col vs)
  then show ?thesis using foldl_concat [of fp_bytes fp_u8 canon_bytes, OF fp_bytes_canon]
    by (simp add: fp_u64_def canon_list_def)
qed (simp_all add: fp_u64_def fp_bytes_canon split_beta)

lemma fingerprint_quals_canon:
  "fingerprint_quals qs ts = (if (qs \<noteq> [] \<or> ts \<noteq> []) \<and> (\<forall>q \<in> set qs. encodable q)
     then Some (foldl fp_u8 fp_new (canonical qs ts)) else None)"
  using foldl_concat [of fp_text_qual fp_u8 canon_text_qual, OF fp_text_qual_canon]
  by (simp add: fingerprint_quals_def fp_quals_canon canonical_def fp_u64_def)

section \<open>The encoding is a prefix code\<close>

text \<open>
  The contract of an encoder whose output can be told apart from whatever follows it, and what it gives
  for lists and options of its values.
\<close>

lemma to_le_8_inject: "to_le 8 (v :: u64) = to_le 8 w \<longleftrightarrow> v = w"
proof
  assume "to_le 8 v = to_le 8 w"
  then have "(from_le (to_le 8 v) :: u64) = from_le (to_le 8 w)" by (rule arg_cong)
  moreover have "(from_le (to_le 8 u) :: u64) = u" for u by (rule from_le_to_le_id) simp
  ultimately show "v = w" by (simp only:)
qed simp

lemma to_le_8_append: "to_le 8 (v :: u64) @ r = to_le 8 w @ s \<longleftrightarrow> v = w \<and> r = s"
  using to_le_8_inject by (simp add: append_eq_append_conv)

lemma word_of_nat_inject_u64: "m < 2 ^ 64 \<Longrightarrow> n < 2 ^ 64 \<Longrightarrow> (word_of_nat m :: u64) = word_of_nat n \<longleftrightarrow> m = n"
  by (auto simp: word_of_nat_eq_iff take_bit_nat_eq_self)

locale prefix_code =
  fixes enc :: "'a \<Rightarrow> bytes" and ok :: "'a \<Rightarrow> bool"
  assumes unique: "ok a \<Longrightarrow> ok b \<Longrightarrow> enc a @ r = enc b @ s \<Longrightarrow> a = b \<and> r = s"
begin

lemma unique_many:
  assumes "length xs = length ys" and "\<forall>x \<in> set xs. ok x" and "\<forall>y \<in> set ys. ok y"
    and "concat (map enc xs) @ r = concat (map enc ys) @ s"
  shows "xs = ys \<and> r = s"
  using assms
proof (induction xs ys rule: list_induct2)
  case (Cons x xs y ys)
  then show ?case using unique [of x y "concat (map enc xs) @ r" "concat (map enc ys) @ s"] by auto
qed simp

lemma unique_option:
  assumes "\<And>v. x = Some v \<Longrightarrow> ok v" and "\<And>v. y = Some v \<Longrightarrow> ok v" and "canon_opt enc x @ r = canon_opt enc y @ s"
  shows "x = y \<and> r = s"
proof (cases x)
  case None
  then show ?thesis using assms(3) by (cases y) (simp_all add: canon_opt_def)
next
  case (Some v)
  then obtain w where y: "y = Some w" "enc v @ r = enc w @ s"
    using assms(3) by (cases y) (simp_all add: canon_opt_def)
  then show ?thesis using unique [OF assms(1) [OF Some] assms(2) [OF y(1)] y(2)] Some by simp
qed

lemma unique_counted:
  assumes "length xs < 2 ^ 64" and "length ys < 2 ^ 64" and "\<forall>x \<in> set xs. ok x" and "\<forall>y \<in> set ys. ok y"
    and "canon_list enc xs @ r = canon_list enc ys @ s"
  shows "xs = ys \<and> r = s"
proof -
  have "(word_of_nat (length xs) :: u64) = word_of_nat (length ys)"
    and rest: "concat (map enc xs) @ r = concat (map enc ys) @ s"
    using assms(5) unfolding canon_list_def append_assoc to_le_8_append by blast+
  then have "length xs = length ys" using word_of_nat_inject_u64 [OF assms(1,2)] by blast
  then show ?thesis using unique_many rest assms(3,4) by blast
qed

end

interpretation u64_code: prefix_code "to_le 8 :: u64 \<Rightarrow> bytes" "\<lambda>_. True"
  by unfold_locales (simp add: to_le_8_append)

interpretation bytes_code: prefix_code canon_bytes "\<lambda>s. length s < 2 ^ 64"
proof unfold_locales
  fix a b r s :: bytes
  assume len: "length a < 2 ^ 64" "length b < 2 ^ 64" and eq: "canon_bytes a @ r = canon_bytes b @ s"
  have "(word_of_nat (length a) :: u64) = word_of_nat (length b)" and rest: "a @ r = b @ s"
    using eq unfolding canon_bytes_def append_assoc to_le_8_append by blast+
  then have "length a = length b" using word_of_nat_inject_u64 [OF len] by blast
  then show "a = b \<and> r = s" using rest by simp
qed

lemma op_tag_inject: "op_tag p = op_tag q \<longleftrightarrow> p = q"
  by (cases p; cases q) simp_all

lemma like_tag_inject: "like_tag p = like_tag q \<longleftrightarrow> p = q"
  by (cases p; cases q) simp_all

lemma like_tag_marker: "0x10 OR fst (like_tag p) \<noteq> 0" "0x10 OR fst (like_tag p) = 0x10 OR fst (like_tag q) \<longleftrightarrow> fst (like_tag p) = fst (like_tag q)"
  by (cases p; simp; cases q; simp)+

interpretation like_code: prefix_code canon_like "\<lambda>s. \<forall>p. s = Some p \<longrightarrow> length (snd (like_tag p)) < 2 ^ 64"
proof unfold_locales
  fix a b :: "LikeStrategy option" and r s
  assume ok: "\<forall>p. a = Some p \<longrightarrow> length (snd (like_tag p)) < 2 ^ 64" "\<forall>p. b = Some p \<longrightarrow> length (snd (like_tag p)) < 2 ^ 64"
    and eq: "canon_like a @ r = canon_like b @ s"
  show "a = b \<and> r = s"
  proof (cases a)
    case None
    then show ?thesis using eq like_tag_marker(1) by (cases b) (simp_all add: canon_like_def)
  next
    case (Some p)
    then obtain q where q: "b = Some q" using eq like_tag_marker(1) by (cases b) (simp_all add: canon_like_def)
    then have "fst (like_tag p) = fst (like_tag q)"
      "canon_bytes (snd (like_tag p)) @ r = canon_bytes (snd (like_tag q)) @ s"
      using eq Some by (simp_all add: canon_like_def like_tag_marker)
    moreover have "snd (like_tag p) = snd (like_tag q) \<and> r = s"
      using bytes_code.unique [OF _ _ calculation(2)] ok Some q by blast
    ultimately show ?thesis using like_tag_inject [of p q] Some q by (simp add: prod_eq_iff)
  qed
qed

text \<open>What evaluation reads of a qual: the datum only where it is the constant itself.\<close>

definition evaluated :: "BatchQual \<Rightarrow> BatchQual" where
  "evaluated bq = (if is_batch_comparable_type (type_oid bq) then bq else bq\<lparr>const_datum := 0\<rparr>)"

definition sized :: "BatchQual \<Rightarrow> bool" where
  "sized bq \<longleftrightarrow> col_idx bq < 2 ^ 64 \<and> type_oid bq < 2 ^ 64
    \<and> (\<forall>s. text_const bq = Some s \<longrightarrow> length s < 2 ^ 64)
    \<and> (\<forall>p. like_strategy bq = Some p \<longrightarrow> length (snd (like_tag p)) < 2 ^ 64)
    \<and> (\<forall>l. in_list_i64 bq = Some l \<longrightarrow> length l < 2 ^ 64)
    \<and> (\<forall>l. in_list_text bq = Some l \<longrightarrow> length l < 2 ^ 64 \<and> (\<forall>s \<in> set l. length s < 2 ^ 64))"

interpretation i64_list_code: prefix_code "canon_list (to_le 8 :: u64 \<Rightarrow> bytes)" "\<lambda>l. length l < 2 ^ 64"
  using u64_code.unique_counted by unfold_locales blast

interpretation text_list_code: prefix_code "canon_list canon_bytes"
    "\<lambda>l. length l < 2 ^ 64 \<and> (\<forall>s \<in> set l. length s < 2 ^ 64)"
  using bytes_code.unique_counted by unfold_locales blast

lemma canon_qual_unique:
  assumes a: "sized a" and b: "sized b" and eq: "canon_qual a @ r = canon_qual b @ s"
  shows "evaluated a = evaluated b \<and> r = s"
proof -
  define ra where "ra = canon_datum a @ r"
  define rb where "rb = canon_datum b @ s"
  have "col_idx a = col_idx b \<and> op a = op b \<and> type_oid a = type_oid b" and
    1: "canon_opt canon_bytes (text_const a) @ canon_like (like_strategy a) @ canon_opt (canon_list (to_le 8)) (in_list_i64 a)
          @ canon_opt (canon_list canon_bytes) (in_list_text a) @ ra
       = canon_opt canon_bytes (text_const b) @ canon_like (like_strategy b) @ canon_opt (canon_list (to_le 8)) (in_list_i64 b)
          @ canon_opt (canon_list canon_bytes) (in_list_text b) @ rb"
    using eq a b
    by (simp_all add: canon_qual_def to_le_8_append op_tag_inject word_of_nat_inject_u64 sized_def ra_def rb_def)
  moreover have 2: "text_const a = text_const b"
      "canon_like (like_strategy a) @ canon_opt (canon_list (to_le 8)) (in_list_i64 a)
          @ canon_opt (canon_list canon_bytes) (in_list_text a) @ ra
       = canon_like (like_strategy b) @ canon_opt (canon_list (to_le 8)) (in_list_i64 b)
          @ canon_opt (canon_list canon_bytes) (in_list_text b) @ rb"
    using bytes_code.unique_option [OF _ _ 1] a b by (simp_all add: sized_def)
  moreover have 3: "like_strategy a = like_strategy b"
      "canon_opt (canon_list (to_le 8)) (in_list_i64 a) @ canon_opt (canon_list canon_bytes) (in_list_text a) @ ra
       = canon_opt (canon_list (to_le 8)) (in_list_i64 b) @ canon_opt (canon_list canon_bytes) (in_list_text b) @ rb"
    using like_code.unique [OF _ _ 2(2)] a b by (simp_all add: sized_def)
  moreover have 4: "in_list_i64 a = in_list_i64 b"
      "canon_opt (canon_list canon_bytes) (in_list_text a) @ ra = canon_opt (canon_list canon_bytes) (in_list_text b) @ rb"
    using i64_list_code.unique_option [OF _ _ 3(2)] a b by (simp_all add: sized_def)
  moreover have 5: "in_list_text a = in_list_text b" "ra = rb"
    using text_list_code.unique_option [OF _ _ 4(2)] a b by (simp_all add: sized_def)
  ultimately show ?thesis
    by (cases a; cases b) (auto simp: evaluated_def ra_def rb_def canon_datum_def to_le_8_append to_le_8_inject split: if_splits)
qed

fun sized_text :: "TextQualInfo \<Rightarrow> bool" where
  "sized_text (TqEqNe col s ne) \<longleftrightarrow> col < 2 ^ 64 \<and> length s < 2 ^ 64"
| "sized_text (TqLike col p ng) \<longleftrightarrow> col < 2 ^ 64 \<and> length (snd (like_tag p)) < 2 ^ 64"
| "sized_text (TqInList col vs) \<longleftrightarrow> col < 2 ^ 64 \<and> length vs < 2 ^ 64 \<and> (\<forall>s \<in> set vs. length s < 2 ^ 64)"

lemma text_tag_unique:
  assumes a: "sized_text (TqLike c p ng)" and b: "sized_text (TqLike c' q ng')"
    and eq: "canon_text_qual (TqLike c p ng) @ r = canon_text_qual (TqLike c' q ng') @ s"
  shows "TqLike c p ng = TqLike c' q ng' \<and> r = s"
proof -
  have sizes: "c < 2 ^ 64" "c' < 2 ^ 64" using a b by simp_all
  have 1: "c = c'" "ng = ng'" "fst (like_tag p) = fst (like_tag q)"
    "canon_bytes (snd (like_tag p)) @ r = canon_bytes (snd (like_tag q)) @ s"
    using eq unfolding canon_text_qual.simps append_Cons append_assoc list.inject to_le_8_append word_of_nat_inject_u64 [OF sizes]
    by (simp_all split: if_splits)
  then have "snd (like_tag p) = snd (like_tag q) \<and> r = s" using bytes_code.unique [OF _ _ 1(4)] a b by simp
  then show ?thesis using 1 like_tag_inject [of p q] by (simp add: prod_eq_iff)
qed

interpretation text_qual_code: prefix_code canon_text_qual sized_text
proof unfold_locales
  fix a b r s
  assume ok: "sized_text a" "sized_text b" and eq: "canon_text_qual a @ r = canon_text_qual b @ s"
  show "a = b \<and> r = s"
  proof (cases a)
    case a: (TqEqNe c t n)
    then obtain c' t' n' where b: "b = TqEqNe c' t' n'" using eq by (cases b) simp_all
    have "c = c'" "n = n'" and rest: "canon_bytes t @ r = canon_bytes t' @ s"
      using eq ok a b by (auto simp: to_le_8_append word_of_nat_inject_u64 split: if_splits)
    then show ?thesis using bytes_code.unique [OF _ _ rest] ok a b by simp
  next
    case a: (TqLike c p n)
    then obtain c' q n' where b: "b = TqLike c' q n'" using eq by (cases b) simp_all
    show ?thesis using text_tag_unique [of c p n c' q n' r s] ok eq unfolding a b by blast
  next
    case a: (TqInList c vs)
    then obtain c' vs' where b: "b = TqInList c' vs'" using eq by (cases b) simp_all
    have "c = c'" and rest: "canon_list canon_bytes vs @ r = canon_list canon_bytes vs' @ s"
      using eq ok a b by (auto simp: to_le_8_append word_of_nat_inject_u64)
    then show ?thesis using text_list_code.unique [OF _ _ rest] ok a b by simp
  qed
qed

lemma canon_text_qual_tag: "\<exists>t rest. canon_text_qual tq = t # rest \<and> t \<noteq> 1"
  by (cases tq) auto

lemma canon_text_quals_tag: "concat (map canon_text_qual ts) \<noteq> 1 # rest"
  using canon_text_qual_tag [of "hd ts"] by (cases ts) auto

lemma canon_qual_tag: "\<exists>rest. canon_qual q = 1 # rest"
  by (simp add: canon_qual_def)

lemma canon_text_quals_unique:
  assumes "\<forall>t \<in> set ts. sized_text t" and "\<forall>t \<in> set us. sized_text t"
    and "concat (map canon_text_qual ts) = concat (map canon_text_qual us)"
  shows "ts = us"
  using assms
proof (induction ts arbitrary: us)
  case Nil
  then show ?case using canon_text_qual_tag [of "hd us"] by (cases us) auto
next
  case (Cons t ts)
  then obtain u us' where us: "us = u # us'"
    using canon_text_qual_tag [of t] by (cases us) auto
  then show ?case
    using text_qual_code.unique [of t u "concat (map canon_text_qual ts)" "concat (map canon_text_qual us')"]
      Cons.prems Cons.IH [of us'] by simp
qed

lemma canon_quals_unique:
  assumes "\<forall>q \<in> set qs. sized q" and "\<forall>q \<in> set qs'. sized q"
    and "\<forall>t \<in> set ts. sized_text t" and "\<forall>t \<in> set us. sized_text t"
    and "concat (map canon_qual qs) @ concat (map canon_text_qual ts)
       = concat (map canon_qual qs') @ concat (map canon_text_qual us)"
  shows "map evaluated qs = map evaluated qs' \<and> ts = us"
  using assms
proof (induction qs arbitrary: qs')
  case Nil
  show ?case
  proof (cases qs')
    case Nil
    then show ?thesis using Nil.prems canon_text_quals_unique by simp
  next
    case (Cons q qs'')
    obtain rest where "canon_qual q = 1 # rest" using canon_qual_tag by blast
    then show ?thesis using Nil.prems(5) Cons canon_text_quals_tag [of ts] by simp
  qed
next
  case (Cons q qs)
  show ?case
  proof (cases qs')
    case Nil
    obtain rest where "canon_qual q = 1 # rest" using canon_qual_tag by blast
    then have "concat (map canon_text_qual us) = 1 # rest @ concat (map canon_qual qs) @ concat (map canon_text_qual ts)"
      using Cons.prems(5) Nil by simp
    then show ?thesis using canon_text_quals_tag by blast
  next
    case (Cons q' qs'')
    then have sized: "sized q" "sized q'" "\<forall>q \<in> set qs. sized q" "\<forall>q \<in> set qs''. sized q"
      and eq: "canon_qual q @ concat (map canon_qual qs) @ concat (map canon_text_qual ts)
        = canon_qual q' @ concat (map canon_qual qs'') @ concat (map canon_text_qual us)"
      using Cons.prems(1,2,5) by simp_all
    have "evaluated q = evaluated q'" and rest: "concat (map canon_qual qs) @ concat (map canon_text_qual ts)
        = concat (map canon_qual qs'') @ concat (map canon_text_qual us)"
      using canon_qual_unique [OF sized(1,2) eq] by blast+
    then show ?thesis using Cons.IH [OF sized(3,4) Cons.prems(3,4) rest] Cons by simp
  qed
qed

section \<open>Equal encodings select the same rows\<close>

lemma apply_qual_evaluated: "apply_qual (evaluated bq) = apply_qual bq"
proof (cases "is_batch_comparable_type (type_oid bq)")
  case False
  then show ?thesis
    by (intro ext) (simp add: apply_qual_def evaluated_def is_batch_comparable_type_def Let_def cong: if_cong option.case_cong)
qed (simp add: evaluated_def)

lemma col_idx_evaluated [simp]: "col_idx (evaluated bq) = col_idx bq"
  by (simp add: evaluated_def)

lemma eval_quals_evaluated:
  assumes "map evaluated qs = map evaluated qs'"
  shows "eval_quals_loop seg qs sel = eval_quals_loop seg qs' sel"
  using assms
proof (induction qs arbitrary: qs' sel)
  case (Cons q qs)
  then obtain q' qs'' where q: "qs' = q' # qs''" "evaluated q = evaluated q'" "map evaluated qs = map evaluated qs''" by auto
  then have "col_idx q = col_idx q'" and same: "apply_qual q = apply_qual q'"
    by (metis col_idx_evaluated, metis apply_qual_evaluated)
  moreover have "eval_quals_loop seg qs = eval_quals_loop seg qs''" by (intro ext) (rule Cons.IH [OF q(3)])
  ultimately show ?case unfolding q(1) eval_quals_loop.simps same by simp
qed simp

lemma canonical_same_rows:
  assumes "\<forall>q \<in> set qs. sized q" and "\<forall>q \<in> set qs'. sized q"
    and "\<forall>t \<in> set ts. sized_text t" and "\<forall>t \<in> set us. sized_text t"
    and "canonical qs ts = canonical qs' us"
  shows "evaluate_batch_quals seg n qs pre = evaluate_batch_quals seg n qs' pre \<and> ts = us"
proof -
  have "map evaluated qs = map evaluated qs'" and "ts = us"
    using canon_quals_unique [OF assms(1-4)] assms(5) by (simp_all add: canonical_def)
  moreover from this have "qs = [] \<longleftrightarrow> qs' = []" by auto
  ultimately show ?thesis using eval_quals_evaluated [of qs qs'] by (simp add: evaluate_batch_quals_def)
qed

end
