(* ===== verification/Cond_Cache.thy ===== *)
theory Cond_Cache
  imports Blob_Steps Cond_Payload Cond_Fingerprint
begin

text \<open>
  The condition cache (src/src/scan/exec/cond_cache.rs): selections of already filtered segments are
  kept in the blob cache under a fingerprint of the filter set.  The blob cache enters through the
  interface \<open>keyed_cache\<close>, which its model satisfies; what the scan sites rely on is proved from the
  interface alone.
\<close>

section \<open>The interface of the cache to its clients\<close>

locale keyed_cache =
  fixes ok :: "'s \<Rightarrow> bool"
    and held :: "'s \<Rightarrow> 'k \<Rightarrow> 'v option"
    and fetch :: "'k \<Rightarrow> 's \<Rightarrow> ('s \<times> 'v option) option"
    and put :: "'a \<Rightarrow> 'k \<Rightarrow> 'v \<Rightarrow> 's \<Rightarrow> 's option"
    and env :: "'a \<Rightarrow> bool"
    and fits :: "'v \<Rightarrow> bool"
  assumes fetch_law: "ok s \<Longrightarrow> \<exists>s'. fetch k s = Some (s', held s k) \<and> ok s' \<and> held s' = held s"
    and put_law: "ok s \<Longrightarrow> env a \<Longrightarrow> fits v \<Longrightarrow> \<exists>s'. put a k v s = Some s' \<and> ok s'
      \<and> (\<forall>k' w. held s' k' = Some w \<longrightarrow> held s k' = Some w \<or> k' = k \<and> w = v)"
begin

lemma fetch_good:
  assumes "ok s" and "\<And>k v. held s k = Some v \<Longrightarrow> good k v"
  obtains s' r where "fetch k s = Some (s', r)" "ok s'" "\<And>k v. held s' k = Some v \<Longrightarrow> good k v"
    "\<And>v. r = Some v \<Longrightarrow> good k v"
proof -
  obtain s' where "fetch k s = Some (s', held s k)" "ok s'" "held s' = held s" using fetch_law [OF assms(1)] by blast
  then show thesis using that [of s' "held s k"] assms(2) by simp
qed

lemma put_good:
  assumes "ok s" and "env a" and "fits v" and "\<And>k v. held s k = Some v \<Longrightarrow> good k v" and "good k v"
  obtains s' where "put a k v s = Some s'" "ok s'" "\<And>k v. held s' k = Some v \<Longrightarrow> good k v"
proof -
  obtain s' where s': "put a k v s = Some s'" "ok s'"
    "\<And>k' w. held s' k' = Some w \<Longrightarrow> held s k' = Some w \<or> k' = k \<and> w = v"
    using put_law [OF assms(1-3)] by blast
  have "good k' w" if "held s' k' = Some w" for k' w using s'(3) [OF that] assms(4,5) by blast
  then show thesis using that [OF s'(1,2)] by blast
qed

end

section \<open>Borrowing the bytes of an entry\<close>

text \<open>Look up, read and drop the pin at once, as the condition cache does.\<close>

definition borrow :: "BlobCacheKey \<Rightarrow> BlobCacheCtl \<Rightarrow> (BlobCacheCtl \<times> bytes option) option" where
  "borrow k c = do {
     (c, r) \<leftarrow> get_pinned k c;
     case r of
       None \<Rightarrow> Some (c, None)
     | Some pin \<Rightarrow> do { data \<leftarrow> as_slice c pin; c \<leftarrow> release pin c; Some (c, Some data) } }"

definition live :: "BlobCacheCtl \<Rightarrow> bool" where
  "live c \<longleftrightarrow> usable c \<and> (\<exists>pins. cache_inv pins c \<and> size pins + 1 < 2 ^ 32)"

lemma borrow_law:
  assumes "live c"
  shows "\<exists>c'. borrow k c = Some (c', contents c k) \<and> live c' \<and> contents c' = contents c"
proof -
  obtain pins where inv: "cache_inv pins c" and on: "usable c" and room: "size pins + 1 < 2 ^ 32"
    using assms by (auto simp: live_def)
  obtain c1 r where get: "get_pinned k c = Some (c1, r)" using get_pinned_ok [OF inv, of k] by blast
  show ?thesis
  proof (cases r)
    case None
    then have 1: "cache_inv pins c1" "usable c1" "area c1 = area c" using get_pinned_inv(2) [OF inv, of k c1] get on by auto
    have "contents c1 = contents c" using contents_same_area [OF inv 1(1) on 1(2,3)] by (intro ext)
    then show ?thesis using get None 1(1,2) room by (auto simp: borrow_def contents_def live_def)
  next
    case (Some x)
    then have inv1: "cache_inv (add_mset x pins) c1" and on1: "usable c1"
      using get_pinned_inv(1) [OF inv, of k c1 x] get room on by auto
    obtain d l p where x: "cores_of c x = Some (k, d, l, p)" "cores_of c1 = (cores_of c)(x \<mapsto> (k, d, l, p + 1))"
      "payloads (area c1) = payloads (area c)"
      using get_pinned_ok [OF inv, of k] get Some by auto
    obtain data where data: "as_slice c1 x = Some data" using get_pinned_slice [OF inv, of k c1 x] get Some by auto
    obtain c2 k2 d2 l2 p2 where rel: "release x c1 = Some c2" "cache_inv pins c2" "usable c2"
      "payloads (area c2) = payloads (area c1)" "cores_of c1 x = Some (k2, d2, l2, p2)"
      "cores_of c2 = (cores_of c1)(x \<mapsto> (k2, d2, l2, p2 - 1))"
      using release_ok [OF inv1, of x] on1 by auto
    have "contents c1 = contents c" using contents_same [OF inv inv1 on on1 x] by (intro ext)
    moreover have "contents c2 = contents c1" using contents_same [OF inv1 rel(2) on1 rel(3,5,6,4)] by (intro ext)
    ultimately show ?thesis using get Some data rel(1,2,3) room by (auto simp: borrow_def contents_def live_def)
  qed
qed

lemma insert_law:
  assumes "live c" and "dsa_contract alloc" and "length data < 2 ^ 32"
  shows "\<exists>c'. insert_blob alloc k data c = Some c' \<and> live c'
    \<and> (\<forall>k' w. contents c' k' = Some w \<longrightarrow> contents c k' = Some w \<or> k' = k \<and> w = data)"
proof -
  obtain pins where inv: "cache_inv pins c" and on: "usable c" and room: "size pins + 1 < 2 ^ 32"
    using assms(1) by (auto simp: live_def)
  obtain c' where ins: "insert_blob alloc k data c = Some c'" using insert_blob_ok [OF inv assms(2,3), of k] by blast
  then have step: "cache_step (c, pins) (Insert k data) (c', pins)" using assms(2,3) by (intro cache_step.ins)
  have "live c'" using cache_step_inv [OF inv step] on room by (auto simp: live_def)
  moreover have "contents c k' = Some w \<or> k' = k \<and> w = data" if "contents c' k' = Some w" for k' w
    using cache_step_contents [OF inv on step that] by auto
  ultimately show ?thesis using ins by blast
qed

interpretation blob_cache: keyed_cache live contents borrow insert_blob dsa_contract "\<lambda>data. length data < 2 ^ 32"
proof unfold_locales
  show "\<exists>s'. borrow k s = Some (s', contents s k) \<and> live s' \<and> contents s' = contents s" if "live s" for s k
    using borrow_law [OF that] .
  show "\<exists>s'. insert_blob a k v s = Some s' \<and> live s'
      \<and> (\<forall>k' w. contents s' k' = Some w \<longrightarrow> contents s k' = Some w \<or> k' = k \<and> w = v)"
    if "live s" "dsa_contract a" "length v < 2 ^ 32" for s a v k
    using insert_law [OF that] .
qed

section \<open>The operations of the condition cache\<close>

definition cond_enabled :: "bool \<Rightarrow> BlobCacheCtl \<Rightarrow> bool" where
  "cond_enabled guc c \<longleftrightarrow> guc \<and> usable c"

definition cond_lookup ::
  "bool \<Rightarrow> u32 \<Rightarrow> u32 \<Rightarrow> u64 \<Rightarrow> nat \<Rightarrow> BlobCacheCtl \<Rightarrow> (BlobCacheCtl \<times> CachedSelection option) option" where
  "cond_lookup guc oid segment fp row_count c =
    (if \<not> cond_enabled guc c then Some (c, None)
     else do {
       (c, r) \<leftarrow> borrow (condition_key oid segment fp) c;
       Some (c, case r of None \<Rightarrow> None | Some data \<Rightarrow> decode_payload data row_count) })"

definition cond_store ::
  "bool \<Rightarrow> dsa_alloc \<Rightarrow> u32 \<Rightarrow> u32 \<Rightarrow> u64 \<Rightarrow> nat \<Rightarrow> bool list \<Rightarrow> BlobCacheCtl \<Rightarrow> BlobCacheCtl option" where
  "cond_store guc alloc oid segment fp row_count selection c =
    (if \<not> cond_enabled guc c then Some c
     else case encode_payload selection row_count of
            None \<Rightarrow> Some c
          | Some payload \<Rightarrow> insert_blob alloc (condition_key oid segment fp) payload c)"

definition store_encoded_raw ::
  "bool \<Rightarrow> dsa_alloc \<Rightarrow> u32 \<Rightarrow> u32 \<Rightarrow> u64 \<Rightarrow> bytes \<Rightarrow> BlobCacheCtl \<Rightarrow> BlobCacheCtl option" where
  "store_encoded_raw guc alloc oid segment fp payload c =
    (if \<not> cond_enabled guc c then Some c
     else insert_blob alloc \<lparr>companion_oid = oid, segment_id = segment, col_idx = 0,
            kind = KEY_KIND_CONDITION, qual_fp = fp\<rparr> payload c)"

text \<open>The state a leader prepares for its worker threads.\<close>

record CondBatch =
  batch_fp :: "u64 option"
  cached :: "u32 \<times> u32 \<Rightarrow> bytes option"
  filter_only_cols :: "bool list"

record CondSegment =
  seg_oid :: u32
  seg_id :: u32
  seg_rows :: nat
  seg_tombstones :: bool

definition batch_disabled :: "nat \<Rightarrow> CondBatch" where
  "batch_disabled n_cols = \<lparr>batch_fp = None, cached = (\<lambda>_. None), filter_only_cols = replicate n_cols False\<rparr>"

fun prefetch_loop ::
  "u64 \<Rightarrow> CondSegment list \<Rightarrow> (u32 \<times> u32 \<Rightarrow> bytes option) \<Rightarrow> BlobCacheCtl
   \<Rightarrow> ((u32 \<times> u32 \<Rightarrow> bytes option) \<times> BlobCacheCtl) option" where
  "prefetch_loop fp [] m c = Some (m, c)"
| "prefetch_loop fp (seg # segs) m c =
    (if seg_rows seg = 0 \<or> seg_tombstones seg then prefetch_loop fp segs m c
     else do {
       (c, r) \<leftarrow> borrow (condition_key (seg_oid seg) (seg_id seg) fp) c;
       let m = (case r of None \<Rightarrow> m
                | Some data \<Rightarrow> if data = [] then m else m((seg_oid seg, seg_id seg) \<mapsto> data));
       prefetch_loop fp segs m c })"

definition prefetch :: "u64 \<Rightarrow> CondSegment list \<Rightarrow> CondBatch \<Rightarrow> BlobCacheCtl \<Rightarrow> (CondBatch \<times> BlobCacheCtl) option" where
  "prefetch fp segs b c = do {
     (m, c) \<leftarrow> prefetch_loop fp segs (cached b) c;
     Some (b\<lparr>batch_fp := Some fp, cached := m\<rparr>, c) }"

definition batch_hit :: "CondBatch \<Rightarrow> CondSegment \<Rightarrow> CachedSelection option" where
  "batch_hit b seg = do {
     _ \<leftarrow> batch_fp b;
     data \<leftarrow> cached b (seg_oid seg, seg_id seg);
     decode_payload data (seg_rows seg) }"

text \<open>
  The filter step of a scan over one segment (src/src/scan/exec/agg/serial.rs): a cached selection
  replaces the evaluation, a fresh one is stored.  The inner \<^const>\<open>None\<close> is a segment that is skipped.
\<close>

definition segment_selection ::
  "bool \<Rightarrow> dsa_alloc \<Rightarrow> u64 option \<Rightarrow> CondSegment \<Rightarrow> (unit \<Rightarrow> bool list option) \<Rightarrow> BlobCacheCtl
   \<Rightarrow> (BlobCacheCtl \<times> bool list option) option" where
  "segment_selection guc alloc cond_fp seg evaluate c = do {
     (c, hit) \<leftarrow>
       (case cond_fp of
          Some fp \<Rightarrow> if \<not> seg_tombstones seg then cond_lookup guc (seg_oid seg) (seg_id seg) fp (seg_rows seg) c
                     else Some (c, None)
        | None \<Rightarrow> Some (c, None));
     case hit of
       Some NonePass \<Rightarrow> Some (c, None)
     | Some AllPass \<Rightarrow> Some (c, Some [])
     | Some (Bitmap v) \<Rightarrow> Some (c, Some v)
     | None \<Rightarrow> do {
         sel \<leftarrow> evaluate ();
         c \<leftarrow> (case cond_fp of
                 Some fp \<Rightarrow> if \<not> seg_tombstones seg
                            then cond_store guc alloc (seg_oid seg) (seg_id seg) fp (seg_rows seg) sel c
                            else Some c
               | None \<Rightarrow> Some c);
         Some (c, Some sel) } }"

section \<open>Cached selections are the evaluated ones\<close>

text \<open>A selection vector as rows: the empty vector means that every row passes.\<close>

definition passing :: "nat \<Rightarrow> bool list \<Rightarrow> bool list" where
  "passing n sel = (if sel = [] then replicate n True else sel)"

text \<open>
  \<open>truth\<close> is the selection of a segment under the filter set with a fingerprint; a cache is coherent
  when every payload under a condition key decodes to it.
\<close>

definition good_payload :: "(u32 \<Rightarrow> u32 \<Rightarrow> u64 \<Rightarrow> bool list) \<Rightarrow> BlobCacheKey \<Rightarrow> bytes \<Rightarrow> bool" where
  "good_payload truth k data \<longleftrightarrow>
    (\<forall>oid segment fp n s. k = condition_key oid segment fp \<longrightarrow> decode_payload data n = Some s
       \<longrightarrow> selection_of s n = passing n (truth oid segment fp))"

definition coherent :: "(u32 \<Rightarrow> u32 \<Rightarrow> u64 \<Rightarrow> bool list) \<Rightarrow> BlobCacheCtl \<Rightarrow> bool" where
  "coherent truth c \<longleftrightarrow> (\<forall>k data. contents c k = Some data \<longrightarrow> good_payload truth k data)"

lemma condition_key_inject:
  "condition_key oid segment fp = condition_key oid' segment' fp' \<longleftrightarrow> oid = oid' \<and> segment = segment' \<and> fp = fp'"
  by (auto simp: condition_key_def)

lemma encode_payload_good:
  assumes "encode_payload (truth oid segment fp) n = Some payload"
  shows "good_payload truth (condition_key oid segment fp) payload"
  using decode_encode_payload [OF assms] unfolding good_payload_def condition_key_inject
  by (metis option.distinct(1) option.inject passing_def)

lemma cond_lookup_good:
  assumes "live c" and "coherent truth c"
  shows "\<exists>c' r. cond_lookup guc oid segment fp n c = Some (c', r) \<and> live c' \<and> coherent truth c'
    \<and> (\<forall>s. r = Some s \<longrightarrow> selection_of s n = passing n (truth oid segment fp))"
proof (cases "cond_enabled guc c")
  case True
  obtain c' r where "borrow (condition_key oid segment fp) c = Some (c', r)" "live c'"
    "\<And>k v. contents c' k = Some v \<Longrightarrow> good_payload truth k v"
    "\<And>v. r = Some v \<Longrightarrow> good_payload truth (condition_key oid segment fp) v"
    using blob_cache.fetch_good [OF assms(1), of "good_payload truth" "condition_key oid segment fp"] assms(2)
    unfolding coherent_def by blast
  then show ?thesis using True
    by (cases r) (auto simp: cond_lookup_def coherent_def good_payload_def)
qed (use assms in \<open>simp add: cond_lookup_def\<close>)

lemma cond_store_good:
  assumes "live c" and "coherent truth c" and "dsa_contract alloc"
  shows "\<exists>c'. cond_store guc alloc oid segment fp n (truth oid segment fp) c = Some c' \<and> live c' \<and> coherent truth c'"
proof (cases "cond_enabled guc c \<and> encode_payload (truth oid segment fp) n \<noteq> None")
  case True
  then obtain payload where enc: "encode_payload (truth oid segment fp) n = Some payload" by blast
  have "length payload < 2 ^ 32" using encode_payload_length [OF enc] .
  then obtain c' where "insert_blob alloc (condition_key oid segment fp) payload c = Some c'" "live c'"
    "\<And>k v. contents c' k = Some v \<Longrightarrow> good_payload truth k v"
    using blob_cache.put_good [OF assms(1,3), of payload "good_payload truth" "condition_key oid segment fp"]
      assms(2) encode_payload_good [of truth oid segment fp n payload, OF enc] unfolding coherent_def by blast
  then show ?thesis using True enc by (auto simp: cond_store_def coherent_def)
qed (use assms in \<open>auto simp: cond_store_def split: option.splits\<close>)

lemma segment_selection_good:
  assumes "live c" and "coherent truth c" and "dsa_contract alloc"
    and evaluate: "\<And>fp. cond_fp = Some fp \<Longrightarrow> sel = truth (seg_oid seg) (seg_id seg) fp"
  shows "\<exists>c' r. segment_selection guc alloc cond_fp seg (\<lambda>_. Some sel) c = Some (c', r)
    \<and> live c' \<and> coherent truth c'
    \<and> (case r of None \<Rightarrow> passing (seg_rows seg) sel = replicate (seg_rows seg) False
       | Some v \<Rightarrow> passing (seg_rows seg) v = passing (seg_rows seg) sel)"
proof (cases "\<exists>fp. cond_fp = Some fp \<and> \<not> seg_tombstones seg")
  case True
  then obtain fp where fp: "cond_fp = Some fp" "\<not> seg_tombstones seg" by blast
  then have sel: "sel = truth (seg_oid seg) (seg_id seg) fp" using evaluate by blast
  obtain c1 hit where look: "cond_lookup guc (seg_oid seg) (seg_id seg) fp (seg_rows seg) c = Some (c1, hit)"
    "live c1" "coherent truth c1"
    and hit: "\<And>s. hit = Some s \<Longrightarrow> selection_of s (seg_rows seg) = passing (seg_rows seg) sel"
    using cond_lookup_good [OF assms(1,2), of guc "seg_oid seg" "seg_id seg" fp "seg_rows seg"] sel by blast
  obtain c2 where "cond_store guc alloc (seg_oid seg) (seg_id seg) fp (seg_rows seg) sel c1 = Some c2"
    "live c2" "coherent truth c2"
    using cond_store_good [OF look(2,3) assms(3), of guc "seg_oid seg" "seg_id seg" fp "seg_rows seg"] sel by blast
  then show ?thesis using fp look hit
    by (cases hit; cases "the hit") (auto simp: segment_selection_def passing_def split: if_splits)
next
  case False
  then show ?thesis using assms(1,2) by (cases cond_fp) (auto simp: segment_selection_def)
qed

text \<open>The payloads a leader prefetched for its worker threads.\<close>

definition good_batch :: "(u32 \<Rightarrow> u32 \<Rightarrow> u64 \<Rightarrow> bool list) \<Rightarrow> u64 \<Rightarrow> (u32 \<times> u32 \<Rightarrow> bytes option) \<Rightarrow> bool" where
  "good_batch truth fp m \<longleftrightarrow>
    (\<forall>oid segment data. m (oid, segment) = Some data \<longrightarrow> good_payload truth (condition_key oid segment fp) data)"

lemma prefetch_loop_good:
  assumes "live c" and "coherent truth c" and "good_batch truth fp m"
  shows "\<exists>m' c'. prefetch_loop fp segs m c = Some (m', c') \<and> live c' \<and> coherent truth c' \<and> good_batch truth fp m'"
  using assms
proof (induction segs arbitrary: m c)
  case (Cons seg segs)
  let ?k = "condition_key (seg_oid seg) (seg_id seg) fp"
  obtain c1 r where c1: "borrow ?k c = Some (c1, r)" "live c1" "coherent truth c1"
    and r: "\<And>v. r = Some v \<Longrightarrow> good_payload truth ?k v"
    using blob_cache.fetch_good [OF Cons.prems(1), of "good_payload truth" ?k] Cons.prems(2)
    unfolding coherent_def by blast
  define m1 where "m1 = (case r of None \<Rightarrow> m
    | Some data \<Rightarrow> if data = [] then m else m((seg_oid seg, seg_id seg) \<mapsto> data))"
  have "good_batch truth fp m1"
    using Cons.prems(3) r unfolding good_batch_def m1_def by (auto split: option.splits if_splits)
  then show ?case
    using Cons.IH [OF Cons.prems] Cons.IH [OF c1(2,3)] c1(1) by (auto simp: m1_def Let_def)
qed simp

lemma prefetch_good:
  assumes "live c" and "coherent truth c"
  shows "\<exists>b c'. prefetch fp segs (batch_disabled n_cols) c = Some (b, c') \<and> live c' \<and> coherent truth c'
    \<and> good_batch truth fp (cached b) \<and> filter_only_cols b = replicate n_cols False"
proof -
  have "good_batch truth fp (\<lambda>_. None)" by (simp add: good_batch_def)
  from prefetch_loop_good [OF assms this, of segs] show ?thesis
    by (auto simp: prefetch_def batch_disabled_def)
qed

lemma batch_hit_good:
  assumes "good_batch truth fp (cached b)" and "batch_hit b seg = Some s"
  shows "selection_of s (seg_rows seg) = passing (seg_rows seg) (truth (seg_oid seg) (seg_id seg) fp)"
  using assms by (auto simp: batch_hit_def good_batch_def good_payload_def bind_eq_Some_conv)

end
