(* ===== verification/Cond_Scan.thy ===== *)
theory Cond_Scan
  imports Cond_Cache
begin

text \<open>
  A sequence of filtered segment scans that share one condition cache (the segment loop of
  src/src/scan/exec/agg/serial.rs): fingerprint, lookup, evaluation and store composed.  As long as
  no two different filter sets of the sequence collide under the 64-bit fingerprint, every scan
  selects the rows that evaluating its quals selects, whatever the cache kept or evicted.
\<close>

type_synonym scan = "CondSegment \<times> BatchQual list"

definition cond_fingerprint :: "bool \<Rightarrow> BatchQual list \<Rightarrow> BlobCacheCtl \<Rightarrow> u64 option" where
  "cond_fingerprint guc batch_quals c =
    (if cond_enabled guc c then fingerprint_quals batch_quals [] else None)"

definition scan_selection :: "(u32 \<Rightarrow> u32 \<Rightarrow> cell list list) \<Rightarrow> scan \<Rightarrow> bool list option" where
  "scan_selection decompressed s = (case s of (seg, batch_quals) \<Rightarrow>
     evaluate_batch_quals (decompressed (seg_oid seg) (seg_id seg)) (seg_rows seg) batch_quals [])"

text \<open>Each scan either skips its segment or hands on a selection vector.\<close>

fun scan_segments ::
  "bool \<Rightarrow> dsa_alloc \<Rightarrow> (u32 \<Rightarrow> u32 \<Rightarrow> cell list list) \<Rightarrow> scan list \<Rightarrow> BlobCacheCtl
   \<Rightarrow> (BlobCacheCtl \<times> bool list option list) option" where
  "scan_segments guc alloc decompressed [] c = Some (c, [])"
| "scan_segments guc alloc decompressed (s # scans) c = do {
     (c, r) \<leftarrow> (if seg_rows (fst s) = 0 then Some (c, None)
                else segment_selection guc alloc (cond_fingerprint guc (snd s) c) (fst s)
                       (\<lambda>_. scan_selection decompressed s) c);
     (c, rs) \<leftarrow> scan_segments guc alloc decompressed scans c;
     Some (c, r # rs) }"

section \<open>The selection a fingerprint stands for\<close>

definition same_segment :: "scan \<Rightarrow> u32 \<Rightarrow> u32 \<Rightarrow> bool" where
  "same_segment s oid segment \<longleftrightarrow> seg_oid (fst s) = oid \<and> seg_id (fst s) = segment"

definition filter_truth ::
  "(u32 \<Rightarrow> u32 \<Rightarrow> cell list list) \<Rightarrow> scan list \<Rightarrow> u32 \<Rightarrow> u32 \<Rightarrow> u64 \<Rightarrow> bool list" where
  "filter_truth decompressed scans oid segment fp =
    (case List.find (\<lambda>s. same_segment s oid segment \<and> fingerprint_quals (snd s) [] = Some fp) scans of
       Some s \<Rightarrow> the (scan_selection decompressed s)
     | None \<Rightarrow> [])"

text \<open>
  The scans of one table: a segment has one row count, its quals have a machine-sized encoding and
  evaluate without a panic, and the fingerprint separates the filter sets that differ.
\<close>

definition scans_ok :: "(u32 \<Rightarrow> u32 \<Rightarrow> cell list list) \<Rightarrow> scan list \<Rightarrow> bool" where
  "scans_ok decompressed scans \<longleftrightarrow>
    (\<forall>s \<in> set scans. (\<forall>q \<in> set (snd s). sized q) \<and> scan_selection decompressed s \<noteq> None)
    \<and> (\<forall>s \<in> set scans. \<forall>t \<in> set scans. same_segment t (seg_oid (fst s)) (seg_id (fst s)) \<longrightarrow> seg_rows (fst t) = seg_rows (fst s))
    \<and> (\<forall>s \<in> set scans. \<forall>t \<in> set scans. fingerprint_quals (snd s) [] \<noteq> None
        \<longrightarrow> fingerprint_quals (snd s) [] = fingerprint_quals (snd t) [] \<longrightarrow> canonical (snd s) [] = canonical (snd t) [])"

lemma filter_truth_of:
  assumes ok: "scans_ok decompressed scans" and "s \<in> set scans" and "fingerprint_quals (snd s) [] = Some fp"
  shows "scan_selection decompressed s = Some (filter_truth decompressed scans (seg_oid (fst s)) (seg_id (fst s)) fp)"
proof -
  let ?P = "\<lambda>t. same_segment t (seg_oid (fst s)) (seg_id (fst s)) \<and> fingerprint_quals (snd t) [] = Some fp"
  have "?P s" using assms(3) by (simp add: same_segment_def)
  then obtain t where t: "List.find ?P scans = Some t"
    using assms(2) find_None_iff [of ?P scans] by (cases "List.find ?P scans") blast+
  then have P: "?P t" and mem: "t \<in> set scans" by (auto simp: find_Some_iff)
  have size: "\<forall>q \<in> set (snd s). sized q" "\<forall>q \<in> set (snd t). sized q"
    using ok assms(2) mem unfolding scans_ok_def by blast+
  have same: "canonical (snd s) [] = canonical (snd t) []"
    using ok assms(2,3) mem P unfolding scans_ok_def by (metis option.distinct(1))
  have "seg_rows (fst t) = seg_rows (fst s)"
    using ok assms(2) mem P unfolding scans_ok_def by blast
  note same = same this
  have "scan_selection decompressed t = scan_selection decompressed s"
    using canonical_same_rows [OF size, of "[]" "[]"] same P by (simp add: scan_selection_def same_segment_def split_beta)
  moreover have "scan_selection decompressed s \<noteq> None" using ok assms(2) unfolding scans_ok_def by blast
  ultimately show ?thesis using t unfolding filter_truth_def by auto
qed

text \<open>A skipped segment has no row that passes; a segment without rows is skipped whatever its quals.\<close>

definition selects :: "nat \<Rightarrow> bool list option \<Rightarrow> bool list \<Rightarrow> bool" where
  "selects n r sel \<longleftrightarrow> n = 0 \<or> (case r of None \<Rightarrow> passing n sel = replicate n False | Some v \<Rightarrow> passing n v = passing n sel)"

lemma scan_segments_good:
  assumes "dsa_contract alloc" and "\<And>s fp. s \<in> set scans \<Longrightarrow> fingerprint_quals (snd s) [] = Some fp
      \<Longrightarrow> scan_selection decompressed s = Some (truth (seg_oid (fst s)) (seg_id (fst s)) fp)"
    and "\<forall>s \<in> set scans. scan_selection decompressed s \<noteq> None"
    and "live c" and "coherent truth c"
  shows "\<exists>c' rs. scan_segments guc alloc decompressed scans c = Some (c', rs)
    \<and> list_all2 (\<lambda>s r. selects (seg_rows (fst s)) r (the (scan_selection decompressed s))) scans rs"
  using assms(2-5)
proof (induction scans arbitrary: c)
  case (Cons s scans)
  obtain sel where sel: "scan_selection decompressed s = Some sel" using Cons.prems(2) by auto
  have truth: "sel = truth (seg_oid (fst s)) (seg_id (fst s)) fp" if "cond_fingerprint guc (snd s) c = Some fp" for fp
    using that Cons.prems(1) [of s fp] sel by (simp add: cond_fingerprint_def split: if_splits)
  obtain c1 r where c1: "(if seg_rows (fst s) = 0 then Some (c, None)
      else segment_selection guc alloc (cond_fingerprint guc (snd s) c) (fst s) (\<lambda>_. scan_selection decompressed s) c) = Some (c1, r)"
    "live c1" "coherent truth c1" "selects (seg_rows (fst s)) r sel"
  proof (cases "seg_rows (fst s) = 0")
    case True
    then show ?thesis using that [of c None] Cons.prems(3,4) by (simp add: selects_def)
  next
    case False
    then show ?thesis
      using that segment_selection_good [where guc = guc and seg = "fst s", OF Cons.prems(3,4) assms(1) truth, of "cond_fingerprint guc (snd s) c"] sel
      by (auto simp: selects_def)
  qed
  have "\<exists>c' rs. scan_segments guc alloc decompressed scans c1 = Some (c', rs)
    \<and> list_all2 (\<lambda>s r. selects (seg_rows (fst s)) r (the (scan_selection decompressed s))) scans rs"
    using Cons.prems by (intro Cons.IH c1(2,3)) auto
  then show ?case using c1(1,4) sel by auto
qed simp

end
