(* ===== verification/Lz4_Codec.thy ===== *)
theory Lz4_Codec
  imports Compressed_Column
begin

unbundle bit_operations_syntax

text \<open>
  LZ4 coding of text columns (\<^verbatim>\<open>src/compression/lz4.rs\<close>): the monolithic and the blocked format, with
  the partial decoder that skips blocks in which no row is selected. A string is its bytes; text
  decoding validates UTF-8 as \<^verbatim>\<open>std::str::from_utf8\<close> does. The \<^verbatim>\<open>lz4_flex\<close> crate is a parameter: a
  record of the four functions the source calls, with its documented behaviour as the predicate
  \<open>lz4_contract\<close>.
\<close>

section \<open>UTF-8 validation\<close>

definition cont :: "u8 \<Rightarrow> bool" where
  "cont b \<longleftrightarrow> 0x80 \<le> b \<and> b \<le> 0xBF"

fun utf8_valid :: "bytes \<Rightarrow> bool" where
  "utf8_valid [] = True"
| "utf8_valid (b # bs) =
     (if b < 0x80 then utf8_valid bs
      else if 0xC2 \<le> b \<and> b \<le> 0xDF then
        (case bs of c1 # rest \<Rightarrow> cont c1 \<and> utf8_valid rest | _ \<Rightarrow> False)
      else if 0xE0 \<le> b \<and> b \<le> 0xEF then
        (case bs of c1 # c2 # rest \<Rightarrow>
            (if b = 0xE0 then 0xA0 \<le> c1 \<and> c1 \<le> 0xBF
             else if b = 0xED then 0x80 \<le> c1 \<and> c1 \<le> 0x9F else cont c1)
            \<and> cont c2 \<and> utf8_valid rest
         | _ \<Rightarrow> False)
      else if 0xF0 \<le> b \<and> b \<le> 0xF4 then
        (case bs of c1 # c2 # c3 # rest \<Rightarrow>
            (if b = 0xF0 then 0x90 \<le> c1 \<and> c1 \<le> 0xBF
             else if b = 0xF4 then 0x80 \<le> c1 \<and> c1 \<le> 0x8F else cont c1)
            \<and> cont c2 \<and> cont c3 \<and> utf8_valid rest
         | _ \<Rightarrow> False)
      else False)"

section \<open>The LZ4 library\<close>

text \<open>
  \<^verbatim>\<open>compress_prepend_size\<close>, \<^verbatim>\<open>decompress_size_prepended\<close>, \<^verbatim>\<open>block::uncompressed_size\<close> (the size and the rest
  of the input) and \<^verbatim>\<open>decompress_into\<close> (the bytes it writes at the front of an output of the given
  length). An \<^verbatim>\<open>Err\<close> is \<^const>\<open>None\<close>; every caller unwraps it.
\<close>

record lz4_flex =
  compress_prepend_size :: "bytes \<Rightarrow> bytes"
  decompress_size_prepended :: "bytes \<Rightarrow> bytes option"
  uncompressed_size :: "bytes \<Rightarrow> (nat \<times> bytes) option"
  decompress_into :: "bytes \<Rightarrow> nat \<Rightarrow> bytes option"

definition lz4_contract :: "lz4_flex \<Rightarrow> bool" where
  "lz4_contract L \<longleftrightarrow>
     (\<forall>raw. length raw < 2 ^ 32 \<longrightarrow>
        decompress_size_prepended L (compress_prepend_size L raw) = Some raw
        \<and> (\<exists>block. compress_prepend_size L raw = to_le 4 (word_of_nat (length raw) :: u32) @ block
             \<and> decompress_into L block (length raw) = Some raw))
     \<and> (\<forall>n block. n < 2 ^ 32 \<longrightarrow>
          uncompressed_size L (to_le 4 (word_of_nat n :: u32) @ block) = Some (n, block))"

lemma lz4_contract_monolithic:
  "lz4_contract L \<Longrightarrow> length raw < 2 ^ 32 \<Longrightarrow>
   decompress_size_prepended L (compress_prepend_size L raw) = Some raw"
  by (simp add: lz4_contract_def)

lemma lz4_contract_block:
  assumes "lz4_contract L" and "length raw < 2 ^ 32"
  obtains block where "\<And>rest. uncompressed_size L (compress_prepend_size L raw @ rest) = Some (length raw, block @ rest)"
    and "decompress_into L block (length raw) = Some raw"
  using assms unfolding lz4_contract_def by (metis append.assoc)

section \<open>Length-prefixed strings\<close>

definition pack_strings :: "bytes list \<Rightarrow> bytes" where
  "pack_strings values = concat (map (\<lambda>s. to_le 4 (word_of_nat (length s) :: u32) @ s) values)"

fun parse_ranges :: "bytes \<Rightarrow> nat \<Rightarrow> nat \<Rightarrow> (nat \<times> nat) list option" where
  "parse_ranges raw offset 0 = Some []"
| "parse_ranges raw offset (Suc n) = do {
     w \<leftarrow> read_le raw offset 4;
     let str_len = unat (w :: u32);
     rest \<leftarrow> parse_ranges raw (offset + 4 + str_len) n;
     Some ((offset + 4, str_len) # rest)
   }"

fun parse_strings :: "bytes \<Rightarrow> nat \<Rightarrow> nat \<Rightarrow> bytes list option" where
  "parse_strings raw offset 0 = Some []"
| "parse_strings raw offset (Suc n) = do {
     w \<leftarrow> read_le raw offset 4;
     let str_len = unat (w :: u32);
     s \<leftarrow> slice raw (offset + 4) (offset + 4 + str_len);
     _ \<leftarrow> (if utf8_valid s then Some () else None);
     rest \<leftarrow> parse_strings raw (offset + 4 + str_len) n;
     Some (s # rest)
   }"

definition lz4_encode :: "lz4_flex \<Rightarrow> bytes list \<Rightarrow> bytes" where
  "lz4_encode L values = (if values = [] then [] else compress_prepend_size L (pack_strings values))"

definition lz4_decode_to_ranges :: "lz4_flex \<Rightarrow> bytes \<Rightarrow> nat \<Rightarrow> (bytes \<times> (nat \<times> nat) list) option" where
  "lz4_decode_to_ranges L buf count =
     (if count = 0 then Some ([], [])
      else do {
        raw \<leftarrow> decompress_size_prepended L buf;
        ranges \<leftarrow> parse_ranges raw 0 count;
        Some (raw, ranges)
      })"

definition lz4_decode :: "lz4_flex \<Rightarrow> bytes \<Rightarrow> nat \<Rightarrow> bytes list option" where
  "lz4_decode L buf count =
     (if count = 0 then Some []
      else do {
        raw \<leftarrow> decompress_size_prepended L buf;
        parse_strings raw 0 count
      })"

definition short :: "bytes list \<Rightarrow> bool" where
  "short vs \<longleftrightarrow> (\<forall>s \<in> set vs. length s < 2 ^ 32)"

lemma pack_strings_Cons [simp]:
  "pack_strings (s # vs) = to_le 4 (word_of_nat (length s) :: u32) @ s @ pack_strings vs"
  by (simp add: pack_strings_def)

lemma pack_strings_Nil [simp]: "pack_strings [] = []"
  by (simp add: pack_strings_def)

lemma pack_strings_append [simp]: "pack_strings (vs @ ws) = pack_strings vs @ pack_strings ws"
  by (simp add: pack_strings_def)

lemma pack_strings_concat: "pack_strings (concat vss) = concat (map pack_strings vss)"
  by (induction vss) simp_all

lemma length_pack_strings_ge: "s \<in> set vs \<Longrightarrow> length s + 4 \<le> length (pack_strings vs)"
  by (induction vs) auto

lemma short_pack: "length (pack_strings vs) < 2 ^ 32 \<Longrightarrow> short vs"
  using length_pack_strings_ge by (fastforce simp: short_def)

text \<open>The ranges of the strings packed at an offset, and what they designate.\<close>

fun string_ranges :: "nat \<Rightarrow> bytes list \<Rightarrow> (nat \<times> nat) list" where
  "string_ranges offset [] = []"
| "string_ranges offset (s # vs) = (offset + 4, length s) # string_ranges (offset + 4 + length s) vs"

definition at_range :: "bytes \<Rightarrow> nat \<times> nat \<Rightarrow> bytes" where
  "at_range buf r = take (snd r) (drop (fst r) buf)"

lemma parse_ranges_pack:
  "short vs \<Longrightarrow> parse_ranges (pre @ pack_strings vs @ post) (length pre) (length vs)
     = Some (string_ranges (length pre) vs)"
proof (induction vs arbitrary: pre)
  case (Cons s vs)
  let ?h = "to_le 4 (word_of_nat (length s) :: u32)"
  have len: "unat (word_of_nat (length s) :: u32) = length s"
    using Cons.prems by (intro word_of_nat_inverse) (simp add: short_def)
  have "parse_ranges ((pre @ ?h @ s) @ pack_strings vs @ post) (length (pre @ ?h @ s)) (length vs)
      = Some (string_ranges (length (pre @ ?h @ s)) vs)"
    using Cons.prems by (intro Cons.IH) (simp add: short_def)
  then show ?case
    using len read_le_middle [of pre "length pre" 4 "word_of_nat (length s) :: u32" "s @ pack_strings vs @ post"]
    by (simp add: add.assoc Let_def)
qed simp

lemma map_at_range_pack:
  "map (at_range (pre @ pack_strings vs @ post)) (string_ranges (length pre) vs) = vs"
proof (induction vs arbitrary: pre)
  case (Cons s vs)
  let ?h = "to_le 4 (word_of_nat (length s) :: u32)"
  have "map (at_range ((pre @ ?h @ s) @ pack_strings vs @ post)) (string_ranges (length (pre @ ?h @ s)) vs) = vs"
    by (rule Cons.IH)
  moreover have "at_range (pre @ ?h @ s @ pack_strings vs @ post) (length pre + 4, length s) = s"
    by (simp add: at_range_def)
  ultimately show ?case by (simp add: add.assoc)
qed simp

lemma length_string_ranges [simp]: "length (string_ranges off vs) = length vs"
  by (induction off vs rule: string_ranges.induct) simp_all

lemma parse_strings_pack:
  "short vs \<Longrightarrow> \<forall>s \<in> set vs. utf8_valid s \<Longrightarrow>
   parse_strings (pre @ pack_strings vs @ post) (length pre) (length vs) = Some vs"
proof (induction vs arbitrary: pre)
  case (Cons s vs)
  let ?h = "to_le 4 (word_of_nat (length s) :: u32)"
  have len: "unat (word_of_nat (length s) :: u32) = length s"
    using Cons.prems by (intro word_of_nat_inverse) (simp add: short_def)
  have "parse_strings ((pre @ ?h @ s) @ pack_strings vs @ post) (length (pre @ ?h @ s)) (length vs) = Some vs"
    using Cons.prems by (intro Cons.IH) (simp_all add: short_def)
  moreover have "slice ((pre @ ?h) @ s @ pack_strings vs @ post) (length pre + 4) (length pre + 4 + length s) = Some s"
    by (rule slice_middle) simp_all
  ultimately show ?case
    using len Cons.prems
      read_le_middle [of pre "length pre" 4 "word_of_nat (length s) :: u32" "s @ pack_strings vs @ post"]
    by (simp add: add.assoc Let_def)
qed simp

lemma lz4_decode_encode [roundtrips]:
  assumes "lz4_contract L" and "length (pack_strings vs) < 2 ^ 32" and "\<forall>s \<in> set vs. utf8_valid s"
  shows "lz4_decode L (lz4_encode L vs) (length vs) = Some vs"
  using assms parse_strings_pack [OF short_pack, of vs "[]" "[]"]
  by (auto simp: lz4_decode_def lz4_encode_def lz4_contract_monolithic)

lemma lz4_decode_to_ranges_encode [roundtrips]:
  assumes "lz4_contract L" and "length (pack_strings vs) < 2 ^ 32" and "vs \<noteq> []"
  shows "lz4_decode_to_ranges L (lz4_encode L vs) (length vs) = Some (pack_strings vs, string_ranges 0 vs)"
  using assms parse_ranges_pack [OF short_pack, of vs "[]" "[]"]
  by (auto simp: lz4_decode_to_ranges_def lz4_encode_def lz4_contract_monolithic)

section \<open>The blocked format\<close>

definition DEFAULT_BLOCK_SIZE :: nat where
  "DEFAULT_BLOCK_SIZE = 10000"

text \<open>\<^verbatim>\<open>values.chunks(n)\<close> for \<open>0 < n\<close>: consecutive chunks, the last possibly shorter.\<close>

function chunks :: "nat \<Rightarrow> 'a list \<Rightarrow> 'a list list" where
  "chunks n xs = (if xs = [] \<or> n = 0 then [] else take n xs # chunks n (drop n xs))"
  by pat_completeness auto
termination by (relation "measure (\<lambda>(n, xs). length xs)") auto

declare chunks.simps [simp del]

definition block_offset :: "bytes \<Rightarrow> nat \<Rightarrow> nat option" where
  "block_offset buf block_idx = map_option unat (read_le buf (4 + block_idx * 4) 4 :: u32 option)"

fun offset_table :: "u32 \<Rightarrow> bytes list \<Rightarrow> u32 list" where
  "offset_table offset [] = [offset]"
| "offset_table offset (block # blocks) = offset # offset_table (offset + word_of_nat (length block)) blocks"

definition encode_blocked :: "lz4_flex \<Rightarrow> bytes list \<Rightarrow> nat \<Rightarrow> bytes option" where
  "encode_blocked L values block_size =
     (if values = [] then Some []
      else if block_size = 0 then None
      else let num_blocks = div_ceil (length values) block_size;
               compressed_blocks = map (lz4_encode L) (chunks block_size values);
               header_size = 2 + 2 + 4 * (num_blocks + 1)
           in Some (to_le 2 (word_of_nat block_size :: u16) @ to_le 2 (word_of_nat num_blocks :: u16)
                    @ concat (map (to_le 4) (offset_table (word_of_nat header_size) compressed_blocks))
                    @ concat compressed_blocks))"

text \<open>\<^verbatim>\<open>decompress_into(compressed, &mut raw[pos..pos + size])\<close>.\<close>

definition decompress_at :: "lz4_flex \<Rightarrow> bytes \<Rightarrow> bytes \<Rightarrow> nat \<Rightarrow> nat \<Rightarrow> bytes option" where
  "decompress_at L compressed raw pos sz =
     (if pos + sz \<le> length raw
      then do { out \<leftarrow> decompress_into L compressed sz;
                Some (take pos raw @ out @ drop (pos + length out) raw) }
      else None)"

definition block_at :: "bytes \<Rightarrow> nat \<Rightarrow> bytes option" where
  "block_at buf i = do {
     off_start \<leftarrow> block_offset buf i;
     off_end \<leftarrow> block_offset buf (i + 1);
     slice buf off_start off_end
   }"

definition block_size_at :: "lz4_flex \<Rightarrow> bytes \<Rightarrow> nat \<Rightarrow> nat option" where
  "block_size_at L buf i = do {
     off_start \<leftarrow> block_offset buf i;
     tail \<leftarrow> slice_from buf off_start;
     (uncomp_size, _) \<leftarrow> uncompressed_size L tail;
     Some uncomp_size
   }"

fun sum_sizes :: "lz4_flex \<Rightarrow> bytes \<Rightarrow> nat \<Rightarrow> nat \<Rightarrow> nat option" where
  "sum_sizes L buf i 0 = Some 0"
| "sum_sizes L buf i (Suc n) = do {
     uncomp_size \<leftarrow> block_size_at L buf i;
     rest \<leftarrow> sum_sizes L buf (i + 1) n;
     Some (uncomp_size + rest)
   }"

fun inflate :: "lz4_flex \<Rightarrow> bytes \<Rightarrow> nat \<Rightarrow> nat \<Rightarrow> bytes \<Rightarrow> nat \<Rightarrow> bytes option" where
  "inflate L buf i 0 raw buf_pos = Some raw"
| "inflate L buf i (Suc n) raw buf_pos = do {
     blk \<leftarrow> block_at buf i;
     (uncomp_size, compressed) \<leftarrow> uncompressed_size L blk;
     raw' \<leftarrow> decompress_at L compressed raw buf_pos uncomp_size;
     inflate L buf (i + 1) n raw' (buf_pos + uncomp_size)
   }"

definition decode_blocked :: "lz4_flex \<Rightarrow> bytes \<Rightarrow> nat \<Rightarrow> bytes list option" where
  "decode_blocked L buf count =
     (if count = 0 then Some []
      else do {
        nb \<leftarrow> read_le buf 2 2;
        let num_blocks = unat (nb :: u16);
        total_uncompressed \<leftarrow> sum_sizes L buf 0 num_blocks;
        raw \<leftarrow> inflate L buf 0 num_blocks (replicate total_uncompressed 0) 0;
        parse_strings raw 0 count
      })"

text \<open>
  The partial decoder. The first pass marks the blocks with a selected row and sums their sizes; the
  second decompresses them and emits the ranges of their rows, \<open>(0, 0)\<close> for the rows of the others.
\<close>

fun blocks_needed :: "lz4_flex \<Rightarrow> bytes \<Rightarrow> nat \<Rightarrow> nat \<Rightarrow> bool list option \<Rightarrow> nat \<Rightarrow> nat \<Rightarrow> nat
    \<Rightarrow> (bool list \<times> nat) option" where
  "blocks_needed L buf count block_size sel i 0 global_row = Some ([], 0)"
| "blocks_needed L buf count block_size sel i (Suc n) global_row = do {
     let block_count = min (count - global_row) block_size;
     need \<leftarrow> (case sel of None \<Rightarrow> Some True
              | Some s \<Rightarrow> map_option (list_ex (\<lambda>b. b)) (slice s global_row (global_row + block_count)));
     uncomp_size \<leftarrow> (if need then block_size_at L buf i else Some 0);
     (needed, total) \<leftarrow> blocks_needed L buf count block_size sel (i + 1) n (global_row + block_count);
     Some (need # needed, uncomp_size + total)
   }"

fun decode_needed :: "lz4_flex \<Rightarrow> bytes \<Rightarrow> nat \<Rightarrow> nat \<Rightarrow> nat \<Rightarrow> bool list \<Rightarrow> bytes \<Rightarrow> nat \<Rightarrow> nat
    \<Rightarrow> (bytes \<times> (nat \<times> nat) list) option" where
  "decode_needed L buf count block_size i [] merged buf_pos global_row =
     Some (merged, replicate (count - global_row) (0, 0))"
| "decode_needed L buf count block_size i (needed # flags) merged buf_pos global_row = do {
     let block_count = min (count - global_row) block_size;
     if needed
     then do {
       blk \<leftarrow> block_at buf i;
       (uncomp_size, compressed) \<leftarrow> uncompressed_size L blk;
       merged' \<leftarrow> decompress_at L compressed merged buf_pos uncomp_size;
       rs \<leftarrow> parse_ranges merged' buf_pos block_count;
       (out, rest) \<leftarrow> decode_needed L buf count block_size (i + 1) flags merged' (buf_pos + uncomp_size)
                        (global_row + block_count);
       Some (out, rs @ rest)
     }
     else do {
       (out, rest) \<leftarrow> decode_needed L buf count block_size (i + 1) flags merged buf_pos (global_row + block_count);
       Some (out, replicate block_count (0, 0) @ rest)
     }
   }"

definition decode_to_ranges_blocked ::
    "lz4_flex \<Rightarrow> bytes \<Rightarrow> nat \<Rightarrow> bool list option \<Rightarrow> (bytes \<times> (nat \<times> nat) list) option" where
  "decode_to_ranges_blocked L buf count sel =
     (if count = 0 then Some ([], [])
      else do {
        bsz \<leftarrow> read_le buf 0 2;
        nb \<leftarrow> read_le buf 2 2;
        let block_size = unat (bsz :: u16);
        let num_blocks = unat (nb :: u16);
        (needed, total_uncompressed) \<leftarrow> blocks_needed L buf count block_size sel 0 num_blocks 0;
        decode_needed L buf count block_size 0 needed (replicate total_uncompressed 0) 0 0
      })"

subsection \<open>The layout of a blocked payload\<close>

lemma concat_chunks: "0 < n \<Longrightarrow> concat (chunks n xs) = xs"
proof (induction n xs rule: chunks.induct)
  case (1 n xs)
  show ?case
  proof (cases "xs = []")
    case True
    then show ?thesis by (simp add: chunks.simps)
  next
    case False
    with 1 show ?thesis by (simp add: chunks.simps [of n xs])
  qed
qed

lemma chunks_not_Nil: "vs \<in> set (chunks n xs) \<Longrightarrow> vs \<noteq> []"
proof (induction n xs rule: chunks.induct)
  case (1 n xs)
  then show ?case by (cases "xs = [] \<or> n = 0") (auto simp: chunks.simps [of n xs])
qed

lemma length_chunks: "0 < n \<Longrightarrow> length (chunks n xs) = div_ceil (length xs) n"
proof (induction n xs rule: chunks.induct)
  case (1 n xs)
  show ?case
  proof (cases "xs = []")
    case False
    have IH: "length (chunks n (drop n xs)) = div_ceil (length xs - n) n" using 1 False by simp
    have "div_ceil (length xs) n = Suc (div_ceil (length xs - n) n)"
    proof (cases "n \<le> length xs")
      case True
      then show ?thesis using 1(2) by (simp add: div_ceil_def le_div_geq le_mod_geq)
    next
      case less: False
      with False show ?thesis by (simp add: div_ceil_def)
    qed
    with IH False 1(2) show ?thesis by (simp add: chunks.simps [of n xs])
  qed (simp add: chunks.simps div_ceil_def)
qed

lemma length_offset_table [simp]: "length (offset_table off blocks) = Suc (length blocks)"
  by (induction off blocks rule: offset_table.induct) simp_all

lemma nth_offset_table:
  "i \<le> length blocks \<Longrightarrow> offset_table off blocks ! i = off + word_of_nat (length (concat (take i blocks)))"
proof (induction off blocks arbitrary: i rule: offset_table.induct)
  case (2 off b bs)
  then show ?case by (cases i) (simp_all add: add.assoc)
qed simp

definition block_layout :: "bytes \<Rightarrow> nat \<Rightarrow> bytes list \<Rightarrow> bool" where
  "block_layout buf bs blocks \<longleftrightarrow>
     read_le buf 0 2 = Some (word_of_nat bs :: u16) \<and> bs < 2 ^ 16
     \<and> read_le buf 2 2 = Some (word_of_nat (length blocks) :: u16) \<and> length blocks < 2 ^ 16
     \<and> (\<forall>i < length blocks. block_at buf i = Some (blocks ! i)
          \<and> (\<exists>off tail. block_offset buf i = Some off \<and> slice_from buf off = Some (blocks ! i @ tail)))"

lemma encode_blocked_layout:
  assumes enc: "encode_blocked L vs bs = Some buf" and "vs \<noteq> []" and bs: "0 < bs" "bs < 2 ^ 16"
    and nb: "div_ceil (length vs) bs < 2 ^ 16" and len: "length buf < 2 ^ 32"
  shows "block_layout buf bs (map (lz4_encode L) (chunks bs vs))"
proof -
  define blocks where "blocks = map (lz4_encode L) (chunks bs vs)"
  define hs where "hs = 2 + 2 + 4 * (length blocks + 1)"
  define tbl where "tbl = concat (map (to_le 4) (offset_table (word_of_nat hs) blocks))"
  let ?hdr = "to_le 2 (word_of_nat bs :: u16) @ to_le 2 (word_of_nat (length blocks) :: u16)"
  have nblocks: "length blocks = div_ceil (length vs) bs" using bs by (simp add: blocks_def length_chunks)
  have buf: "buf = ?hdr @ tbl @ concat blocks"
    using enc assms(2) bs nblocks by (simp add: encode_blocked_def Let_def blocks_def hs_def tbl_def)
  have tbl_len: "length tbl = 4 * (length blocks + 1)"
    by (simp add: tbl_def length_concat o_def sum_list_triv)
  have pre_len: "length (?hdr @ tbl) = hs" using tbl_len by (simp add: hs_def)
  have tot: "length buf = hs + length (concat blocks)" unfolding buf using pre_len by simp
  have off: "block_offset buf i = Some (hs + length (concat (take i blocks)))" if i: "i \<le> length blocks" for i
  proof -
    have "read_le buf (4 + i * 4) 4 = Some (offset_table (word_of_nat hs) blocks ! i)"
      unfolding buf tbl_def
      using read_le_table [of i "offset_table (word_of_nat hs) blocks" ?hdr 4 4 "concat blocks"] i by simp
    moreover have "length (concat (take i blocks)) \<le> length (concat blocks)"
      by (metis append_take_drop_id concat_append le_add1 length_append)
    then have "hs + length (concat (take i blocks)) < 2 ^ 32" using len tot by linarith
    then have "unat (word_of_nat (hs + length (concat (take i blocks))) :: u32) = hs + length (concat (take i blocks))"
      by (intro word_of_nat_inverse) simp
    ultimately show ?thesis using i by (simp add: block_offset_def nth_offset_table)
  qed
  have "block_at buf i = Some (blocks ! i)
      \<and> (\<exists>off tail. block_offset buf i = Some off \<and> slice_from buf off = Some (blocks ! i @ tail))"
    if i: "i < length blocks" for i
  proof -
    have cc: "concat blocks = concat (take i blocks) @ blocks ! i @ concat (drop (Suc i) blocks)"
      using i by (metis concat.simps(2) concat_append id_take_nth_drop)
    let ?pre = "(?hdr @ tbl) @ concat (take i blocks)"
    have pl: "length ?pre = hs + length (concat (take i blocks))" using pre_len by simp
    have b: "buf = ?pre @ blocks ! i @ concat (drop (Suc i) blocks)" unfolding buf by (subst cc) simp
    have nxt: "length (concat (take (Suc i) blocks)) = length (concat (take i blocks)) + length (blocks ! i)"
      using i by (simp add: take_Suc_conv_app_nth)
    have "slice buf (hs + length (concat (take i blocks))) (hs + length (concat (take i blocks)) + length (blocks ! i)) = Some (blocks ! i)"
      by (subst b, rule slice_middle) (use pl in simp_all)
    moreover have "slice_from buf (hs + length (concat (take i blocks))) = Some (blocks ! i @ concat (drop (Suc i) blocks))"
      by (subst b, rule slice_from_suffix) (use pl in simp)
    ultimately show ?thesis using off [of i] off [of "Suc i"] i nxt by (simp add: block_at_def add.assoc)
  qed
  moreover have "read_le buf 0 2 = Some (word_of_nat bs :: u16)"
    unfolding buf using read_le_front [of 2 "word_of_nat bs :: u16"] by simp
  moreover have "read_le buf 2 2 = Some (word_of_nat (length blocks) :: u16)"
    unfolding buf
    using read_le_middle [of "to_le 2 (word_of_nat bs :: u16)" 2 2 "word_of_nat (length blocks) :: u16" "tbl @ concat blocks"]
    by simp
  ultimately show ?thesis using bs nb nblocks by (simp add: block_layout_def blocks_def [symmetric])
qed

subsection \<open>Decoding all blocks\<close>

definition small_blocks :: "bytes list list \<Rightarrow> bool" where
  "small_blocks vss \<longleftrightarrow> (\<forall>vs \<in> set vss. vs \<noteq> [] \<and> length (pack_strings vs) < 2 ^ 32)"

lemma block_size_at_layout:
  assumes "lz4_contract L" and "block_layout buf bs (map (lz4_encode L) vss)" and "small_blocks vss" and "i < length vss"
  shows "block_size_at L buf i = Some (length (pack_strings (vss ! i)))"
proof -
  from assms(2,4) obtain off tail where "block_offset buf i = Some off"
    "slice_from buf off = Some (lz4_encode L (vss ! i) @ tail)" by (auto simp: block_layout_def)
  moreover have v: "vss ! i \<noteq> []" "length (pack_strings (vss ! i)) < 2 ^ 32"
    using assms(3,4) by (simp_all add: small_blocks_def)
  moreover obtain block where "uncompressed_size L (compress_prepend_size L (pack_strings (vss ! i)) @ tail)
      = Some (length (pack_strings (vss ! i)), block @ tail)"
    using lz4_contract_block [OF assms(1) v(2)] by metis
  ultimately show ?thesis by (simp add: block_size_at_def lz4_encode_def)
qed

lemma decompress_block:
  assumes "lz4_contract L" and "block_layout buf bs (map (lz4_encode L) vss)" and "small_blocks vss" and "i < length vss"
  obtains comp where "block_at buf i = Some (lz4_encode L (vss ! i))"
    and "uncompressed_size L (lz4_encode L (vss ! i)) = Some (length (pack_strings (vss ! i)), comp)"
    and "\<And>pre post. decompress_at L comp (pre @ replicate (length (pack_strings (vss ! i))) 0 @ post) (length pre)
             (length (pack_strings (vss ! i))) = Some (pre @ pack_strings (vss ! i) @ post)"
proof -
  have v: "vss ! i \<noteq> []" "length (pack_strings (vss ! i)) < 2 ^ 32"
    using assms(3,4) by (simp_all add: small_blocks_def)
  obtain block where "\<And>rest. uncompressed_size L (compress_prepend_size L (pack_strings (vss ! i)) @ rest)
        = Some (length (pack_strings (vss ! i)), block @ rest)"
    and into: "decompress_into L block (length (pack_strings (vss ! i))) = Some (pack_strings (vss ! i))"
    using lz4_contract_block [OF assms(1) v(2)] by blast
  then have "uncompressed_size L (lz4_encode L (vss ! i)) = Some (length (pack_strings (vss ! i)), block)"
    using v(1) by (metis append_Nil2 lz4_encode_def)
  moreover have "block_at buf i = Some (lz4_encode L (vss ! i))"
    using assms(2,4) by (auto simp: block_layout_def)
  moreover have "decompress_at L block (pre @ replicate (length (pack_strings (vss ! i))) 0 @ post) (length pre)
             (length (pack_strings (vss ! i))) = Some (pre @ pack_strings (vss ! i) @ post)" for pre post
    using into by (simp add: decompress_at_def)
  ultimately show thesis using that by blast
qed

abbreviation packed :: "bytes list list \<Rightarrow> bytes" where
  "packed vss \<equiv> concat (map pack_strings vss)"

lemma sum_sizes_layout:
  assumes "lz4_contract L" and "block_layout buf bs (map (lz4_encode L) vss)" and "small_blocks vss"
  shows "i + n = length vss \<Longrightarrow> sum_sizes L buf i n = Some (length (packed (drop i vss)))"
proof (induction n arbitrary: i)
  case (Suc n)
  then have i: "i < length vss" by simp
  then have "drop i vss = vss ! i # drop (Suc i) vss" by (simp add: Cons_nth_drop_Suc)
  with Suc i show ?case by (simp add: block_size_at_layout [OF assms])
qed simp

lemma inflate_layout:
  assumes "lz4_contract L" and "block_layout buf bs (map (lz4_encode L) vss)" and "small_blocks vss"
  shows "i + n = length vss \<Longrightarrow>
    inflate L buf i n (dn @ replicate (length (packed (drop i vss))) 0) (length dn) = Some (dn @ packed (drop i vss))"
proof (induction n arbitrary: i dn)
  case (Suc n)
  then have i: "i < length vss" by simp
  then have d: "drop i vss = vss ! i # drop (Suc i) vss" by (simp add: Cons_nth_drop_Suc)
  let ?p = "pack_strings (vss ! i)" and ?rest = "replicate (length (packed (drop (Suc i) vss))) (0 :: u8)"
  obtain comp where c: "block_at buf i = Some (lz4_encode L (vss ! i))"
    "uncompressed_size L (lz4_encode L (vss ! i)) = Some (length ?p, comp)"
    "decompress_at L comp (dn @ replicate (length ?p) 0 @ ?rest) (length dn) (length ?p) = Some (dn @ ?p @ ?rest)"
    using decompress_block [OF assms i] by metis
  have "inflate L buf (Suc i) n ((dn @ ?p) @ ?rest) (length (dn @ ?p)) = Some ((dn @ ?p) @ packed (drop (Suc i) vss))"
    by (rule Suc.IH) (use Suc.prems in simp)
  with c show ?case by (simp add: d replicate_add)
qed simp

lemma length_packed_le: "vs \<in> set vss \<Longrightarrow> length (pack_strings vs) \<le> length (packed vss)"
  by (induction vss) auto

lemma small_chunks:
  assumes "0 < bs" and "length (pack_strings vs) < 2 ^ 32"
  shows "small_blocks (chunks bs vs)"
proof -
  have "packed (chunks bs vs) = pack_strings vs"
    using assms(1) by (metis concat_chunks pack_strings_concat)
  with assms(2) length_packed_le [of _ "chunks bs vs"] show ?thesis
    by (fastforce simp: small_blocks_def dest: chunks_not_Nil)
qed

lemma decode_blocked_encode [roundtrips]:
  assumes lz: "lz4_contract L" and enc: "encode_blocked L vs bs = Some buf"
    and bs: "0 < bs" "bs < 2 ^ 16" and nb: "div_ceil (length vs) bs < 2 ^ 16"
    and len: "length buf < 2 ^ 32" "length (pack_strings vs) < 2 ^ 32"
    and utf8: "\<forall>s \<in> set vs. utf8_valid s"
  shows "decode_blocked L buf (length vs) = Some vs"
proof (cases "vs = []")
  case False
  note lay = encode_blocked_layout [OF enc False bs nb len(1)]
  have pk: "packed (chunks bs vs) = pack_strings vs"
    using bs by (metis concat_chunks pack_strings_concat)
  have small: "small_blocks (chunks bs vs)" using small_chunks bs len(2) by blast
  have "unat (word_of_nat (length (chunks bs vs)) :: u16) = length (chunks bs vs)"
    using lay by (intro word_of_nat_inverse) (simp add: block_layout_def)
  moreover have "inflate L buf 0 (length (chunks bs vs)) (replicate (length (pack_strings vs)) 0) 0 = Some (pack_strings vs)"
    using inflate_layout [OF lz lay small, of 0 "length (chunks bs vs)" "[]"] pk by simp
  moreover have "parse_strings (pack_strings vs) 0 (length vs) = Some vs"
    using parse_strings_pack [OF short_pack [OF len(2)] utf8, of "[]" "[]"] by simp
  ultimately show ?thesis
    using lay False pk sum_sizes_layout [OF lz lay small, of 0 "length (chunks bs vs)"]
    by (simp add: decode_blocked_def block_layout_def Let_def)
qed (simp add: decode_blocked_def)

subsection \<open>Decoding the selected blocks\<close>

definition chunked :: "nat \<Rightarrow> 'a list list \<Rightarrow> bool" where
  "chunked bs vss \<longleftrightarrow> (\<forall>i < length vss. min (length (concat (drop i vss))) bs = length (vss ! i))"

lemma chunked_chunks: "0 < bs \<Longrightarrow> chunked bs (chunks bs xs)"
proof (induction bs xs rule: chunks.induct)
  case (1 n xs)
  show ?case
  proof (cases "xs = []")
    case True
    then show ?thesis by (simp add: chunked_def chunks.simps)
  next
    case False
    then have c: "chunks n xs = take n xs # chunks n (drop n xs)" using 1(2) by (simp add: chunks.simps [of n xs])
    have "length (concat (chunks n xs)) = length xs" using 1(2) by (simp add: concat_chunks)
    moreover have "chunked n (chunks n (drop n xs))" using 1 False by simp
    ultimately show ?thesis unfolding c by (auto simp: chunked_def nth_Cons' drop_Cons' min.commute)
  qed
qed

text \<open>Which blocks are needed, the bytes they give, and the ranges of all rows.\<close>

definition row_selected :: "bool list option \<Rightarrow> nat \<Rightarrow> bool" where
  "row_selected sel r = (case sel of None \<Rightarrow> True | Some s \<Rightarrow> s ! r)"

fun needs :: "bool list option \<Rightarrow> nat \<Rightarrow> bytes list list \<Rightarrow> bool list" where
  "needs sel row [] = []"
| "needs sel row (vs # vss) = (\<exists>r \<in> {row..<row + length vs}. row_selected sel r) # needs sel (row + length vs) vss"

fun picked :: "bool list \<Rightarrow> bytes list list \<Rightarrow> bytes" where
  "picked (flag # flags) (vs # vss) = (if flag then pack_strings vs else []) @ picked flags vss"
| "picked _ _ = []"

fun block_ranges :: "nat \<Rightarrow> bool list \<Rightarrow> bytes list list \<Rightarrow> (nat \<times> nat) list" where
  "block_ranges pos (flag # flags) (vs # vss) =
     (if flag then string_ranges pos vs @ block_ranges (pos + length (pack_strings vs)) flags vss
      else replicate (length vs) (0, 0) @ block_ranges pos flags vss)"
| "block_ranges pos _ _ = []"

lemma block_need:
  assumes "row + length vs \<le> count" and "\<forall>s. sel = Some s \<longrightarrow> length s = count" and "vs \<noteq> []"
  shows "(case sel of None \<Rightarrow> Some True
            | Some s \<Rightarrow> map_option (list_ex (\<lambda>b. b)) (slice s row (row + length vs)))
      = Some (\<exists>r \<in> {row..<row + length vs}. row_selected sel r)"
proof (cases sel)
  case None
  with assms(3) show ?thesis by (auto simp: row_selected_def intro!: bexI [of _ row])
next
  case (Some s)
  with assms have "slice s row (row + length vs) = Some (take (length vs) (drop row s))" by simp
  moreover have "list_ex (\<lambda>b. b) (take (length vs) (drop row s)) \<longleftrightarrow> (\<exists>r \<in> {row..<row + length vs}. s ! r)"
    (is "?l \<longleftrightarrow> ?r")
  proof
    assume ?l
    then obtain k where "k < length vs" "s ! (row + k)"
      using Some assms by (auto simp: list_ex_iff in_set_conv_nth)
    then show ?r by (intro bexI [of _ "row + k"]) auto
  next
    assume ?r
    then obtain r where r: "row \<le> r" "r < row + length vs" "s ! r" by auto
    then have "take (length vs) (drop row s) ! (r - row)" "r - row < length (take (length vs) (drop row s))"
      using Some assms by simp_all
    then show ?l unfolding list_ex_iff using nth_mem by blast
  qed
  ultimately show ?thesis using Some by (simp add: row_selected_def)
qed

lemma block_rows:
  assumes "chunked bs vss" and "i < length vss"
  shows "min (length (concat vss) - length (concat (take i vss))) bs = length (vss ! i)"
proof -
  have "length (concat vss) = length (concat (take i vss)) + length (concat (drop i vss))"
    by (metis append_take_drop_id concat_append length_append)
  with assms show ?thesis by (simp add: chunked_def)
qed

lemma rows_after:
  assumes "i < length vss"
  shows "length (concat (take (Suc i) vss)) = length (concat (take i vss)) + length (vss ! i)"
    and "length (concat (take i vss)) + length (vss ! i) \<le> length (concat vss)"
proof -
  show s: "length (concat (take (Suc i) vss)) = length (concat (take i vss)) + length (vss ! i)"
    using assms by (simp add: take_Suc_conv_app_nth)
  show "length (concat (take i vss)) + length (vss ! i) \<le> length (concat vss)"
    unfolding s [symmetric] by (metis append_take_drop_id concat_append le_add1 length_append)
qed

lemma blocks_needed_layout:
  assumes "lz4_contract L" and "block_layout buf bs (map (lz4_encode L) vss)" and "small_blocks vss"
    and "chunked bs vss" and sel: "\<forall>s. sel = Some s \<longrightarrow> length s = length (concat vss)"
  shows "i + n = length vss \<Longrightarrow> row = length (concat (take i vss)) \<Longrightarrow>
    blocks_needed L buf (length (concat vss)) bs sel i n row
    = Some (needs sel row (drop i vss), length (picked (needs sel row (drop i vss)) (drop i vss)))"
proof (induction n arbitrary: i row)
  case (Suc n)
  then have i: "i < length vss" by simp
  then have d: "drop i vss = vss ! i # drop (Suc i) vss" by (simp add: Cons_nth_drop_Suc)
  have ne: "vss ! i \<noteq> []" using assms(3) i by (simp add: small_blocks_def)
  have need: "(case sel of None \<Rightarrow> Some True
            | Some s \<Rightarrow> map_option (list_ex (\<lambda>b. b)) (slice s row (row + length (vss ! i))))
      = Some (\<exists>r \<in> {row..<row + length (vss ! i)}. row_selected sel r)"
    using rows_after(2) [OF i] Suc.prems(2) by (intro block_need [OF _ sel ne]) simp
  have rows: "min (length (concat vss) - row) bs = length (vss ! i)"
    using block_rows [OF assms(4) i] Suc.prems(2) by simp
  have "blocks_needed L buf (length (concat vss)) bs sel (Suc i) n (row + length (vss ! i))
    = Some (needs sel (row + length (vss ! i)) (drop (Suc i) vss),
            length (picked (needs sel (row + length (vss ! i)) (drop (Suc i) vss)) (drop (Suc i) vss)))"
    using Suc rows_after(1) [OF i] by (intro Suc.IH) simp_all
  then show ?case using need rows block_size_at_layout [OF assms(1-3) i] by (simp add: d Let_def)
qed simp

lemma decode_needed_layout:
  assumes "lz4_contract L" and "block_layout buf bs (map (lz4_encode L) vss)" and "small_blocks vss"
    and "chunked bs vss"
  shows "i + length flags = length vss \<Longrightarrow> row = length (concat (take i vss)) \<Longrightarrow>
    decode_needed L buf (length (concat vss)) bs i flags
      (dn @ replicate (length (picked flags (drop i vss))) 0) (length dn) row
    = Some (dn @ picked flags (drop i vss), block_ranges (length dn) flags (drop i vss))"
proof (induction flags arbitrary: i row dn)
  case (Cons flag flags)
  then have i: "i < length vss" by simp
  then have d: "drop i vss = vss ! i # drop (Suc i) vss" by (simp add: Cons_nth_drop_Suc)
  have rows: "min (length (concat vss) - row) bs = length (vss ! i)"
    using block_rows [OF assms(4) i] Cons.prems(2) by simp
  let ?p = "pack_strings (vss ! i)" and ?rest = "replicate (length (picked flags (drop (Suc i) vss))) (0 :: u8)"
  have IH: "decode_needed L buf (length (concat vss)) bs (Suc i) flags (dn' @ ?rest) (length dn') (row + length (vss ! i))
    = Some (dn' @ picked flags (drop (Suc i) vss), block_ranges (length dn') flags (drop (Suc i) vss))" for dn'
    using Cons.prems rows_after(1) [OF i] by (intro Cons.IH) simp_all
  show ?case
  proof (cases flag)
    case True
    obtain comp where c: "block_at buf i = Some (lz4_encode L (vss ! i))"
      "uncompressed_size L (lz4_encode L (vss ! i)) = Some (length ?p, comp)"
      "decompress_at L comp (dn @ replicate (length ?p) 0 @ ?rest) (length dn) (length ?p) = Some (dn @ ?p @ ?rest)"
      using decompress_block [OF assms(1-3) i] by metis
    have "short (vss ! i)" using assms(3) i by (intro short_pack) (simp add: small_blocks_def)
    then have "parse_ranges (dn @ ?p @ ?rest) (length dn) (length (vss ! i)) = Some (string_ranges (length dn) (vss ! i))"
      by (rule parse_ranges_pack)
    with c rows True IH [of "dn @ ?p"] show ?thesis by (simp add: d replicate_add Let_def)
  next
    case False
    with rows IH [of dn] show ?thesis by (simp add: d Let_def)
  qed
qed simp

lemma block_ranges_selected:
  assumes "r < length (concat vss)" and "row_selected sel (row + r)"
  shows "at_range (dn @ picked (needs sel row vss) vss @ post) (block_ranges (length dn) (needs sel row vss) vss ! r)
    = concat vss ! r"
  using assms
proof (induction vss arbitrary: r row dn)
  case (Cons vs vss)
  let ?need = "\<exists>r \<in> {row..<row + length vs}. row_selected sel r"
  show ?case
  proof (cases "r < length vs")
    case True
    then have need: ?need using Cons.prems(2) by auto
    let ?buf = "dn @ pack_strings vs @ picked (needs sel (row + length vs) vss) vss @ post"
    have "at_range ?buf (string_ranges (length dn) vs ! r) = vs ! r"
      using arg_cong [OF map_at_range_pack [of dn vs "picked (needs sel (row + length vs) vss) vss @ post"], of "\<lambda>xs. xs ! r"] True
      by simp
    with need True show ?thesis by (simp add: nth_append)
  next
    case False
    then have IH: "at_range (dn' @ picked (needs sel (row + length vs) vss) vss @ post)
        (block_ranges (length dn') (needs sel (row + length vs) vss) vss ! (r - length vs)) = concat vss ! (r - length vs)" for dn'
      using Cons.prems by (intro Cons.IH) auto
    show ?thesis using False IH [of "dn @ pack_strings vs"] IH [of dn]
      by (cases ?need) (simp_all add: nth_append)
  qed
qed simp

lemma length_needs [simp]: "length (needs sel row vss) = length vss"
  by (induction sel row vss rule: needs.induct) simp_all

lemma string_ranges_bound:
  "r \<in> set (string_ranges off es) \<Longrightarrow> fst r + snd r \<le> off + length (pack_strings es)"
proof (induction off es rule: string_ranges.induct)
  case (2 off s es)
  then show ?case by (auto simp: add.assoc)
qed simp

lemma block_ranges_bound:
  assumes "length flags = length vss" and "r \<in> set (block_ranges pos flags vss)"
  shows "fst r + snd r \<le> pos + length (picked flags vss)"
  using assms
proof (induction pos flags vss rule: block_ranges.induct)
  case (1 pos flag flags vs vss)
  then show ?case using string_ranges_bound [of r pos vs] by (fastforce split: if_splits)
qed simp_all

lemma length_block_ranges:
  "length flags = length vss \<Longrightarrow> length (block_ranges pos flags vss) = length (concat vss)"
  by (induction pos flags vss rule: block_ranges.induct) simp_all

lemma decode_to_ranges_blocked_encode:
  assumes lz: "lz4_contract L" and enc: "encode_blocked L vs bs = Some buf"
    and bs: "0 < bs" "bs < 2 ^ 16" and nb: "div_ceil (length vs) bs < 2 ^ 16"
    and len: "length buf < 2 ^ 32" "length (pack_strings vs) < 2 ^ 32"
    and sel: "\<forall>s. sel = Some s \<longrightarrow> length s = length vs"
  shows "\<exists>merged ranges. decode_to_ranges_blocked L buf (length vs) sel = Some (merged, ranges)
    \<and> length ranges = length vs \<and> (\<forall>r \<in> set ranges. fst r + snd r \<le> length merged)
    \<and> (\<forall>r < length vs. row_selected sel r \<longrightarrow> at_range merged (ranges ! r) = vs ! r)"
proof (cases "vs = []")
  case False
  define vss where "vss = chunks bs vs"
  note lay = encode_blocked_layout [OF enc False bs nb len(1), folded vss_def]
  have cc: "concat vss = vs" using bs by (simp add: vss_def concat_chunks)
  have small: "small_blocks vss" unfolding vss_def by (rule small_chunks [OF bs(1) len(2)])
  have ch: "chunked bs vss" unfolding vss_def by (rule chunked_chunks [OF bs(1)])
  have nb': "unat (word_of_nat (length vss) :: u16) = length vss" "unat (word_of_nat bs :: u16) = bs"
    using lay by (auto intro!: word_of_nat_inverse simp: block_layout_def)
  have "decode_to_ranges_blocked L buf (length vs) sel
    = Some (picked (needs sel 0 vss) vss, block_ranges 0 (needs sel 0 vss) vss)"
    using False lay nb' blocks_needed_layout [OF lz lay small ch, of sel 0 "length vss" 0] sel cc
      decode_needed_layout [OF lz lay small ch, of 0 "needs sel 0 vss" 0 "[]"]
    by (simp add: decode_to_ranges_blocked_def block_layout_def Let_def)
  moreover have "at_range (picked (needs sel 0 vss) vss) (block_ranges 0 (needs sel 0 vss) vss ! r) = vs ! r"
    if "r < length vs" "row_selected sel r" for r
    using block_ranges_selected [of r vss sel 0 "[]" "[]"] that cc by simp
  moreover have "length (block_ranges 0 (needs sel 0 vss) vss) = length vs"
    using cc by (simp add: length_block_ranges)
  moreover have "fst r + snd r \<le> length (picked (needs sel 0 vss) vss)"
    if "r \<in> set (block_ranges 0 (needs sel 0 vss) vss)" for r
    using block_ranges_bound [OF _ that] by simp
  ultimately show ?thesis by blast
qed (simp add: decode_to_ranges_blocked_def)

section \<open>The contract can be met\<close>

text \<open>A compressor that stores its input behind the size prefix meets the contract.\<close>

definition stored_lz4 :: lz4_flex where
  "stored_lz4 = \<lparr>compress_prepend_size = (\<lambda>raw. to_le 4 (word_of_nat (length raw) :: u32) @ raw),
     decompress_size_prepended = (\<lambda>buf. slice_from buf 4),
     uncompressed_size = (\<lambda>buf. do { n \<leftarrow> (read_le buf 0 4 :: u32 option); rest \<leftarrow> slice_from buf 4; Some (unat n, rest) }),
     decompress_into = (\<lambda>block n. if length block = n then Some block else None)\<rparr>"

lemma stored_lz4_contract: "lz4_contract stored_lz4"
proof -
  have "unat (word_of_nat n :: u32) = n" if "n < 2 ^ 32" for n
    using that by (intro word_of_nat_inverse) simp
  moreover have "read_le (to_le 4 w @ block) 0 4 = Some w" for w :: u32 and block
    using read_le_middle [of "[]" 0 4 w block] by simp
  ultimately show ?thesis
    by (auto simp: lz4_contract_def stored_lz4_def slice_from_def)
qed

end
