(* ===== verification/Copy_Text.thy ===== *)
theory Copy_Text
  imports Lz4_Codec
begin

unbundle bit_operations_syntax

text \<open>
  The reader of PostgreSQL's COPY text format (src/src/copyparse.rs): line boundaries, field
  boundaries, the escape sequences.  The byte searches come from the memchr crate and enter as a
  parameter with its documented contract.
\<close>

section \<open>Byte search\<close>

record Memchr =
  memchr :: "u8 \<Rightarrow> bytes \<Rightarrow> nat option"
  memchr3 :: "u8 \<Rightarrow> u8 \<Rightarrow> u8 \<Rightarrow> bytes \<Rightarrow> nat option"

definition memchr_contract :: "Memchr \<Rightarrow> bool" where
  "memchr_contract M \<longleftrightarrow> (\<forall>a s. memchr M a s = position (\<lambda>x. x = a) s)
    \<and> (\<forall>a b c s. memchr3 M a b c s = position (\<lambda>x. x = a \<or> x = b \<or> x = c) s)"

definition plain_memchr :: Memchr where
  "plain_memchr = \<lparr>memchr = (\<lambda>a. position (\<lambda>x. x = a)), memchr3 = (\<lambda>a b c. position (\<lambda>x. x = a \<or> x = b \<or> x = c))\<rparr>"

lemma plain_memchr_contract: "memchr_contract plain_memchr"
  by (simp add: memchr_contract_def plain_memchr_def)

abbreviation LF :: u8 where "LF \<equiv> 0x0A"
abbreviation CR :: u8 where "CR \<equiv> 0x0D"
abbreviation BACKSLASH :: u8 where "BACKSLASH \<equiv> 0x5C"

section \<open>Lines\<close>

datatype Eol = Lf | Cr | CrLf

datatype LineResult = Row nat nat | EndOfCopy | Incomplete

record CopyLineReader =
  eol :: "Eol option"
  line_number :: u64

definition new_line_reader :: CopyLineReader where
  "new_line_reader = \<lparr>eol = None, line_number = 0\<rparr>"

text \<open>The next terminator that is not escaped: the outer \<^const>\<open>None\<close> is a panic, the inner one an
  incomplete line.\<close>

function find_terminator :: "Memchr \<Rightarrow> bytes \<Rightarrow> nat \<Rightarrow> nat option option" where
  "find_terminator M data i =
    (if i < length data then
       (case memchr3 M LF CR BACKSLASH (drop i data) of
          None \<Rightarrow> Some None
        | Some offset \<Rightarrow> do {
            b \<leftarrow> index data (i + offset);
            if b = BACKSLASH then find_terminator M data (i + offset + 2)
            else if b = LF \<or> b = CR then Some (Some (i + offset))
            else None })
     else Some None)"
  by pat_completeness auto
termination by (relation "measure (\<lambda>(M, data, i). length data - i)") auto

declare find_terminator.simps [simp del]

definition check_end_of_copy :: "bytes \<Rightarrow> nat \<Rightarrow> nat \<Rightarrow> LineResult option" where
  "check_end_of_copy buf line_start line_end = do {
     line \<leftarrow> slice buf line_start line_end;
     Some (if line = [BACKSLASH, 0x2E] then EndOfCopy else Row line_start line_end) }"

definition next_line :: "Memchr \<Rightarrow> CopyLineReader \<Rightarrow> bytes \<Rightarrow> nat \<Rightarrow> (CopyLineReader \<times> LineResult) option" where
  "next_line M self buf start = do {
     data \<leftarrow> slice_from buf start;
     t \<leftarrow> find_terminator M data 0;
     case t of
       None \<Rightarrow> Some (self, Incomplete)
     | Some i \<Rightarrow>
         let found = (if data ! i = LF then Lf
                      else if i + 1 < length data \<and> data ! (i + 1) = LF then CrLf else Cr);
             advanced = do {
               r \<leftarrow> check_end_of_copy buf start (start + i);
               Some (\<lparr>eol = Some found, line_number = line_number self + 1\<rparr>, r) }
         in (case eol self of
               None \<Rightarrow> advanced
             | Some expected \<Rightarrow>
                 if expected = found then advanced
                 else if found \<noteq> Lf \<and> expected = CrLf \<and> length data \<le> i + 1 then Some (self, Incomplete)
                 else None) }"

definition eol_len :: "CopyLineReader \<Rightarrow> nat" where
  "eol_len r = (if eol r = Some CrLf then 2 else 1)"

lemma next_line_progress:
  assumes "next_line M r buf pos = Some (r', Row s e)"
  shows "s = pos \<and> pos \<le> e \<and> e \<le> length buf"
proof -
  obtain data where data: "slice_from buf pos = Some data"
    using assms by (auto simp: next_line_def bind_eq_Some_conv)
  have "\<exists>i. check_end_of_copy buf pos (pos + i) = Some (Row s e)"
    using assms unfolding next_line_def data
    by (auto simp: bind_eq_Some_conv Let_def split: option.splits if_splits)
  then show ?thesis by (auto simp: check_end_of_copy_def slice_def split: if_splits)
qed

text \<open>The scan for line boundaries that the parallel loader runs over its buffer.\<close>

function scan_lines ::
  "Memchr \<Rightarrow> CopyLineReader \<Rightarrow> bytes \<Rightarrow> nat \<Rightarrow> (CopyLineReader \<times> (nat \<times> nat) list \<times> nat \<times> bool) option" where
  "scan_lines M r buf pos =
    (case next_line M r buf pos of
       None \<Rightarrow> None
     | Some (r', Row s e) \<Rightarrow>
         map_option (\<lambda>(r'', ranges, pos', eoc). (r'', (s, e) # ranges, pos', eoc)) (scan_lines M r' buf (e + eol_len r'))
     | Some (r', EndOfCopy) \<Rightarrow> Some (r', [], pos, True)
     | Some (r', Incomplete) \<Rightarrow> Some (r', [], pos, False))"
  by pat_completeness auto
termination
proof (relation "measure (\<lambda>(M, r, buf, pos). Suc (length buf) - pos)")
  fix M r buf pos x r' y s e
  assume "next_line M r buf pos = Some x" "(r', y) = x" "y = Row s e"
  then have "pos \<le> e \<and> e \<le> length buf" using next_line_progress [of M r buf pos r' s e] by auto
  then show "((M, r', buf, e + eol_len r'), M, r, buf, pos) \<in> measure (\<lambda>(M, r, buf, pos). Suc (length buf) - pos)"
    by (auto simp: eol_len_def)
qed simp

declare scan_lines.simps [simp del]

section \<open>Fields\<close>

text \<open>The loop of the splitters at position \<open>i\<close>, on what is left of the line.\<close>

fun split_loop :: "nat \<Rightarrow> u8 \<Rightarrow> nat \<Rightarrow> nat \<Rightarrow> bytes \<Rightarrow> (nat \<times> nat) list" where
  "split_loop n delimiter field_start i [] = [(field_start, n)]"
| "split_loop n delimiter field_start i (b # rest) =
    (if b = BACKSLASH then split_loop n delimiter field_start (i + 2) (drop 1 rest)
     else if b = delimiter then (field_start, i) # split_loop n delimiter (i + 1) (i + 1) rest
     else split_loop n delimiter field_start (i + 1) rest)"

definition split_field_offsets :: "bytes \<Rightarrow> u8 \<Rightarrow> (nat \<times> nat) list" where
  "split_field_offsets line delimiter = split_loop (length line) delimiter 0 0 line"

definition split_fields_into :: "bytes \<Rightarrow> u8 \<Rightarrow> bytes list option" where
  "split_fields_into line delimiter =
    those (map (\<lambda>(s, e). slice line s e) (split_loop (length line) delimiter 0 0 line))"

definition split_fields :: "bytes \<Rightarrow> u8 \<Rightarrow> bytes list option" where
  "split_fields line delimiter = split_fields_into line delimiter"

section \<open>Escapes\<close>

definition is_hex_digit :: "u8 \<Rightarrow> bool" where
  "is_hex_digit b \<longleftrightarrow> 0x30 \<le> b \<and> b \<le> 0x39 \<or> 0x41 \<le> b \<and> b \<le> 0x46 \<or> 0x61 \<le> b \<and> b \<le> 0x66"

definition hex_val :: "u8 \<Rightarrow> u8" where
  "hex_val b = (if b \<le> 0x39 then b - 0x30 else if 0x61 \<le> b then b - 0x61 + 10 else b - 0x41 + 10)"

definition is_octal_digit :: "u8 \<Rightarrow> bool" where
  "is_octal_digit b \<longleftrightarrow> 0x30 \<le> b \<and> b \<le> 0x37"

text \<open>A hex escape has one or two digits, an octal escape one to three; the arithmetic is on bytes.\<close>

definition hex_escape :: "bytes \<Rightarrow> u8 \<times> bytes" where
  "hex_escape rest =
    (case rest of
       a # rest1 \<Rightarrow>
         if is_hex_digit a then
           (case rest1 of
              b # rest2 \<Rightarrow> if is_hex_digit b then (hex_val a * 16 + hex_val b, rest2) else (hex_val a, rest1)
            | [] \<Rightarrow> (hex_val a, rest1))
         else (0x78, rest)
     | [] \<Rightarrow> (0x78, rest))"

definition octal_escape :: "u8 \<Rightarrow> bytes \<Rightarrow> u8 \<times> bytes" where
  "octal_escape a rest =
    (case rest of
       b # rest1 \<Rightarrow>
         if is_octal_digit b then
           (case rest1 of
              c # rest2 \<Rightarrow>
                if is_octal_digit c then (((a - 0x30) * 8 + (b - 0x30)) * 8 + (c - 0x30), rest2)
                else ((a - 0x30) * 8 + (b - 0x30), rest1)
            | [] \<Rightarrow> ((a - 0x30) * 8 + (b - 0x30), rest1))
         else (a - 0x30, rest)
     | [] \<Rightarrow> (a - 0x30, rest))"

lemma escape_shorter:
  "length (snd (hex_escape rest)) \<le> length rest" "length (snd (octal_escape a rest)) \<le> length rest"
  by (auto simp: hex_escape_def octal_escape_def split: list.splits)

function unescape_loop :: "bytes \<Rightarrow> bytes" where
  "unescape_loop [] = []"
| "unescape_loop [b] = [b]"
| "unescape_loop (b # c # rest) =
    (if b = BACKSLASH then
       (if c = 0x62 then 0x08 # unescape_loop rest
        else if c = 0x66 then 0x0C # unescape_loop rest
        else if c = 0x6E then 0x0A # unescape_loop rest
        else if c = 0x72 then 0x0D # unescape_loop rest
        else if c = 0x74 then 0x09 # unescape_loop rest
        else if c = 0x76 then 0x0B # unescape_loop rest
        else if c = 0x78 then fst (hex_escape rest) # unescape_loop (snd (hex_escape rest))
        else if is_octal_digit c then fst (octal_escape c rest) # unescape_loop (snd (octal_escape c rest))
        else c # unescape_loop rest)
     else b # unescape_loop (c # rest))"
  by pat_completeness auto
termination
  by (relation "measure length") (auto intro: le_less_trans [OF escape_shorter(1)] le_less_trans [OF escape_shorter(2)])

definition unescape_bytes :: "bytes \<Rightarrow> bytes option" where
  "unescape_bytes raw = (let out = unescape_loop raw in if utf8_valid out then Some out else None)"

definition unescape_field_always :: "Memchr \<Rightarrow> bytes \<Rightarrow> bytes option" where
  "unescape_field_always M raw = (if memchr M BACKSLASH raw = None then Some raw else unescape_bytes raw)"

section \<open>The text that PostgreSQL writes\<close>

text \<open>
  The output side of the format: control bytes as letter escapes, the backslash and the delimiter
  behind a backslash, NULL as \<open>\N\<close>.  PostgreSQL refuses the delimiters that \<open>delimiter_ok\<close> excludes.
\<close>

definition escape_byte :: "u8 \<Rightarrow> u8 \<Rightarrow> bytes" where
  "escape_byte d c =
    (if c = 0x08 then [BACKSLASH, 0x62] else if c = 0x0C then [BACKSLASH, 0x66] else if c = LF then [BACKSLASH, 0x6E]
     else if c = CR then [BACKSLASH, 0x72] else if c = 0x09 then [BACKSLASH, 0x74] else if c = 0x0B then [BACKSLASH, 0x76]
     else if c = BACKSLASH \<or> c = d then [BACKSLASH, c] else [c])"

definition null_text :: bytes where
  "null_text = [BACKSLASH, 0x4E]"

definition field_text :: "u8 \<Rightarrow> bytes option \<Rightarrow> bytes" where
  "field_text d f = (case f of None \<Rightarrow> null_text | Some s \<Rightarrow> concat (map (escape_byte d) s))"

fun row_text :: "u8 \<Rightarrow> bytes option list \<Rightarrow> bytes" where
  "row_text d [] = []"
| "row_text d [f] = field_text d f"
| "row_text d (f # fs) = field_text d f @ d # row_text d fs"

fun eol_text :: "Eol \<Rightarrow> bytes" where
  "eol_text Lf = [LF]"
| "eol_text Cr = [CR]"
| "eol_text CrLf = [CR, LF]"

definition delimiter_ok :: "u8 \<Rightarrow> bool" where
  "delimiter_ok d \<longleftrightarrow> d \<notin> {LF, CR, BACKSLASH, 0x2E, 0x4E} \<and> \<not> (0x30 \<le> d \<and> d \<le> 0x39) \<and> \<not> (0x61 \<le> d \<and> d \<le> 0x7A)"

text \<open>Every escaped text is made of plain bytes and of escape pairs, which the scanners step over.\<close>

definition atom :: "u8 \<Rightarrow> bytes \<Rightarrow> bool" where
  "atom d a \<longleftrightarrow> (\<exists>c. a = [c] \<and> c \<notin> {LF, CR, BACKSLASH, d}) \<or> (\<exists>c. a = [BACKSLASH, c])"

lemma atom_escape_byte: "atom d (escape_byte d c)"
  by (auto simp: atom_def escape_byte_def)

lemma field_text_atoms: "\<exists>as. field_text d f = concat as \<and> (\<forall>a \<in> set as. atom d a)"
proof (cases f)
  case None
  then show ?thesis by (intro exI [of _ "[null_text]"]) (simp add: field_text_def null_text_def atom_def)
next
  case (Some s)
  then show ?thesis by (intro exI [of _ "map (escape_byte d) s"]) (auto simp: field_text_def atom_escape_byte)
qed

section \<open>Unescaping inverts escaping\<close>

lemma unescape_plain: "b \<noteq> BACKSLASH \<Longrightarrow> unescape_loop (b # rest) = b # unescape_loop rest"
  by (cases rest) simp_all

lemma delimiter_not_octal: "delimiter_ok d \<Longrightarrow> \<not> is_octal_digit d"
  by (auto simp: delimiter_ok_def is_octal_digit_def word_le_nat_alt)

lemma unescape_escape_byte:
  assumes "delimiter_ok d"
  shows "unescape_loop (escape_byte d c @ rest) = c # unescape_loop rest"
proof (cases "c = BACKSLASH \<or> c = d")
  case True
  moreover have "\<not> is_octal_digit BACKSLASH" by (simp add: is_octal_digit_def)
  ultimately show ?thesis using assms delimiter_not_octal [OF assms]
    by (auto simp: escape_byte_def delimiter_ok_def unescape_plain)
qed (auto simp: escape_byte_def unescape_plain)

lemma unescape_escaped: "delimiter_ok d \<Longrightarrow> unescape_loop (concat (map (escape_byte d) s)) = s"
  by (induction s) (simp_all add: unescape_escape_byte)

lemma escaped_not_null:
  assumes "delimiter_ok d"
  shows "concat (map (escape_byte d) s) \<noteq> null_text"
proof
  assume e: "concat (map (escape_byte d) s) = null_text"
  then have "s = [0x4E]" using unescape_escaped [OF assms, of s] by (simp add: null_text_def is_octal_digit_def)
  then show False using e assms by (simp add: null_text_def escape_byte_def delimiter_ok_def)
qed

text \<open>A raw field as the loader decodes it for a text column.\<close>

definition read_field :: "Memchr \<Rightarrow> bytes \<Rightarrow> bytes \<Rightarrow> bytes option option" where
  "read_field M null_string raw =
    (if raw = null_string then Some None else map_option Some (unescape_field_always M raw))"

lemma unescape_without_backslash: "BACKSLASH \<notin> set raw \<Longrightarrow> unescape_loop raw = raw"
  by (induction raw) (auto simp: unescape_plain)

lemma read_field_text:
  assumes M: "memchr_contract M" and d: "delimiter_ok d" and valid: "\<And>s. f = Some s \<Longrightarrow> utf8_valid s"
  shows "read_field M null_text (field_text d f) = Some f"
proof (cases f)
  case (Some s)
  let ?raw = "concat (map (escape_byte d) s)"
  have "memchr M BACKSLASH ?raw = None \<Longrightarrow> ?raw = s"
    using M unescape_without_backslash [of ?raw] unescape_escaped [OF d, of s]
    by (auto simp: memchr_contract_def position_None simp del: set_concat)
  then show ?thesis
    using Some valid escaped_not_null [OF d, of s] unescape_escaped [OF d, of s]
    by (simp add: read_field_def field_text_def unescape_field_always_def unescape_bytes_def Let_def)
qed (simp add: read_field_def field_text_def)

section \<open>Field boundaries\<close>

lemma split_atoms:
  assumes "\<forall>a \<in> set as. atom d a"
  shows "split_loop n d fs i (concat as @ rest) = split_loop n d fs (i + length (concat as)) rest"
  using assms
proof (induction as arbitrary: i)
  case (Cons a as)
  then consider c where "a = [c]" "c \<notin> {LF, CR, BACKSLASH, d}" | c where "a = [BACKSLASH, c]"
    by (auto simp: atom_def)
  then show ?case by cases (use Cons.IH Cons.prems in \<open>simp_all add: ac_simps\<close>)
qed simp

lemma split_field_text:
  "split_loop n d fs i (field_text d f @ rest) = split_loop n d fs (i + length (field_text d f)) rest"
  using field_text_atoms [of d f] split_atoms by metis

fun spans :: "nat \<Rightarrow> bytes list \<Rightarrow> (nat \<times> nat) list" where
  "spans i [] = []"
| "spans i (t # ts) = (i, i + length t) # spans (i + length t + 1) ts"

lemma split_row_text:
  assumes "d \<noteq> BACKSLASH" and "vals \<noteq> []" and "n = i + length (row_text d vals)"
  shows "split_loop n d i i (row_text d vals) = spans i (map (field_text d) vals)"
  using assms
proof (induction d vals arbitrary: i rule: row_text.induct)
  case (2 d f)
  then show ?case using split_field_text [of n d i i f "[]"] by simp
next
  case (3 d f g fs)
  have "split_loop n d i i (row_text d (f # g # fs))
    = split_loop n d i (i + length (field_text d f)) (d # row_text d (g # fs))"
    using split_field_text [of n d i i f "d # row_text d (g # fs)"] by simp
  then show ?case using 3 by simp
qed simp

lemma slice_spans:
  assumes "d \<noteq> BACKSLASH" and "vals \<noteq> []" and "length pre = i"
  shows "those (map (\<lambda>(s, e). slice (pre @ row_text d vals) s e) (spans i (map (field_text d) vals)))
    = Some (map (field_text d) vals)"
  using assms
proof (induction d vals arbitrary: i pre rule: row_text.induct)
  case (2 d f)
  then show ?case using slice_middle [of pre i "field_text d f" _ "[]"] by simp
next
  case (3 d f g fs)
  let ?t = "field_text d f"
  have "slice (pre @ row_text d (f # g # fs)) i (i + length ?t) = Some ?t"
    using 3 slice_middle [of pre i ?t "length ?t" "d # row_text d (g # fs)"] by simp
  then show ?case using 3(1) [of "pre @ ?t @ [d]" "i + length ?t + 1"] 3(2,4) by simp
qed simp

lemma split_fields_row:
  assumes "d \<noteq> BACKSLASH" and "vals \<noteq> []"
  shows "split_fields (row_text d vals) d = Some (map (field_text d) vals)"
  using split_row_text [OF assms, of _ 0] slice_spans [OF assms, of "[]" 0]
  by (simp add: split_fields_def split_fields_into_def)

section \<open>Line boundaries\<close>

text \<open>The first unescaped terminator, by recursion on the bytes.\<close>

fun terminator :: "bytes \<Rightarrow> nat option" where
  "terminator [] = None"
| "terminator (b # rest) =
    (if b = BACKSLASH then map_option (\<lambda>n. n + 2) (terminator (drop 1 rest))
     else if b = LF \<or> b = CR then Some 0 else map_option Suc (terminator rest))"

lemma terminator_position:
  "position (\<lambda>x. x = LF \<or> x = CR \<or> x = BACKSLASH) xs = None \<Longrightarrow> terminator xs = None"
  "position (\<lambda>x. x = LF \<or> x = CR \<or> x = BACKSLASH) xs = Some k \<Longrightarrow> k < length xs \<and> xs ! k \<in> {LF, CR, BACKSLASH} \<and>
     terminator xs = (if xs ! k = BACKSLASH then map_option (\<lambda>n. n + (k + 2)) (terminator (drop (k + 2) xs)) else Some k)"
proof (induction xs arbitrary: k)
  case (Cons x xs)
  {
    case 1
    then show ?case using Cons.IH(1) by (auto split: if_splits)
  next
    case 2
    show ?case
    proof (cases k)
      case 0
      then show ?thesis using 2 by (auto split: if_splits)
    next
      case (Suc j)
      then have "x \<notin> {LF, CR, BACKSLASH}" "position (\<lambda>x. x = LF \<or> x = CR \<or> x = BACKSLASH) xs = Some j"
        using 2 by (auto split: if_splits)
      then show ?thesis using Cons.IH(2) [of j] Suc by (auto simp: option.map_comp comp_def)
    qed
  }
qed simp_all

lemma find_terminator_spec:
  assumes "memchr_contract M"
  shows "find_terminator M data i = Some (map_option (\<lambda>n. n + i) (terminator (drop i data)))"
proof (induction "length data - i" arbitrary: i rule: less_induct)
  case less
  let ?p = "position (\<lambda>x. x = LF \<or> x = CR \<or> x = BACKSLASH) (drop i data)"
  have M: "memchr3 M LF CR BACKSLASH (drop i data) = ?p" using assms by (simp add: memchr_contract_def)
  show ?case
  proof (cases "i < length data \<and> ?p \<noteq> None")
    case True
    then obtain k where k: "?p = Some k" by blast
    note spec = terminator_position(2) [OF k]
    then have "i + k < length data" by (simp add: less_diff_conv add.commute)
    then have at: "index data (i + k) = Some (drop i data ! k)" by simp
    have later: "find_terminator M data (i + k + 2) = Some (map_option (\<lambda>n. n + (i + k + 2)) (terminator (drop (i + k + 2) data)))"
      using True by (intro less) auto
    show ?thesis
      using True spec later unfolding find_terminator.simps [of M data i] M k at
      by (auto simp: option.map_comp comp_def ac_simps)
  next
    case False
    then show ?thesis using terminator_position(1) [of "drop i data"]
      unfolding find_terminator.simps [of M data i] M by auto
  qed
qed

lemma terminator_atoms:
  assumes "\<forall>a \<in> set as. atom d a"
  shows "terminator (concat as @ rest) = map_option (\<lambda>n. n + (length (concat as))) (terminator rest)"
  using assms
proof (induction as)
  case (Cons a as)
  then consider c where "a = [c]" "c \<notin> {LF, CR, BACKSLASH, d}" | c where "a = [BACKSLASH, c]"
    by (auto simp: atom_def)
  then show ?case by cases (use Cons.IH Cons.prems in \<open>auto simp: option.map_comp comp_def\<close>)
qed (simp add: option.map_ident)

lemma row_text_atoms:
  assumes "d \<notin> {LF, CR, BACKSLASH}"
  shows "\<exists>as. row_text d vals = concat as \<and> (\<forall>a \<in> set as. atom BACKSLASH a)"
  using assms
proof (induction d vals rule: row_text.induct)
  case (2 d f)
  then show ?case using field_text_atoms [of d f] by (fastforce simp: atom_def)
next
  case (3 d f g fs)
  obtain as where as: "field_text d f = concat as" "\<forall>a \<in> set as. atom BACKSLASH a"
    using field_text_atoms [of d f] by (fastforce simp: atom_def)
  obtain bs where bs: "row_text d (g # fs) = concat bs" "\<forall>a \<in> set bs. atom BACKSLASH a" using 3 by blast
  have "atom BACKSLASH [d]" using 3(2) by (simp add: atom_def)
  then show ?case using as bs by (intro exI [of _ "as @ [[d]] @ bs"]) auto
qed (simp add: exI [of _ "[]"])

lemma terminator_row:
  assumes "d \<notin> {LF, CR, BACKSLASH}"
  shows "terminator (row_text d vals @ eol_text e @ rest) = Some (length (row_text d vals))"
proof -
  obtain as where as: "row_text d vals = concat as" "\<forall>a \<in> set as. atom BACKSLASH a"
    using row_text_atoms [OF assms, of vals] by blast
  have "terminator (eol_text e @ rest) = Some 0" by (cases e) simp_all
  then show ?thesis using terminator_atoms [OF as(2), of "eol_text e @ rest"] as(1) by simp
qed

lemma row_text_head:
  assumes "d \<notin> {LF, CR, BACKSLASH}" and "row_text d vals = b # rest"
  shows "b \<noteq> LF"
proof -
  obtain as where as: "concat as = b # rest" "\<forall>a \<in> set as. atom BACKSLASH a"
    using row_text_atoms [OF assms(1), of vals] assms(2) by auto
  then show ?thesis by (cases as) (auto simp: atom_def)
qed

lemma row_text_not_end:
  assumes "delimiter_ok d" and "vals \<noteq> []"
  shows "row_text d vals \<noteq> [BACKSLASH, 0x2E]"
proof
  assume e: "row_text d vals = [BACKSLASH, 0x2E]"
  have d: "d \<noteq> BACKSLASH" using assms(1) by (simp add: delimiter_ok_def)
  have "spans 0 (map (field_text d) vals) = [(0, 2)]"
    using split_row_text [OF d assms(2), of 2 0] e by simp
  then obtain f where f: "vals = [f]" by (cases vals; cases "tl vals") auto
  show False
  proof (cases f)
    case None
    then show False using e f by (simp add: field_text_def null_text_def)
  next
    case (Some v)
    then have esc: "concat (map (escape_byte d) v) = [BACKSLASH, 0x2E]" using e f by (simp add: field_text_def)
    then have "v = [0x2E]" using unescape_escaped [OF assms(1), of v] by (simp add: is_octal_digit_def)
    then show False using esc assms(1) by (simp add: escape_byte_def delimiter_ok_def)
  qed
qed

section \<open>Reading back a whole file\<close>

definition no_lf_ahead :: "bytes \<Rightarrow> bool" where
  "no_lf_ahead rest \<longleftrightarrow> (case rest of [] \<Rightarrow> True | b # _ \<Rightarrow> b \<noteq> LF)"

lemma next_line_row:
  assumes M: "memchr_contract M" and d: "delimiter_ok d" and "vals \<noteq> []"
    and eol: "eol r = None \<or> eol r = Some e" and rest: "e = Cr \<Longrightarrow> no_lf_ahead rest"
  shows "next_line M r (pre @ row_text d vals @ eol_text e @ rest) (length pre)
    = Some (\<lparr>eol = Some e, line_number = line_number r + 1\<rparr>, Row (length pre) (length pre + length (row_text d vals)))"
proof -
  let ?line = "row_text d vals" and ?data = "row_text d vals @ eol_text e @ rest"
  have "d \<notin> {LF, CR, BACKSLASH}" using d by (simp add: delimiter_ok_def)
  then have found: "find_terminator M ?data 0 = Some (Some (length ?line))"
    using find_terminator_spec [OF M, of ?data 0] terminator_row [of d vals e rest] by simp
  have check: "check_end_of_copy (pre @ ?data) (length pre) (length pre + length ?line) = Some (Row (length pre) (length pre + length ?line))"
    using row_text_not_end [OF d assms(3)] slice_middle [of pre "length pre" ?line "length ?line" "eol_text e @ rest"]
    by (simp add: check_end_of_copy_def)
  have kind: "(if ?data ! length ?line = LF then Lf
      else if length ?line + 1 < length ?data \<and> ?data ! (length ?line + 1) = LF then CrLf else Cr) = e"
    using rest by (cases e; cases rest) (auto simp: nth_append no_lf_ahead_def)
  have data: "slice_from (pre @ ?data) (length pre) = Some ?data" by simp
  show ?thesis
    unfolding next_line_def data Option.bind_lunit found option.case Let_def kind check using eol by auto
qed

definition file_text :: "u8 \<Rightarrow> Eol \<Rightarrow> bytes option list list \<Rightarrow> bytes" where
  "file_text d e vals = concat (map (\<lambda>r. row_text d r @ eol_text e) vals)"

lemma file_text_ahead:
  assumes "delimiter_ok d"
  shows "no_lf_ahead (file_text d Cr vals)"
proof -
  have d: "d \<notin> {LF, CR, BACKSLASH}" using assms by (simp add: delimiter_ok_def)
  show ?thesis
  proof (cases vals)
    case (Cons r rs)
    then show ?thesis using row_text_head [OF d, of r]
      by (cases "row_text d r") (auto simp: file_text_def no_lf_ahead_def)
  qed (simp add: file_text_def no_lf_ahead_def)
qed

lemma next_line_at_end:
  assumes "memchr_contract M"
  shows "next_line M r buf (length buf) = Some (r, Incomplete)"
  using find_terminator_spec [OF assms, of "[]" 0] by (simp add: next_line_def slice_from_def)

lemma scan_lines_file:
  assumes M: "memchr_contract M" and d: "delimiter_ok d"
    and "\<forall>r \<in> set vals. r \<noteq> []" and "eol r = None \<or> eol r = Some e"
  shows "\<exists>r' ranges. scan_lines M r (pre @ file_text d e vals) (length pre)
      = Some (r', ranges, length (pre @ file_text d e vals), False)
    \<and> map (\<lambda>(a, b). slice (pre @ file_text d e vals) a b) ranges = map (\<lambda>r. Some (row_text d r)) vals
    \<and> line_number r' = line_number r + word_of_nat (length vals)"
  using assms(3,4)
proof (induction vals arbitrary: pre r)
  case Nil
  then show ?case using next_line_at_end [OF M, of r pre] by (subst scan_lines.simps) (simp add: file_text_def)
next
  case (Cons v vals)
  let ?rest = "file_text d e vals" and ?line = "row_text d v"
  let ?buf = "pre @ ?line @ eol_text e @ ?rest" and ?r = "\<lparr>eol = Some e, line_number = line_number r + 1\<rparr>"
  have buf: "pre @ file_text d e (v # vals) = ?buf" by (simp add: file_text_def)
  have row: "next_line M r ?buf (length pre) = Some (?r, Row (length pre) (length pre + length ?line))"
    using next_line_row [OF M d, of v r e ?rest pre] Cons.prems file_text_ahead [OF d] by simp
  have len: "length pre + length ?line + eol_len ?r = length (pre @ ?line @ eol_text e)"
    by (cases e) (simp_all add: eol_len_def)
  obtain r' ranges where tail: "scan_lines M ?r ?buf (length (pre @ ?line @ eol_text e)) = Some (r', ranges, length ?buf, False)"
    "map (\<lambda>(a, b). slice ?buf a b) ranges = map (\<lambda>r. Some (row_text d r)) vals"
    "line_number r' = line_number ?r + word_of_nat (length vals)"
    using Cons.IH [of ?r "pre @ ?line @ eol_text e"] Cons.prems by auto
  have "slice ?buf (length pre) (length pre + length ?line) = Some ?line"
    using slice_middle [of pre "length pre" ?line "length ?line" "eol_text e @ ?rest"] by simp
  then show ?case unfolding buf using row len tail
    by (subst scan_lines.simps) (auto simp: ac_simps)
qed

text \<open>Lines, fields and values of a buffer, as the loader takes it apart.\<close>

definition read_rows :: "Memchr \<Rightarrow> u8 \<Rightarrow> bytes \<Rightarrow> bytes \<Rightarrow> bytes option list list option" where
  "read_rows M delimiter null_string buf = do {
     (r, ranges, pos, eoc) \<leftarrow> scan_lines M new_line_reader buf 0;
     those (map (\<lambda>(s, e). do {
       line \<leftarrow> slice buf s e;
       raws \<leftarrow> split_fields line delimiter;
       those (map (read_field M null_string) raws) }) ranges) }"

lemma read_rows_file:
  assumes M: "memchr_contract M" and d: "delimiter_ok d" and "\<forall>r \<in> set vals. r \<noteq> []"
    and valid: "\<forall>r \<in> set vals. \<forall>s. Some s \<in> set r \<longrightarrow> utf8_valid s"
  shows "read_rows M d null_text (file_text d e vals) = Some vals"
proof -
  let ?buf = "file_text d e vals"
  let ?parse = "\<lambda>l. do { line \<leftarrow> l; raws \<leftarrow> split_fields line d; those (map (read_field M null_text) raws) }"
  obtain r' ranges where scan: "scan_lines M new_line_reader ?buf 0 = Some (r', ranges, length ?buf, False)"
    "map (\<lambda>(a, b). slice ?buf a b) ranges = map (\<lambda>r. Some (row_text d r)) vals"
    using scan_lines_file [OF M d assms(3), of new_line_reader e "[]"] by (auto simp: new_line_reader_def)
  have one: "?parse (Some (row_text d r)) = Some r" if "r \<in> set vals" for r
  proof -
    have "those (map (read_field M null_text) (map (field_text d) r)) = Some (map id r)"
      unfolding map_map using that valid by (intro those_map_Some) (auto intro!: read_field_text [OF M d])
    then show ?thesis using that assms(3) d split_fields_row [of d r] by (simp add: delimiter_ok_def)
  qed
  have "map (\<lambda>(a, b). ?parse (slice ?buf a b)) ranges = map ?parse (map (\<lambda>(a, b). slice ?buf a b) ranges)"
    by (auto simp: split_def)
  also have "those \<dots> = those (map (\<lambda>r. ?parse (Some (row_text d r))) vals)" unfolding scan(2) by (simp add: comp_def)
  also have "\<dots> = Some (map id vals)" using one by (intro those_map_Some) simp
  finally show ?thesis using scan(1) by (simp add: read_rows_def)
qed

end
