(* ===== verification/Std_Parse.thy ===== *)
theory Std_Parse
  imports Time_Text
begin

unbundle bit_operations_syntax

text \<open>
  What the loaders use of the standard library's text parsers: integers of a given width, IEEE floats
  from decimal text (correctly rounded, as \<^verbatim>\<open>f64::from_str\<close> documents), and IP addresses
  (\<^verbatim>\<open>std::net::IpAddr::from_str\<close>).
\<close>

section \<open>Digits\<close>

text \<open>\<^verbatim>\<open>(c as char).to_digit(radix)\<close> for the radices 10 and 16.\<close>

definition to_digit :: "nat \<Rightarrow> u8 \<Rightarrow> nat option" where
  "to_digit radix c =
    (let v = (if 0x30 \<le> c \<and> c \<le> 0x39 then unat (c - 0x30)
              else if 0x61 \<le> c \<and> c \<le> 0x7A then unat (c - 0x61) + 10
              else if 0x41 \<le> c \<and> c \<le> 0x5A then unat (c - 0x41) + 10 else 36)
     in if v < radix then Some v else None)"

definition ascii_lower :: "bytes \<Rightarrow> bytes" where
  "ascii_lower s = map (\<lambda>c. if 0x41 \<le> c \<and> c \<le> 0x5A then c + 0x20 else c) s"

section \<open>Integers\<close>

text \<open>\<^verbatim>\<open>s.parse::<iN>()\<close>: an optional sign, at least one digit, and a value in range.\<close>

definition parse_signed :: "nat \<Rightarrow> bytes \<Rightarrow> int option" where
  "parse_signed bits s =
    (let (neg, digits) = (case s of [] \<Rightarrow> (False, [])
                          | c # cs \<Rightarrow> if c = 0x2D then (True, cs) else if c = 0x2B then (False, cs) else (False, s));
         v = (if neg then - int (digits_val 0 digits) else int (digits_val 0 digits))
     in if digits \<noteq> [] \<and> list_all is_digit digits \<and> - (2 ^ (bits - 1)) \<le> v \<and> v < 2 ^ (bits - 1) then Some v else None)"

text \<open>\<^verbatim>\<open>s.parse::<u16>()\<close>: no minus sign.\<close>

definition parse_u16 :: "bytes \<Rightarrow> nat option" where
  "parse_u16 s =
    (let digits = (case s of [] \<Rightarrow> [] | c # cs \<Rightarrow> if c = 0x2B then cs else s);
         v = digits_val 0 digits
     in if digits \<noteq> [] \<and> list_all is_digit digits \<and> v < 2 ^ 16 then Some v else None)"

section \<open>Floats\<close>

definition round_half_even :: "int \<Rightarrow> int \<Rightarrow> int" where
  "round_half_even num den =
    (let q = num div den; r = num mod den in
     if 2 * r < den then q else if den < 2 * r then q + 1 else if even q then q else q + 1)"

function bit_length :: "int \<Rightarrow> int" where
  "bit_length n = (if n \<le> 0 then 0 else 1 + bit_length (n div 2))"
  by pat_completeness auto
termination by (relation "measure nat") auto

declare bit_length.simps [simp del]

definition pow2 :: "int \<Rightarrow> int" where
  "pow2 k = 2 ^ nat k"

text \<open>
  The bit pattern, without the sign, of the float nearest to \<open>num / den\<close>, ties to even: \<open>prec\<close> bits of
  significand, smallest normal exponent \<open>emin\<close>, and \<open>inf_bits\<close> the pattern of infinity.  The implicit bit
  of a normal number carries into the exponent field.
\<close>

definition nearest_float :: "int \<Rightarrow> int \<Rightarrow> int \<Rightarrow> int \<Rightarrow> int \<Rightarrow> int" where
  "nearest_float prec emin inf_bits num den =
    (if num = 0 then 0 else
     let d = bit_length num - bit_length den;
         e = (if den * pow2 d \<le> num * pow2 (- d) then d else d - 1);
         E = max e emin;
         q = E - (prec - 1);
         m = round_half_even (num * pow2 (- q)) (den * pow2 q);
         bits = m + (E - emin) * pow2 (prec - 1)
     in min bits inf_bits)"

text \<open>\<open>[digits] [. digits] [(e|E) [sign] digits]\<close> with a digit before the exponent.\<close>

definition decimal :: "bytes \<Rightarrow> (int \<times> int) option" where
  "decimal s =
    (let ip = takeWhile is_digit s; r1 = dropWhile is_digit s;
         (fp, r2) = (case r1 of c # cs \<Rightarrow> if c = 0x2E then (takeWhile is_digit cs, dropWhile is_digit cs) else ([], r1)
                     | [] \<Rightarrow> ([], r1));
         mant = int (digits_val 0 (ip @ fp));
         scale = - int (length fp)
     in if ip = [] \<and> fp = [] then None
        else case r2 of
          [] \<Rightarrow> Some (mant, scale)
        | c # cs \<Rightarrow>
            if c \<noteq> 0x65 \<and> c \<noteq> 0x45 then None
            else
              let (neg, ds) = (case cs of b # bs \<Rightarrow> if b = 0x2D then (True, bs) else if b = 0x2B then (False, bs) else (False, cs)
                               | [] \<Rightarrow> (False, cs))
              in if ds = [] \<or> \<not> list_all is_digit ds then None
                 else Some (mant, scale + (if neg then - int (digits_val 0 ds) else int (digits_val 0 ds))))"

definition decimal_float :: "int \<Rightarrow> int \<Rightarrow> int \<Rightarrow> int \<Rightarrow> int \<Rightarrow> int" where
  "decimal_float prec emin inf_bits mant scale = nearest_float prec emin inf_bits (mant * 10 ^ nat scale) (10 ^ nat (- scale))"

definition parse_float :: "int \<Rightarrow> int \<Rightarrow> int \<Rightarrow> int \<Rightarrow> bytes \<Rightarrow> (bool \<times> int) option" where
  "parse_float prec emin inf_bits nan_bits s =
    (let (neg, body) = (case s of [] \<Rightarrow> (False, [])
                        | c # cs \<Rightarrow> if c = 0x2D then (True, cs) else if c = 0x2B then (False, cs) else (False, s));
         word = ascii_lower body
     in if word = str ''inf'' \<or> word = str ''infinity'' then Some (neg, inf_bits)
        else if word = str ''nan'' then Some (neg, nan_bits)
        else map_option (\<lambda>(mant, scale). (neg, decimal_float prec emin inf_bits mant scale)) (decimal body))"

definition F32_INF :: int where "F32_INF = 0x7F800000"
definition F32_NAN :: int where "F32_NAN = 0x7FC00000"
definition F64_INF :: int where "F64_INF = 0x7FF0000000000000"
definition F64_NAN :: int where "F64_NAN = 0x7FF8000000000000"

definition parse_f32 :: "bytes \<Rightarrow> u32 option" where
  "parse_f32 s = map_option (\<lambda>(neg, b). word_of_int b OR (if neg then 0x80000000 else 0)) (parse_float 24 (-126) F32_INF F32_NAN s)"

definition parse_f64 :: "bytes \<Rightarrow> u64 option" where
  "parse_f64 s = map_option (\<lambda>(neg, b). word_of_int b OR (if neg then 0x8000000000000000 else 0)) (parse_float 53 (-1022) F64_INF F64_NAN s)"

section \<open>Addresses\<close>

datatype IpAddr = V4 "u8 list" | V6 "u8 list"

text \<open>A number of at most \<open>max_digits\<close> digits; the digits are read greedily and one too many fails.\<close>

fun number_loop :: "nat \<Rightarrow> int \<Rightarrow> nat \<Rightarrow> int \<Rightarrow> nat \<Rightarrow> bytes \<Rightarrow> (int \<times> nat \<times> bytes) option" where
  "number_loop radix limit max_digits v count [] = Some (v, count, [])"
| "number_loop radix limit max_digits v count (c # cs) =
    (case to_digit radix c of
       None \<Rightarrow> Some (v, count, c # cs)
     | Some d \<Rightarrow>
         if limit \<le> v * int radix + int d \<or> max_digits < count + 1 then None
         else number_loop radix limit max_digits (v * int radix + int d) (count + 1) cs)"

definition read_number :: "nat \<Rightarrow> int \<Rightarrow> nat \<Rightarrow> bool \<Rightarrow> bytes \<Rightarrow> (int \<times> bytes) option" where
  "read_number radix limit max_digits allow_zero_prefix s = do {
     (v, count, rest) \<leftarrow> number_loop radix limit max_digits 0 0 s;
     if count = 0 then None
     else if \<not> allow_zero_prefix \<and> s \<noteq> [] \<and> hd s = 0x30 \<and> 1 < count then None
     else Some (v, rest) }"

definition read_given_char :: "u8 \<Rightarrow> bytes \<Rightarrow> bytes option" where
  "read_given_char c s = (case s of [] \<Rightarrow> None | b # rest \<Rightarrow> if b = c then Some rest else None)"

text \<open>The separator is read before every item but the first.\<close>

definition read_separator :: "u8 \<Rightarrow> nat \<Rightarrow> (bytes \<Rightarrow> ('a \<times> bytes) option) \<Rightarrow> bytes \<Rightarrow> ('a \<times> bytes) option" where
  "read_separator sep i inner s = do { s \<leftarrow> (if 0 < i then read_given_char sep s else Some s); inner s }"

fun read_octets :: "nat \<Rightarrow> nat \<Rightarrow> bytes \<Rightarrow> (u8 list \<times> bytes) option" where
  "read_octets 0 i s = Some ([], s)"
| "read_octets (Suc n) i s = do {
     (v, s) \<leftarrow> read_separator 0x2E i (read_number 10 256 3 False) s;
     (vs, s) \<leftarrow> read_octets n (i + 1) s;
     Some (word_of_int v # vs, s) }"

definition read_ipv4_addr :: "bytes \<Rightarrow> (u8 list \<times> bytes) option" where
  "read_ipv4_addr s = read_octets 4 0 s"

definition group_bytes :: "int \<Rightarrow> u8 list" where
  "group_bytes g = [word_of_int (g div 256), word_of_int (g mod 256)]"

text \<open>At most \<open>left\<close> further groups; an embedded IPv4 address fills two and ends the list.\<close>

fun read_groups :: "nat \<Rightarrow> nat \<Rightarrow> bytes \<Rightarrow> u8 list \<times> bool \<times> bytes" where
  "read_groups 0 i s = ([], False, s)"
| "read_groups (Suc left) i s =
    (case (if 0 < left then read_separator 0x3A i read_ipv4_addr s else None) of
       Some (octets, s') \<Rightarrow> (octets, True, s')
     | None \<Rightarrow>
         (case read_separator 0x3A i (read_number 16 65536 4 True) s of
            Some (g, s') \<Rightarrow> (let (gs, v4, s'') = read_groups left (i + 1) s' in (group_bytes g @ gs, v4, s''))
          | None \<Rightarrow> ([], False, s)))"

definition read_ipv6_addr :: "bytes \<Rightarrow> (u8 list \<times> bytes) option" where
  "read_ipv6_addr s =
    (let (head, head_ipv4, s1) = read_groups 8 0 s in
     if length head = 16 then Some (head, s1)
     else if head_ipv4 then None
     else do {
       s2 \<leftarrow> read_given_char 0x3A s1;
       s3 \<leftarrow> read_given_char 0x3A s2;
       let (tail, _, s4) = read_groups (8 - (length head div 2 + 1)) 0 s3;
       Some (head @ replicate (16 - length head - length tail) 0 @ tail, s4) })"

definition parse_ip :: "bytes \<Rightarrow> IpAddr option" where
  "parse_ip s =
    (case read_ipv4_addr s of
       Some (octets, rest) \<Rightarrow> if rest = [] then Some (V4 octets) else None
     | None \<Rightarrow> (case read_ipv6_addr s of
                  Some (octets, rest) \<Rightarrow> if rest = [] then Some (V6 octets) else None
                | None \<Rightarrow> None))"

section \<open>Facts\<close>

lemma to_digit_bound: "to_digit radix c = Some v \<Longrightarrow> v < radix"
  by (auto simp: to_digit_def Let_def split: if_splits)

lemma read_octets_length: "read_octets n i s = Some (vs, rest) \<Longrightarrow> length vs = n"
  by (induction n arbitrary: i s vs rest) (auto simp: bind_eq_Some_conv)

lemma read_groups_length: "read_groups left i s = (gs, v4, rest) \<Longrightarrow> length gs \<le> 2 * left \<and> even (length gs)"
proof (induction left arbitrary: i s gs v4 rest)
  case (Suc left)
  show ?case
  proof (cases "if 0 < left then read_separator 0x3A i read_ipv4_addr s else None")
    case None
    then show ?thesis using Suc.prems Suc.IH
      by (auto simp: group_bytes_def split: option.splits prod.splits if_splits)
  next
    case (Some p)
    then obtain s' where "read_octets 4 0 s' = Some p" "0 < left"
      by (auto simp: read_separator_def read_ipv4_addr_def bind_eq_Some_conv split: if_splits)
    then have "length (fst p) = 4" using read_octets_length [of 4 0 s' "fst p" "snd p"] by simp
    then show ?thesis using Some Suc.prems \<open>0 < left\<close> by (cases p) auto
  qed
qed simp

lemma parse_ip_length:
  "parse_ip s = Some (V4 octets) \<Longrightarrow> length octets = 4"
  "parse_ip s = Some (V6 octets) \<Longrightarrow> length octets = 16"
proof -
  show "parse_ip s = Some (V4 octets) \<Longrightarrow> length octets = 4"
    using read_octets_length [of 4 0 s octets] by (auto simp: parse_ip_def read_ipv4_addr_def split: option.splits if_splits)
  assume "parse_ip s = Some (V6 octets)"
  then obtain rest where six: "read_ipv6_addr s = Some (octets, rest)"
    by (auto simp: parse_ip_def split: option.splits if_splits)
  obtain head v4 s1 where head: "read_groups 8 0 s = (head, v4, s1)" by (cases "read_groups 8 0 s")
  note h = read_groups_length [OF head]
  show "length octets = 16"
  proof (cases "length head = 16")
    case True
    then show ?thesis using six head by (simp add: read_ipv6_addr_def)
  next
    case False
    then obtain s2 s3 where "read_given_char 0x3A s1 = Some s2" "read_given_char 0x3A s2 = Some s3" "\<not> v4"
      using six head by (auto simp: read_ipv6_addr_def bind_eq_Some_conv split: if_splits)
    moreover obtain tail v s4 where "read_groups (8 - (length head div 2 + 1)) 0 s3 = (tail, v, s4)"
      by (cases "read_groups (8 - (length head div 2 + 1)) 0 s3")
    ultimately have tail: "read_groups (8 - (length head div 2 + 1)) 0 s3 = (tail, v, s4)"
      "octets = head @ replicate (16 - length head - length tail) 0 @ tail"
      using six head False by (simp_all add: read_ipv6_addr_def)
    have "length head + length tail \<le> 16" using h read_groups_length [OF tail(1)] False by (auto elim!: evenE)
    then show ?thesis using tail(2) by simp
  qed
qed

lemma parse_samples:
  "parse_f64 (str ''0.1'') = Some 0x3FB999999999999A"
  "parse_f32 (str ''-2.5e-1'') = Some 0xBE800000"
  by code_simp+

lemma parse_ip_samples:
  "parse_ip (str ''::ffff:10.0.0.1'') = Some (V6 [0, 0, 0, 0, 0, 0, 0, 0, 0, 0, 0xFF, 0xFF, 10, 0, 0, 1])"
  "parse_ip (str ''192.168.01.1'') = None"
  by code_simp+

end
