(* ===== verification/Copy_Fields.thy ===== *)
theory Copy_Fields
  imports Copy_Text Std_Parse Typed_Column
begin

unbundle bit_operations_syntax

text \<open>
  From a COPY field to a value of a typed column (src/src/copyparse.rs).  A conversion that the source
  reports as \<^verbatim>\<open>Err\<close> is an \<open>Inl\<close>; a panic (invalid UTF-8, a timestamp that cannot be read) is
  \<^const>\<open>None\<close>.  PostgreSQL's \<^verbatim>\<open>jsonb_in\<close>, behind \<^verbatim>\<open>jsonb_text_to_binary\<close>, is the parameter \<open>J\<close>.
\<close>

datatype ParseMessage = InvalidInt2 | InvalidInt4 | InvalidInt8 | InvalidFloat4 | InvalidFloat8 | InvalidBool
  | InvalidTime | InvalidUuid | InvalidBytea | InvalidInet
  | FieldCount nat nat | TimeIsNull | TimeNotUtf8 | TimeEscaped | NoPartition i64 | AlreadyCompressed | WorkerPanicked

record ParseError =
  message :: ParseMessage
  column :: nat
  line :: u64

section \<open>Values\<close>

fun uuid_loop :: "bytes \<Rightarrow> u8 list \<Rightarrow> nat \<Rightarrow> (u8 list \<times> nat) option" where
  "uuid_loop [] out nibbles = Some (out, nibbles)"
| "uuid_loop (c # cs) out nibbles =
    (if c = 0x2D \<or> c = 0x7B \<or> c = 0x7D then uuid_loop cs out nibbles
     else case to_digit 16 c of
       None \<Rightarrow> None
     | Some d \<Rightarrow>
         if 32 \<le> nibbles then None
         else uuid_loop cs (out[nibbles div 2 := push_bit 4 (out ! (nibbles div 2)) OR word_of_nat d]) (nibbles + 1))"

definition parse_uuid_bytes :: "bytes \<Rightarrow> u8 list option" where
  "parse_uuid_bytes s = do {
     (out, nibbles) \<leftarrow> uuid_loop s (replicate 16 0) 0;
     if nibbles = 32 then Some out else None }"

fun hex_pairs :: "bytes \<Rightarrow> u8 list option" where
  "hex_pairs [] = Some []"
| "hex_pairs [a] = Some []"
| "hex_pairs (a # b # rest) = do {
     hi \<leftarrow> to_digit 16 a;
     lo \<leftarrow> to_digit 16 b;
     out \<leftarrow> hex_pairs rest;
     Some (word_of_nat (16 * hi + lo) # out) }"

fun bytea_escapes :: "bytes \<Rightarrow> u8 list option" where
  "bytea_escapes [] = Some []"
| "bytea_escapes (b # rest) =
    (if b = BACKSLASH then
       (case rest of
          c # rest1 \<Rightarrow>
            if c = BACKSLASH then map_option ((#) BACKSLASH) (bytea_escapes rest1)
            else (case rest1 of
                    d # e # rest3 \<Rightarrow>
                      if is_digit c \<and> is_digit d \<and> is_digit e then
                        (let v = digit_val c * 64 + digit_val d * 8 + digit_val e in
                         if 255 < v then None else map_option ((#) (word_of_nat v)) (bytea_escapes rest3))
                      else None
                  | _ \<Rightarrow> None)
        | [] \<Rightarrow> None)
     else map_option ((#) b) (bytea_escapes rest))"

definition parse_bytea_bytes :: "bytes \<Rightarrow> u8 list option" where
  "parse_bytea_bytes s =
    (case s of
       b0 # b1 # hex \<Rightarrow>
         if b0 = BACKSLASH \<and> (b1 = 0x78 \<or> b1 = 0x58)
         then if even (length hex) then hex_pairs hex else None
         else bytea_escapes s
     | _ \<Rightarrow> bytea_escapes s)"

definition PGSQL_AF_INET :: u8 where "PGSQL_AF_INET = 2"
definition PGSQL_AF_INET6 :: u8 where "PGSQL_AF_INET6 = 3"

definition parse_inet_bytes :: "bytes \<Rightarrow> u8 list option" where
  "parse_inet_bytes s = do {
     (addr, prefix) \<leftarrow>
       (case split_once 0x2F s of
          Some (a, p) \<Rightarrow> map_option (\<lambda>v. (a, Some v)) (parse_u16 p)
        | None \<Rightarrow> Some (s, None));
     ip \<leftarrow> parse_ip addr;
     case ip of
       V4 octets \<Rightarrow>
         (let bits = (case prefix of Some v \<Rightarrow> v | None \<Rightarrow> 32) in
          if 32 < bits then None else Some (PGSQL_AF_INET # word_of_nat bits # octets))
     | V6 octets \<Rightarrow>
         (let bits = (case prefix of Some v \<Rightarrow> v | None \<Rightarrow> 128) in
          if 128 < bits then None else Some (PGSQL_AF_INET6 # word_of_nat bits # octets)) }"

definition parse_bool :: "bytes \<Rightarrow> bool option" where
  "parse_bool s =
    (if s \<in> {[0x74], [0x54], [0x31]} then Some True
     else if s \<in> {[0x66], [0x46], [0x30]} then Some False
     else
       let w = ascii_lower s in
       if w \<in> {str ''t'', str ''true'', str ''yes'', str ''on'', str ''1''} then Some True
       else if w \<in> {str ''f'', str ''false'', str ''no'', str ''off'', str ''0''} then Some False
       else None)"

definition parse_float32 :: "bytes \<Rightarrow> u32 option" where
  "parse_float32 s =
    (let w = ascii_lower s in
     if w = str ''nan'' then Some (word_of_int F32_NAN)
     else if w = str ''inf'' \<or> w = str ''infinity'' then Some (word_of_int F32_INF)
     else if w = str ''-inf'' \<or> w = str ''-infinity'' then Some (word_of_int F32_INF OR 0x80000000)
     else parse_f32 s)"

definition parse_float64 :: "bytes \<Rightarrow> u64 option" where
  "parse_float64 s =
    (let w = ascii_lower s in
     if w = str ''nan'' then Some (word_of_int F64_NAN)
     else if w = str ''inf'' \<or> w = str ''infinity'' then Some (word_of_int F64_INF)
     else if w = str ''-inf'' \<or> w = str ''-infinity'' then Some (word_of_int F64_INF OR 0x8000000000000000)
     else parse_f64 s)"

section \<open>Appending to a column\<close>

text \<open>\<^verbatim>\<open>if let TypedColumn::X(vec) = typed_col { vec.push(Some(v)); }\<close> for each variant.\<close>

fun push_i16 :: "i16 \<Rightarrow> TypedColumn \<Rightarrow> TypedColumn" where
  "push_i16 x (TInt16 v) = TInt16 (v @ [Some x])" | "push_i16 x col = col"
fun push_i32 :: "i32 \<Rightarrow> TypedColumn \<Rightarrow> TypedColumn" where
  "push_i32 x (TInt32 v) = TInt32 (v @ [Some x])" | "push_i32 x col = col"
fun push_i64 :: "i64 \<Rightarrow> TypedColumn \<Rightarrow> TypedColumn" where
  "push_i64 x (TInt64 v) = TInt64 (v @ [Some x])" | "push_i64 x col = col"
fun push_f32 :: "u32 \<Rightarrow> TypedColumn \<Rightarrow> TypedColumn" where
  "push_f32 x (TFloat32 v) = TFloat32 (v @ [Some x])" | "push_f32 x col = col"
fun push_f64 :: "u64 \<Rightarrow> TypedColumn \<Rightarrow> TypedColumn" where
  "push_f64 x (TFloat64 v) = TFloat64 (v @ [Some x])" | "push_f64 x col = col"
fun push_bool :: "bool \<Rightarrow> TypedColumn \<Rightarrow> TypedColumn" where
  "push_bool x (TBool v) = TBool (v @ [Some x])" | "push_bool x col = col"
fun push_text :: "bytes \<Rightarrow> TypedColumn \<Rightarrow> TypedColumn" where
  "push_text x (TText v) = TText (v @ [Some x])" | "push_text x col = col"
fun push_bytes :: "bytes \<Rightarrow> TypedColumn \<Rightarrow> TypedColumn" where
  "push_bytes x (TBytes v) = TBytes (v @ [Some x])" | "push_bytes x col = col"

type_synonym parse_result = "(ParseError + TypedColumn) option"
type_synonym jsonb_in = "bytes \<Rightarrow> bytes option"

definition push_null :: "TypedColumn \<Rightarrow> parse_result" where
  "push_null col = Some (Inr (push_typed_null col))"

definition pushed :: "ParseMessage \<Rightarrow> nat \<Rightarrow> u64 \<Rightarrow> ('a \<Rightarrow> TypedColumn \<Rightarrow> TypedColumn) \<Rightarrow> 'a option \<Rightarrow> TypedColumn \<Rightarrow> parse_result" where
  "pushed msg col_idx line_no push v col =
    (case v of
       None \<Rightarrow> Some (Inl \<lparr>message = msg, column = col_idx, line = line_no\<rparr>)
     | Some x \<Rightarrow> Some (Inr (push x col)))"

definition push_jsonb :: "jsonb_in \<Rightarrow> bytes \<Rightarrow> TypedColumn \<Rightarrow> parse_result" where
  "push_jsonb J s col =
    (case col of
       TBytes v \<Rightarrow> do { b \<leftarrow> J s; Some (Inr (TBytes (v @ [Some b]))) }
     | TText v \<Rightarrow> Some (Inr (TText (v @ [Some s])))
     | _ \<Rightarrow> Some (Inr col))"

definition parse_str_and_append :: "jsonb_in \<Rightarrow> bytes \<Rightarrow> ColumnKind \<Rightarrow> TypedColumn \<Rightarrow> nat \<Rightarrow> u64 \<Rightarrow> parse_result" where
  "parse_str_and_append J s kind col col_idx line_no =
    (case kind of
       KInt16 \<Rightarrow> pushed InvalidInt2 col_idx line_no push_i16 (map_option word_of_int (parse_signed 16 s)) col
     | KInt32 \<Rightarrow> pushed InvalidInt4 col_idx line_no push_i32 (map_option word_of_int (parse_signed 32 s)) col
     | KInt64 \<Rightarrow> pushed InvalidInt8 col_idx line_no push_i64 (map_option word_of_int (parse_signed 64 s)) col
     | KFloat32 \<Rightarrow> pushed InvalidFloat4 col_idx line_no push_f32 (parse_float32 s) col
     | KFloat64 \<Rightarrow> pushed InvalidFloat8 col_idx line_no push_f64 (parse_float64 s) col
     | KBool \<Rightarrow> pushed InvalidBool col_idx line_no push_bool (parse_bool s) col
     | KTimestamp \<Rightarrow> do { usec \<leftarrow> parse_timestamp_to_usec s; Some (Inr (push_i64 usec col)) }
     | KTimestampTz \<Rightarrow> do { usec \<leftarrow> parse_timestamp_to_usec s; Some (Inr (push_i64 usec col)) }
     | KTime \<Rightarrow> pushed InvalidTime col_idx line_no push_i64 (parse_time_to_usec s) col
     | KUuid \<Rightarrow> pushed InvalidUuid col_idx line_no push_bytes (parse_uuid_bytes s) col
     | KBytea \<Rightarrow> pushed InvalidBytea col_idx line_no push_bytes (parse_bytea_bytes s) col
     | KInet \<Rightarrow> pushed InvalidInet col_idx line_no push_bytes (parse_inet_bytes s) col
     | KDate \<Rightarrow> do { usec \<leftarrow> parse_timestamp_to_usec s; Some (Inr (push_i64 usec col)) }
     | KText \<Rightarrow> Some (Inr (push_text s col))
     | KJsonb \<Rightarrow> push_jsonb J s col)"

definition parse_raw_field_and_append ::
  "Memchr \<Rightarrow> jsonb_in \<Rightarrow> bytes \<Rightarrow> bytes \<Rightarrow> ColumnKind \<Rightarrow> TypedColumn \<Rightarrow> nat \<Rightarrow> u64 \<Rightarrow> parse_result" where
  "parse_raw_field_and_append M J raw null_string kind col col_idx line_no =
    (if raw = null_string then push_null col
     else case kind of
       KText \<Rightarrow> do { s \<leftarrow> unescape_field_always M raw; Some (Inr (push_text s col)) }
     | KJsonb \<Rightarrow> do { s \<leftarrow> unescape_field_always M raw; push_jsonb J s col }
     | _ \<Rightarrow>
         if memchr M BACKSLASH raw = None
         then if utf8_valid raw then parse_str_and_append J raw kind col col_idx line_no else None
         else do { s \<leftarrow> unescape_field_always M raw; parse_str_and_append J s kind col col_idx line_no })"

text \<open>The entry point of the STDIN path, on fields PostgreSQL has already unescaped.  Unlike the raw
  path it converts jsonb before it looks at the column.\<close>

definition parse_and_append :: "jsonb_in \<Rightarrow> bytes option \<Rightarrow> ColumnKind \<Rightarrow> TypedColumn \<Rightarrow> nat \<Rightarrow> u64 \<Rightarrow> parse_result" where
  "parse_and_append J field kind col col_idx line_no =
    (case field of
       None \<Rightarrow> Some (Inr (push_typed_null col))
     | Some s \<Rightarrow>
         (case kind of
            KInt16 \<Rightarrow> pushed InvalidInt2 col_idx line_no push_i16 (map_option word_of_int (parse_signed 16 s)) col
          | KInt32 \<Rightarrow> pushed InvalidInt4 col_idx line_no push_i32 (map_option word_of_int (parse_signed 32 s)) col
          | KInt64 \<Rightarrow> pushed InvalidInt8 col_idx line_no push_i64 (map_option word_of_int (parse_signed 64 s)) col
          | KFloat32 \<Rightarrow> pushed InvalidFloat4 col_idx line_no push_f32 (parse_float32 s) col
          | KFloat64 \<Rightarrow> pushed InvalidFloat8 col_idx line_no push_f64 (parse_float64 s) col
          | KBool \<Rightarrow> pushed InvalidBool col_idx line_no push_bool (parse_bool s) col
          | KTimestamp \<Rightarrow> do { usec \<leftarrow> parse_timestamp_to_usec s; Some (Inr (push_i64 usec col)) }
          | KTimestampTz \<Rightarrow> do { usec \<leftarrow> parse_timestamp_to_usec s; Some (Inr (push_i64 usec col)) }
          | KDate \<Rightarrow> do { usec \<leftarrow> parse_timestamp_to_usec s; Some (Inr (push_i64 usec col)) }
          | KTime \<Rightarrow> pushed InvalidTime col_idx line_no push_i64 (parse_time_to_usec s) col
          | KText \<Rightarrow> Some (Inr (push_text s col))
          | KJsonb \<Rightarrow> do { b \<leftarrow> J s; Some (Inr (push_bytes b col)) }
          | KUuid \<Rightarrow> pushed InvalidUuid col_idx line_no push_bytes (parse_uuid_bytes s) col
          | KBytea \<Rightarrow> pushed InvalidBytea col_idx line_no push_bytes (parse_bytea_bytes s) col
          | KInet \<Rightarrow> pushed InvalidInet col_idx line_no push_bytes (parse_inet_bytes s) col))"

end
