(* ===== verification/Copy_Extract.thy ===== *)
theory Copy_Extract
  imports Copy_Fields
begin

unbundle bit_operations_syntax

text \<open>
  JSON-path extraction at load time (src/src/compress.rs): the leaves of a jsonb field that go to
  columns of their own.  The parser \<^verbatim>\<open>serde_json::from_str\<close> is the parameter \<open>S\<close>; its value type is
  mirrored by the datatype below.
\<close>

section \<open>JSON values\<close>

datatype JsonNumber = PosInt u64 | NegInt i64 | Float u64

datatype Json = JNull | JBool bool | JNumber JsonNumber | JString bytes | JArray "Json list" | JObject "(bytes \<times> Json) list"

type_synonym json_from_str = "bytes \<Rightarrow> Json option"

definition as_i64 :: "JsonNumber \<Rightarrow> i64 option" where
  "as_i64 n = (case n of PosInt v \<Rightarrow> if uint v < 2 ^ 63 then Some v else None | NegInt v \<Rightarrow> Some v | Float _ \<Rightarrow> None)"

definition i64_to_f64 :: "int \<Rightarrow> u64" where
  "i64_to_f64 v = word_of_int (nearest_float 53 (-1022) F64_INF \<bar>v\<bar> 1) OR (if v < 0 then 0x8000000000000000 else 0)"

definition as_f64 :: "JsonNumber \<Rightarrow> u64" where
  "as_f64 n = (case n of PosInt v \<Rightarrow> i64_to_f64 (uint v) | NegInt v \<Rightarrow> i64_to_f64 (sint v) | Float b \<Rightarrow> b)"

text \<open>\<^verbatim>\<open>x as f32\<close> on a double: rounded to nearest, ties to even.\<close>

definition f64_to_f32 :: "u64 \<Rightarrow> u32" where
  "f64_to_f32 b =
    (let e = uint (drop_bit 52 b AND 0x7FF); frac = uint (b AND 0xFFFFFFFFFFFFF);
         m = (if e = 0 then frac else frac + 0x10000000000000); x = max e 1 - 1075;
         bits = (if e = 0x7FF then (if frac = 0 then F32_INF else F32_NAN)
                 else nearest_float 24 (-126) F32_INF (m * pow2 x) (pow2 (- x)))
     in word_of_int bits OR (if bit b 63 then 0x80000000 else 0))"

definition try_narrow :: "i64 option \<Rightarrow> nat \<Rightarrow> int option" where
  "try_narrow v bits = do {
     x \<leftarrow> v;
     if - (2 ^ (bits - 1)) \<le> sint x \<and> sint x < 2 ^ (bits - 1) then Some (sint x) else None }"

section \<open>Extraction\<close>

record ExtractSpec =
  spec_path :: "bytes list"
  target_kind :: ColumnKind

type_synonym ColumnExtractTargets = "(nat \<times> ExtractSpec) list"

fun descend_json_path :: "Json \<Rightarrow> bytes list \<Rightarrow> Json option" where
  "descend_json_path cursor [] = Some cursor"
| "descend_json_path cursor (step # path) =
    (case cursor of
       JObject members \<Rightarrow> do { next \<leftarrow> map_of members step; descend_json_path next path }
     | _ \<Rightarrow> None)"

definition push_extracted_leaf :: "Json option \<Rightarrow> ColumnKind \<Rightarrow> TypedColumn \<Rightarrow> TypedColumn" where
  "push_extracted_leaf leaf kind col =
    (case leaf of
       None \<Rightarrow> push_typed_null col
     | Some v \<Rightarrow>
         (case (kind, col, v) of
            (KText, TText vec, JString s) \<Rightarrow> TText (vec @ [Some s])
          | (KInt16, TInt16 vec, JNumber n) \<Rightarrow> TInt16 (vec @ [map_option word_of_int (try_narrow (as_i64 n) 16)])
          | (KInt32, TInt32 vec, JNumber n) \<Rightarrow> TInt32 (vec @ [map_option word_of_int (try_narrow (as_i64 n) 32)])
          | (KInt64, TInt64 vec, JNumber n) \<Rightarrow> TInt64 (vec @ [as_i64 n])
          | (KInt16, TInt16 vec, JString s) \<Rightarrow> TInt16 (vec @ [map_option word_of_int (parse_signed 16 s)])
          | (KInt32, TInt32 vec, JString s) \<Rightarrow> TInt32 (vec @ [map_option word_of_int (parse_signed 32 s)])
          | (KInt64, TInt64 vec, JString s) \<Rightarrow> TInt64 (vec @ [map_option word_of_int (parse_signed 64 s)])
          | (KFloat32, TFloat32 vec, JNumber n) \<Rightarrow> TFloat32 (vec @ [Some (f64_to_f32 (as_f64 n))])
          | (KFloat64, TFloat64 vec, JNumber n) \<Rightarrow> TFloat64 (vec @ [Some (as_f64 n)])
          | (KBool, TBool vec, JBool b) \<Rightarrow> TBool (vec @ [Some b])
          | (KTimestamp, TInt64 vec, JString s) \<Rightarrow> TInt64 (vec @ [parse_timestamp_to_usec s])
          | (KTimestampTz, TInt64 vec, JString s) \<Rightarrow> TInt64 (vec @ [parse_timestamp_to_usec s])
          | (KDate, TInt64 vec, JString s) \<Rightarrow> TInt64 (vec @ [parse_timestamp_to_usec s])
          | _ \<Rightarrow> push_typed_null col))"

text \<open>\<^verbatim>\<open>typed_cols[idx]\<close> is updated in place; an index out of range panics.\<close>

fun push_nulls :: "ColumnExtractTargets \<Rightarrow> TypedColumn list \<Rightarrow> TypedColumn list option" where
  "push_nulls [] cols = Some cols"
| "push_nulls ((idx, _) # targets) cols = do { cols \<leftarrow> modify cols idx push_typed_null; push_nulls targets cols }"

fun push_leaves :: "Json \<Rightarrow> ColumnExtractTargets \<Rightarrow> TypedColumn list \<Rightarrow> TypedColumn list option" where
  "push_leaves v [] cols = Some cols"
| "push_leaves v ((idx, spec) # targets) cols = do {
     cols \<leftarrow> modify cols idx (push_extracted_leaf (descend_json_path v (spec_path spec)) (target_kind spec));
     push_leaves v targets cols }"

definition apply_extract_targets :: "json_from_str \<Rightarrow> bytes \<Rightarrow> ColumnExtractTargets \<Rightarrow> TypedColumn list \<Rightarrow> TypedColumn list option" where
  "apply_extract_targets S json_text targets cols =
    (case S json_text of None \<Rightarrow> push_nulls targets cols | Some v \<Rightarrow> push_leaves v targets cols)"

definition extract_from_raw_field ::
  "Memchr \<Rightarrow> json_from_str \<Rightarrow> bytes \<Rightarrow> bytes \<Rightarrow> ColumnExtractTargets \<Rightarrow> TypedColumn list \<Rightarrow> TypedColumn list option" where
  "extract_from_raw_field M S raw null_string targets cols =
    (if raw = null_string then push_nulls targets cols
     else do { s \<leftarrow> unescape_field_always M raw; apply_extract_targets S s targets cols })"

definition extract_from_str_field :: "json_from_str \<Rightarrow> bytes option \<Rightarrow> ColumnExtractTargets \<Rightarrow> TypedColumn list \<Rightarrow> TypedColumn list option" where
  "extract_from_str_field S field targets cols =
    (case field of None \<Rightarrow> push_nulls targets cols | Some s \<Rightarrow> apply_extract_targets S s targets cols)"

section \<open>Columns stay typed and grow in step\<close>

text \<open>One value more, of the column's own variant, behind the ones it had.\<close>

definition grows :: "TypedColumn \<Rightarrow> TypedColumn \<Rightarrow> bool" where
  "grows col col' \<longleftrightarrow> (\<exists>v. Typed_Column.extend col v = Some col' \<and> rows v = 1)"

lemma grows_null [simp]: "grows col (push_typed_null col)"
proof -
  have "\<exists>v. Typed_Column.extend col v = Some (push_typed_null col) \<and> rows v = 1"
  proof (cases col)
    case (TText x) then show ?thesis by (intro exI [of _ "TText [None]"]) (simp add: Typed_Column.extend_def)
  next
    case (TBytes x) then show ?thesis by (intro exI [of _ "TBytes [None]"]) (simp add: Typed_Column.extend_def)
  next
    case (TInt16 x) then show ?thesis by (intro exI [of _ "TInt16 [None]"]) (simp add: Typed_Column.extend_def)
  next
    case (TInt32 x) then show ?thesis by (intro exI [of _ "TInt32 [None]"]) (simp add: Typed_Column.extend_def)
  next
    case (TInt64 x) then show ?thesis by (intro exI [of _ "TInt64 [None]"]) (simp add: Typed_Column.extend_def)
  next
    case (TFloat32 x) then show ?thesis by (intro exI [of _ "TFloat32 [None]"]) (simp add: Typed_Column.extend_def)
  next
    case (TFloat64 x) then show ?thesis by (intro exI [of _ "TFloat64 [None]"]) (simp add: Typed_Column.extend_def)
  next
    case (TBool x) then show ?thesis by (intro exI [of _ "TBool [None]"]) (simp add: Typed_Column.extend_def)
  qed
  then show ?thesis by (simp add: grows_def)
qed

lemma grows_append [simp]:
  "grows (TText a) (TText (a @ [t]))" "grows (TBytes b) (TBytes (b @ [u]))" "grows (TInt16 c) (TInt16 (c @ [v]))"
  "grows (TInt32 d) (TInt32 (d @ [w]))" "grows (TInt64 e) (TInt64 (e @ [x]))" "grows (TFloat32 f) (TFloat32 (f @ [y]))"
  "grows (TFloat64 g) (TFloat64 (g @ [z]))" "grows (TBool h) (TBool (h @ [k]))"
  unfolding grows_def
  by (intro exI [of _ "TText [t]"] exI [of _ "TBytes [u]"] exI [of _ "TInt16 [v]"] exI [of _ "TInt32 [w]"]
      exI [of _ "TInt64 [x]"] exI [of _ "TFloat32 [y]"] exI [of _ "TFloat64 [z]"] exI [of _ "TBool [k]"]; simp add: Typed_Column.extend_def)+

lemma grows_rows: "grows col col' \<Longrightarrow> rows col' = rows col + 1 \<and> same_variant col col'"
proof -
  assume "grows col col'"
  then obtain v where "Typed_Column.extend col v = Some col'" "rows v = 1" by (auto simp: grows_def)
  then show ?thesis by (cases col; cases v) (auto simp: Typed_Column.extend_def same_variant_def)
qed

lemma push_extracted_leaf_grows: "grows col (push_extracted_leaf leaf kind col)"
proof (cases leaf)
  case (Some v)
  show ?thesis unfolding Some push_extracted_leaf_def option.case by (cases col; cases v; cases kind) simp_all
qed (simp add: push_extracted_leaf_def)

text \<open>A column that can take the values of a kind; a worker keeps jsonb as text.\<close>

definition fits :: "ColumnKind \<Rightarrow> TypedColumn \<Rightarrow> bool" where
  "fits kind col \<longleftrightarrow> same_variant col (new_typed_column kind) \<or> same_variant col (new_worker_typed_column kind)"

lemma fits_grows: "fits kind col \<Longrightarrow> grows col col' \<Longrightarrow> fits kind col'"
proof -
  assume "grows col col'"
  then have "same_variant col col'" using grows_rows by blast
  then show "fits kind col \<Longrightarrow> fits kind col'" by (cases col; cases col') (simp_all add: fits_def same_variant_def)
qed

lemma parse_str_and_append_grows:
  assumes "fits kind col" and "parse_str_and_append J s kind col i l = Some (Inr col')"
  shows "grows col col'"
  using assms
  by (cases kind; cases col)
    (auto simp: fits_def new_worker_typed_column_def same_variant_def parse_str_and_append_def pushed_def push_jsonb_def
      bind_eq_Some_conv split: option.splits)

lemma parse_raw_field_grows:
  assumes "fits kind col" and "parse_raw_field_and_append M J raw null kind col i l = Some (Inr col')"
  shows "grows col col'"
proof (cases "raw = null")
  case True
  then show ?thesis using assms(2) by (auto simp: parse_raw_field_and_append_def push_null_def)
next
  case False
  then have "\<exists>s. parse_str_and_append J s kind col i l = Some (Inr col')"
    using assms(2)
    by (cases kind) (auto simp: parse_raw_field_and_append_def parse_str_and_append_def bind_eq_Some_conv split: if_splits)
  then show ?thesis using parse_str_and_append_grows [OF assms(1)] by blast
qed

end
