(* ===== verification/Copy_Partition.thy ===== *)
theory Copy_Partition
  imports Copy_Extract
begin

text \<open>
  Finding the partition of a timestamp (src/src/copy.rs): the binary search of the standard library's
  \<^verbatim>\<open>partition_point\<close>, and the lookup on the sorted, disjoint ranges of a partitioned table.
\<close>

section \<open>Binary search\<close>

function point_loop :: "('a \<Rightarrow> bool) \<Rightarrow> 'a list \<Rightarrow> nat \<Rightarrow> nat \<Rightarrow> nat" where
  "point_loop pred xs base width =
    (if 1 < width then
       let half = width div 2; mid = base + half in
       point_loop pred xs (if pred (xs ! mid) then mid else base) (width - half)
     else if pred (xs ! base) then base + 1 else base)"
  by pat_completeness auto
termination by (relation "measure (\<lambda>(pred, xs, base, width). width)") auto

declare point_loop.simps [simp del]

definition partition_point :: "('a \<Rightarrow> bool) \<Rightarrow> 'a list \<Rightarrow> nat" where
  "partition_point pred xs = (if xs = [] then 0 else point_loop pred xs 0 (length xs))"

definition find_partition :: "i64 list \<Rightarrow> i64 list \<Rightarrow> i64 \<Rightarrow> nat option option" where
  "find_partition range_starts range_ends time_usec =
    (let pos = partition_point (\<lambda>start. sint start \<le> sint time_usec) range_starts in
     if pos = 0 then Some None
     else do {
       stop \<leftarrow> index range_ends (pos - 1);
       Some (if sint time_usec < sint stop then Some (pos - 1) else None) })"

text \<open>The search keeps a window whose left border satisfies the predicate, unless it is the first element.\<close>

lemma point_loop_spec:
  assumes "\<And>i j. i \<le> j \<Longrightarrow> j < length xs \<Longrightarrow> pred (xs ! j) \<Longrightarrow> pred (xs ! i)"
    and "0 < width" and "base + width \<le> length xs"
    and "base = 0 \<or> pred (xs ! base)" and "\<forall>j < length xs. base + width \<le> j \<longrightarrow> \<not> pred (xs ! j)"
  shows "point_loop pred xs base width \<le> length xs \<and> (\<forall>j < length xs. pred (xs ! j) \<longleftrightarrow> j < point_loop pred xs base width)"
  using assms(2-)
proof (induction width arbitrary: base rule: less_induct)
  case (less width)
  show ?case
  proof (cases "1 < width")
    case True
    let ?half = "width div 2"
    let ?mid = "base + ?half"
    let ?base = "if pred (xs ! ?mid) then ?mid else base"
    have mid: "?mid < length xs" "0 < ?half" using True less.prems(2) by auto
    have right: "\<forall>j < length xs. ?base + (width - ?half) \<le> j \<longrightarrow> \<not> pred (xs ! j)"
    proof (intro allI impI)
      fix j
      assume j: "j < length xs" "?base + (width - ?half) \<le> j"
      show "\<not> pred (xs ! j)"
      proof (cases "pred (xs ! ?mid)")
        case True
        then show ?thesis using j less.prems(4) by auto
      next
        case False
        then have "?mid \<le> j" using j(2) by auto
        then show ?thesis using False assms(1) j(1) by blast
      qed
    qed
    have "point_loop pred xs ?base (width - ?half) \<le> length xs
      \<and> (\<forall>j < length xs. pred (xs ! j) \<longleftrightarrow> j < point_loop pred xs ?base (width - ?half))"
    proof (rule less.IH)
      show "width - ?half < width" "0 < width - ?half" using True mid(2) by linarith+
      show "?base + (width - ?half) \<le> length xs" using less.prems(2) mid(2) by auto
      show "?base = 0 \<or> pred (xs ! ?base)" using less.prems(3) by auto
      show "\<forall>j < length xs. ?base + (width - ?half) \<le> j \<longrightarrow> \<not> pred (xs ! j)" by (rule right)
    qed
    moreover have "point_loop pred xs base width = point_loop pred xs ?base (width - ?half)"
      using True by (subst point_loop.simps) (simp add: Let_def)
    ultimately show ?thesis by simp
  next
    case False
    then have w: "width = 1" using less.prems(1) by simp
    then have b: "base < length xs" using less.prems(2) by simp
    have eq: "point_loop pred xs base width = (if pred (xs ! base) then base + 1 else base)"
      using w by (subst point_loop.simps) simp
    have "pred (xs ! j) \<longleftrightarrow> j < point_loop pred xs base width" if j: "j < length xs" for j
    proof (cases "j \<le> base")
      case True
      then show ?thesis using eq assms(1) [OF True b] less.prems(3) by (cases "j = base") auto
    next
      case False
      then show ?thesis using eq w less.prems(4) j by auto
    qed
    then show ?thesis using eq b by auto
  qed
qed

lemma partition_point_spec:
  assumes "\<And>i j. i \<le> j \<Longrightarrow> j < length xs \<Longrightarrow> pred (xs ! j) \<Longrightarrow> pred (xs ! i)"
  shows "partition_point pred xs \<le> length xs \<and> (\<forall>j < length xs. pred (xs ! j) \<longleftrightarrow> j < partition_point pred xs)"
  using point_loop_spec [of xs pred "length xs" 0, OF assms] by (auto simp: partition_point_def)

section \<open>The partition of a timestamp\<close>

text \<open>The catalog's partitions: as many ends as starts, each range before the next.\<close>

definition ranges_ok :: "i64 list \<Rightarrow> i64 list \<Rightarrow> bool" where
  "ranges_ok starts ends \<longleftrightarrow> length ends = length starts
    \<and> (\<forall>i < length starts. sint (starts ! i) < sint (ends ! i))
    \<and> (\<forall>i j. i < j \<longrightarrow> j < length starts \<longrightarrow> sint (ends ! i) \<le> sint (starts ! j))"

definition in_range :: "i64 list \<Rightarrow> i64 list \<Rightarrow> i64 \<Rightarrow> nat \<Rightarrow> bool" where
  "in_range starts ends t i \<longleftrightarrow> i < length starts \<and> sint (starts ! i) \<le> sint t \<and> sint t < sint (ends ! i)"

lemma starts_sorted:
  assumes "ranges_ok starts ends" and "i \<le> j" and "j < length starts"
  shows "sint (starts ! i) \<le> sint (starts ! j)"
proof (cases "i = j")
  case False
  then have "sint (starts ! i) < sint (ends ! i)" "sint (ends ! i) \<le> sint (starts ! j)"
    using assms by (auto simp: ranges_ok_def)
  then show ?thesis by linarith
qed simp

lemma find_partition_spec:
  assumes ok: "ranges_ok starts ends"
  shows "\<exists>r. find_partition starts ends t = Some r
    \<and> (case r of Some i \<Rightarrow> in_range starts ends t i | None \<Rightarrow> \<forall>i. \<not> in_range starts ends t i)"
proof -
  let ?pred = "\<lambda>start. sint start \<le> sint t"
  let ?pos = "partition_point ?pred starts"
  have pos: "?pos \<le> length starts" "\<And>j. j < length starts \<Longrightarrow> ?pred (starts ! j) \<longleftrightarrow> j < ?pos"
    using partition_point_spec [of starts ?pred] starts_sorted [OF ok] by (auto intro: order.trans)
  show ?thesis
  proof (cases "?pos = 0")
    case True
    then have "\<not> in_range starts ends t i" for i using pos(2) [of i] by (auto simp: in_range_def)
    then show ?thesis using True by (simp add: find_partition_def)
  next
    case False
    let ?i = "?pos - 1"
    have i: "?i < length starts" "?i < ?pos" using False pos(1) by simp_all
    have ends: "index ends ?i = Some (ends ! ?i)" using i ok by (simp add: ranges_ok_def)
    have start: "?pred (starts ! ?i)" using pos(2) [OF i(1)] i(2) by simp
    show ?thesis
    proof (cases "sint t < sint (ends ! ?i)")
      case True
      then show ?thesis using False ends start i by (simp add: find_partition_def Let_def in_range_def)
    next
      case out: False
      have "\<not> in_range starts ends t k" for k
      proof
        assume k: "in_range starts ends t k"
        then have "k < ?pos" using pos(2) [of k] by (simp add: in_range_def)
        moreover have "k \<noteq> ?i" using k out by (auto simp: in_range_def)
        ultimately have "sint (ends ! k) \<le> sint (starts ! ?i)" using ok i(1) by (auto simp: ranges_ok_def)
        then show False using k start by (simp add: in_range_def)
      qed
      then show ?thesis using False ends out by (simp add: find_partition_def Let_def)
    qed
  qed
qed

lemma in_range_unique:
  assumes ok: "ranges_ok starts ends" and "in_range starts ends t i" and "in_range starts ends t j"
  shows "i = j"
proof (rule ccontr)
  assume "i \<noteq> j"
  then have "sint (ends ! i) \<le> sint (starts ! j) \<or> sint (ends ! j) \<le> sint (starts ! i)"
    using ok assms(2,3) unfolding ranges_ok_def in_range_def by (metis nat_neq_iff)
  then show False using assms(2,3) by (auto simp: in_range_def)
qed

end
