(* ===== verification/Copy_Worker.thy ===== *)
theory Copy_Worker
  imports Copy_Partition
begin

text \<open>
  Parsing a batch of lines (src/src/copy.rs): a worker routes every line to a partition and appends
  its fields to that partition's typed columns; the loader splits a batch into chunks, one worker
  thread each, and puts the results together in order.  A result is \<^const>\<open>None\<close> for a panic, \<open>Inl\<close> for a
  reported parse error, \<open>Inr\<close> otherwise.
\<close>

type_synonym 'a result = "(ParseError + 'a) option"

definition and_then :: "'a result \<Rightarrow> ('a \<Rightarrow> 'b result) \<Rightarrow> 'b result" where
  "and_then r f = (case r of None \<Rightarrow> None | Some (Inl e) \<Rightarrow> Some (Inl e) | Some (Inr x) \<Rightarrow> f x)"

definition lift_opt :: "'a option \<Rightarrow> 'a result" where
  "lift_opt x = map_option Inr x"

definition map_result :: "('a \<Rightarrow> 'b) \<Rightarrow> 'a result \<Rightarrow> 'b result" where
  "map_result f r = map_option (map_sum id f) r"

record LoadConfig =
  delimiter :: u8
  null_string :: bytes
  kinds :: "ColumnKind list"
  extract_targets :: "ColumnExtractTargets option list"
  time_col_index :: nat
  range_starts :: "i64 list"
  range_ends :: "i64 list"
  is_compressed :: "bool list"

text \<open>What the loader calls outside the crate.\<close>

record LoadEnv =
  env_memchr :: Memchr
  env_jsonb :: jsonb_in
  env_serde :: json_from_str

record WorkerPartitionResult =
  wp_cols :: "TypedColumn list"
  wp_rows :: nat

definition physical_count :: "LoadConfig \<Rightarrow> nat" where
  "physical_count cfg = (if extract_targets cfg = [] then length (kinds cfg) else length (extract_targets cfg))"

section \<open>One line\<close>

definition parse_error :: "ParseMessage \<Rightarrow> nat \<Rightarrow> u64 \<Rightarrow> 'a result" where
  "parse_error msg col line_no = Some (Inl \<lparr>message = msg, column = col, line = line_no\<rparr>)"

definition route_line :: "LoadEnv \<Rightarrow> LoadConfig \<Rightarrow> bytes \<Rightarrow> u64 \<Rightarrow> (nat \<times> (nat \<times> nat) list) result" where
  "route_line E cfg text line_no =
    (let offsets = split_field_offsets text (delimiter cfg); tc = time_col_index cfg in
     if length offsets \<noteq> physical_count cfg
     then parse_error (FieldCount (physical_count cfg) (length offsets)) 0 line_no
     else do {
       (ts, te) \<leftarrow> index offsets tc;
       time_raw \<leftarrow> slice text ts te;
       if time_raw = null_string cfg then parse_error TimeIsNull tc line_no
       else if memchr (env_memchr E) BACKSLASH time_raw \<noteq> None then parse_error TimeEscaped tc line_no
       else if \<not> utf8_valid time_raw then parse_error TimeNotUtf8 tc line_no
       else do {
         time_usec \<leftarrow> parse_timestamp_to_usec time_raw;
         part \<leftarrow> find_partition (range_starts cfg) (range_ends cfg) time_usec;
         case part of
           None \<Rightarrow> parse_error (NoPartition time_usec) tc line_no
         | Some idx \<Rightarrow> do {
             c \<leftarrow> index (is_compressed cfg) idx;
             if c then parse_error AlreadyCompressed 0 line_no else Some (Inr (idx, offsets)) } } })"

definition raw_field :: "bytes \<Rightarrow> (nat \<times> nat) list \<Rightarrow> nat \<Rightarrow> bytes option" where
  "raw_field text offsets i = do { (fs, fe) \<leftarrow> index offsets i; slice text fs fe }"

text \<open>The loop over the physical columns from column \<open>i\<close> on.\<close>

fun append_fields ::
  "LoadEnv \<Rightarrow> LoadConfig \<Rightarrow> bytes \<Rightarrow> (nat \<times> nat) list \<Rightarrow> u64 \<Rightarrow> nat \<Rightarrow> ColumnKind list \<Rightarrow> TypedColumn list \<Rightarrow> TypedColumn list result" where
  "append_fields E cfg text offsets line_no i [] cols = Some (Inr cols)"
| "append_fields E cfg text offsets line_no i (kind # ks) cols =
    and_then (lift_opt (raw_field text offsets i)) (\<lambda>raw.
    and_then (lift_opt (index cols i)) (\<lambda>col.
    and_then (parse_raw_field_and_append (env_memchr E) (env_jsonb E) raw (null_string cfg) kind col i line_no) (\<lambda>col'.
      append_fields E cfg text offsets line_no (i + 1) ks (cols[i := col']))))"

fun apply_extracts ::
  "LoadEnv \<Rightarrow> LoadConfig \<Rightarrow> bytes \<Rightarrow> (nat \<times> nat) list \<Rightarrow> nat \<Rightarrow> ColumnExtractTargets option list \<Rightarrow> TypedColumn list \<Rightarrow> TypedColumn list option" where
  "apply_extracts E cfg text offsets i [] cols = Some cols"
| "apply_extracts E cfg text offsets i (None # ts) cols = apply_extracts E cfg text offsets (i + 1) ts cols"
| "apply_extracts E cfg text offsets i (Some targets # ts) cols = do {
     raw \<leftarrow> raw_field text offsets i;
     cols \<leftarrow> extract_from_raw_field (env_memchr E) (env_serde E) raw (null_string cfg) targets cols;
     apply_extracts E cfg text offsets (i + 1) ts cols }"

definition append_row ::
  "LoadEnv \<Rightarrow> LoadConfig \<Rightarrow> bytes \<Rightarrow> (nat \<times> nat) list \<Rightarrow> u64 \<Rightarrow> TypedColumn list \<Rightarrow> TypedColumn list result" where
  "append_row E cfg text offsets line_no cols =
    and_then (append_fields E cfg text offsets line_no 0 (take (physical_count cfg) (kinds cfg)) cols)
      (\<lambda>cols. lift_opt (apply_extracts E cfg text offsets 0 (extract_targets cfg) cols))"

section \<open>A worker\<close>

definition fresh_partition :: "LoadConfig \<Rightarrow> WorkerPartitionResult" where
  "fresh_partition cfg = \<lparr>wp_cols = map new_worker_typed_column (kinds cfg), wp_rows = 0\<rparr>"

definition worker_line ::
  "LoadEnv \<Rightarrow> LoadConfig \<Rightarrow> bytes \<Rightarrow> u64 \<Rightarrow> WorkerPartitionResult option list \<Rightarrow> WorkerPartitionResult option list result" where
  "worker_line E cfg text line_no partitions =
    and_then (route_line E cfg text line_no) (\<lambda>(idx, offsets).
    and_then (lift_opt (index partitions idx)) (\<lambda>p.
    let wp = (case p of None \<Rightarrow> fresh_partition cfg | Some wp \<Rightarrow> wp) in
    map_result (\<lambda>cols. partitions[idx := Some \<lparr>wp_cols = cols, wp_rows = wp_rows wp + 1\<rparr>])
      (append_row E cfg text offsets line_no (wp_cols wp))))"

fun worker_loop ::
  "LoadEnv \<Rightarrow> LoadConfig \<Rightarrow> bytes \<Rightarrow> u64 \<Rightarrow> (nat \<times> nat) list \<Rightarrow> WorkerPartitionResult option list \<Rightarrow> WorkerPartitionResult option list result" where
  "worker_loop E cfg buf line_no [] partitions = Some (Inr partitions)"
| "worker_loop E cfg buf line_no ((s, e) # ranges) partitions =
    and_then (lift_opt (slice buf s e)) (\<lambda>text.
    and_then (worker_line E cfg text (line_no + 1) partitions) (\<lambda>partitions.
      worker_loop E cfg buf (line_no + 1) ranges partitions))"

definition parse_lines_worker ::
  "LoadEnv \<Rightarrow> LoadConfig \<Rightarrow> bytes \<Rightarrow> (nat \<times> nat) list \<Rightarrow> nat \<Rightarrow> u64 \<Rightarrow> WorkerPartitionResult option list result" where
  "parse_lines_worker E cfg buf line_ranges n_partitions base_line_number =
    worker_loop E cfg buf base_line_number line_ranges (replicate n_partitions None)"

text \<open>A thread that panics is joined as an error of line 0.\<close>

definition join_worker :: "'a result \<Rightarrow> ParseError + 'a" where
  "join_worker r = (case r of None \<Rightarrow> Inl \<lparr>message = WorkerPanicked, column = 0, line = 0\<rparr> | Some x \<Rightarrow> x)"

definition spawn_workers ::
  "LoadEnv \<Rightarrow> LoadConfig \<Rightarrow> bytes \<Rightarrow> (nat \<times> nat) list \<Rightarrow> nat \<Rightarrow> u64 \<Rightarrow> nat \<Rightarrow> (ParseError + WorkerPartitionResult option list) list" where
  "spawn_workers E cfg buf line_ranges n_partitions base_line n_workers =
    (let chunk_size = div_ceil (length line_ranges) n_workers in
     map (\<lambda>(chunk_idx, chunk). join_worker (parse_lines_worker E cfg buf chunk n_partitions
           (base_line + word_of_nat (chunk_idx * chunk_size))))
       (enumerate 0 (chunks chunk_size line_ranges)))"

end
