(* ===== verification/Copy_Parallel.thy ===== *)
theory Copy_Parallel
  imports Copy_Worker
begin

text \<open>
  Splitting a batch of lines over threads does not change what is parsed.  Appending a row commutes
  with putting other rows in front, for one column, for the columns of a partition and for the
  partitions of a worker; so the results of consecutive chunks, put together in order, are the result
  of one worker over all lines, errors included.
\<close>

section \<open>Laws of the result type\<close>

lemma and_then_simps [simp]:
  "and_then None f = None" "and_then (Some (Inl e)) f = Some (Inl e)" "and_then (Some (Inr x)) f = f x"
  by (simp_all add: and_then_def)

lemma map_result_simps [simp]:
  "map_result f None = None" "map_result f (Some (Inl e)) = Some (Inl e)" "map_result f (Some (Inr x)) = Some (Inr (f x))"
  by (simp_all add: map_result_def)

lemma lift_opt_simps [simp]: "lift_opt None = None" "lift_opt (Some x) = Some (Inr x)"
  by (simp_all add: lift_opt_def)

lemma result_cases [case_names panic failed ok]:
  obtains "r = None" | e where "r = Some (Inl e)" | x where "r = Some (Inr x)"
  by (cases r) (metis sum.exhaust)+

lemma map_result_and_then: "map_result f (and_then r g) = and_then r (\<lambda>x. map_result f (g x))"
  by (cases r rule: result_cases) simp_all

lemma and_then_map_result: "and_then (map_result f r) g = and_then r (\<lambda>x. g (f x))"
  by (cases r rule: result_cases) simp_all

lemma and_then_assoc: "and_then (and_then r f) g = and_then r (\<lambda>x. and_then (f x) g)"
  by (cases r rule: result_cases) simp_all

lemma and_then_cong [fundef_cong]:
  "r = r' \<Longrightarrow> (\<And>x. r' = Some (Inr x) \<Longrightarrow> f x = g x) \<Longrightarrow> and_then r f = and_then r' g"
  by (cases r' rule: result_cases) simp_all

section \<open>One column\<close>

text \<open>\<open>ext a b\<close> is column \<open>b\<close> with the rows of \<open>a\<close> in front.\<close>

definition ext :: "TypedColumn \<Rightarrow> TypedColumn \<Rightarrow> TypedColumn" where
  "ext a b = (case Typed_Column.extend a b of Some c \<Rightarrow> c | None \<Rightarrow> b)"

lemma ext_simps [simp]:
  "ext (TText a1) (TText b1) = TText (a1 @ b1)" "ext (TBytes a2) (TBytes b2) = TBytes (a2 @ b2)"
  "ext (TInt16 a3) (TInt16 b3) = TInt16 (a3 @ b3)" "ext (TInt32 a4) (TInt32 b4) = TInt32 (a4 @ b4)"
  "ext (TInt64 a5) (TInt64 b5) = TInt64 (a5 @ b5)" "ext (TFloat32 a6) (TFloat32 b6) = TFloat32 (a6 @ b6)"
  "ext (TFloat64 a7) (TFloat64 b7) = TFloat64 (a7 @ b7)" "ext (TBool a8) (TBool b8) = TBool (a8 @ b8)"
  by (simp_all add: ext_def Typed_Column.extend_def)

lemma same_variantE:
  assumes "same_variant a b"
  obtains x y where "a = TText x" "b = TText y" | x y where "a = TBytes x" "b = TBytes y"
    | x y where "a = TInt16 x" "b = TInt16 y" | x y where "a = TInt32 x" "b = TInt32 y"
    | x y where "a = TInt64 x" "b = TInt64 y" | x y where "a = TFloat32 x" "b = TFloat32 y"
    | x y where "a = TFloat64 x" "b = TFloat64 y" | x y where "a = TBool x" "b = TBool y"
  using assms by (cases a; cases b) (simp_all add: same_variant_def)

lemma same_variant_trans: "same_variant a b \<Longrightarrow> same_variant b c \<Longrightarrow> same_variant a c"
  by (cases a; cases b; cases c) (simp_all add: same_variant_def)

lemma same_variant_sym: "same_variant a b \<Longrightarrow> same_variant b a"
  by (cases a; cases b) (simp_all add: same_variant_def)

lemma same_variant_refl [simp]: "same_variant a a"
  by (cases a) (simp_all add: same_variant_def)

lemma ext_variant: "same_variant a b \<Longrightarrow> same_variant b (ext a b)"
  by (cases a; cases b) (simp_all add: same_variant_def)

lemma push_null_ext: "same_variant a b \<Longrightarrow> push_typed_null (ext a b) = ext a (push_typed_null b)"
  by (cases a; cases b) (simp_all add: same_variant_def)

lemma parse_str_ext:
  assumes "same_variant a b"
  shows "parse_str_and_append J s kind (ext a b) i l = map_result (ext a) (parse_str_and_append J s kind b i l)"
  using assms
  by (cases rule: same_variantE; cases kind)
    (simp_all add: parse_str_and_append_def pushed_def push_jsonb_def split: option.split Option.bind_split)

lemma parse_raw_ext:
  assumes "same_variant a b"
  shows "parse_raw_field_and_append M J raw null kind (ext a b) i l
    = map_result (ext a) (parse_raw_field_and_append M J raw null kind b i l)"
proof -
  have jsonb: "push_jsonb J s (ext a b) = map_result (ext a) (push_jsonb J s b)" for s
    using parse_str_ext [OF assms, of J s KJsonb i l] by (simp add: parse_str_and_append_def)
  have pt: "push_text s (ext a b) = ext a (push_text s b)" for s
    using assms by (cases a; cases b) (simp_all add: same_variant_def)
  show ?thesis using parse_str_ext [OF assms] jsonb pt push_null_ext [OF assms]
    by (cases kind) (simp_all add: parse_raw_field_and_append_def push_null_def split: Option.bind_split)
qed

lemma push_extracted_leaf_ext:
  assumes "same_variant a b"
  shows "push_extracted_leaf leaf kind (ext a b) = ext a (push_extracted_leaf leaf kind b)"
proof (cases leaf)
  case None
  then show ?thesis using push_null_ext [OF assms] by (simp add: push_extracted_leaf_def)
next
  case (Some v)
  show ?thesis using assms unfolding Some push_extracted_leaf_def option.case
    by (cases rule: same_variantE; cases v; cases kind) simp_all
qed

lemma parse_str_variant:
  assumes "parse_str_and_append J s kind b i l = Some (Inr b')"
  shows "same_variant b b'"
  using assms
  by (cases b; cases kind)
    (auto simp: same_variant_def parse_str_and_append_def pushed_def push_jsonb_def bind_eq_Some_conv split: option.splits)

lemma push_null_variant [simp]: "same_variant b (push_typed_null b)"
  by (cases b) (simp_all add: same_variant_def)

lemma parse_raw_variant:
  assumes "parse_raw_field_and_append M J raw null kind b i l = Some (Inr b')"
  shows "same_variant b b'"
proof (cases "raw = null")
  case True
  then show ?thesis using assms by (auto simp: parse_raw_field_and_append_def push_null_def)
next
  case False
  then have "\<exists>s. parse_str_and_append J s kind b i l = Some (Inr b')"
    using assms
    by (cases kind) (auto simp: parse_raw_field_and_append_def parse_str_and_append_def bind_eq_Some_conv split: if_splits)
  then show ?thesis using parse_str_variant by blast
qed

section \<open>The columns of a partition\<close>

definition aligned :: "TypedColumn list \<Rightarrow> TypedColumn list \<Rightarrow> bool" where
  "aligned as bs \<longleftrightarrow> list_all2 same_variant as bs"

definition ext_all :: "TypedColumn list \<Rightarrow> TypedColumn list \<Rightarrow> TypedColumn list" where
  "ext_all as bs = map2 ext as bs"

lemma aligned_nth: "aligned as bs \<Longrightarrow> length as = length bs \<and> (\<forall>i < length bs. same_variant (as ! i) (bs ! i))"
  by (simp add: aligned_def list_all2_conv_all_nth)

lemma aligned_trans: "aligned as bs \<Longrightarrow> aligned bs cs \<Longrightarrow> aligned as cs"
  unfolding aligned_def by (rule list_all2_trans [where ?P1.0 = same_variant and ?P2.0 = same_variant]) (blast intro: same_variant_trans)

lemma aligned_update: "aligned as bs \<Longrightarrow> same_variant (bs ! i) b \<Longrightarrow> aligned as (bs[i := b])"
  by (cases "i < length bs") (auto simp: aligned_def list_all2_conv_all_nth nth_list_update intro: same_variant_trans)

lemma index_ext_all:
  "aligned as bs \<Longrightarrow> index (ext_all as bs) i = map_option (ext (as ! i)) (index bs i)"
  by (auto simp: ext_all_def index_def dest!: aligned_nth)

lemma ext_all_update:
  "aligned as bs \<Longrightarrow> i < length bs \<Longrightarrow> (ext_all as bs)[i := ext (as ! i) b] = ext_all as (bs[i := b])"
  by (auto simp: ext_all_def list_eq_iff_nth_eq nth_list_update dest!: aligned_nth)

lemma append_fields_ext:
  assumes "aligned as bs"
  shows "append_fields E cfg t offsets l i ks (ext_all as bs) = map_result (ext_all as) (append_fields E cfg t offsets l i ks bs)"
  using assms
proof (induction ks arbitrary: i bs)
  case (Cons k ks)
  show ?case
  proof (cases "raw_field t offsets i = None \<or> length bs \<le> i")
    case True
    then show ?thesis using index_ext_all [OF Cons.prems, of i] by (cases "raw_field t offsets i") auto
  next
    case False
    then obtain raw where raw: "raw_field t offsets i = Some raw" and i: "i < length bs" by auto
    let ?parse = "parse_raw_field_and_append (env_memchr E) (env_jsonb E) raw (null_string cfg) k"
    have v: "same_variant (as ! i) (bs ! i)" using Cons.prems i aligned_nth by blast
    have "append_fields E cfg t offsets l (i + 1) ks ((ext_all as bs)[i := ext (as ! i) b])
      = map_result (ext_all as) (append_fields E cfg t offsets l (i + 1) ks (bs[i := b]))"
      if "?parse (bs ! i) i l = Some (Inr b)" for b
      using Cons.IH [OF aligned_update [OF Cons.prems parse_raw_variant [OF that]]] ext_all_update [OF Cons.prems i] by simp
    then show ?thesis
      using raw i index_ext_all [OF Cons.prems, of i] parse_raw_ext [OF v]
      by (simp add: map_result_and_then and_then_map_result cong: and_then_cong)
  qed
qed simp

lemma append_fields_aligned:
  "append_fields E cfg t offsets l i ks bs = Some (Inr bs') \<Longrightarrow> aligned as bs \<Longrightarrow> aligned as bs'"
proof (induction ks arbitrary: i bs)
  case (Cons k ks)
  obtain raw b where "raw_field t offsets i = Some raw" "i < length bs"
    and b: "parse_raw_field_and_append (env_memchr E) (env_jsonb E) raw (null_string cfg) k (bs ! i) i l = Some (Inr b)"
    and rest: "append_fields E cfg t offsets l (i + 1) ks (bs[i := b]) = Some (Inr bs')"
    using Cons.prems(1) by (auto simp: and_then_def lift_opt_def index_def split: option.splits sum.splits if_splits)
  then show ?case using Cons.IH [OF rest] aligned_update [OF Cons.prems(2) parse_raw_variant [OF b]] by blast
qed simp

lemma modify_ext:
  assumes "aligned as bs" and "\<And>a b. same_variant a b \<Longrightarrow> f (ext a b) = ext a (f b)"
  shows "modify (ext_all as bs) i f = map_option (ext_all as) (modify bs i f)"
  using assms aligned_nth [OF assms(1)]
  by (auto simp: modify_def ext_all_def list_eq_iff_nth_eq nth_list_update)

lemma modify_aligned:
  "modify bs i f = Some bs' \<Longrightarrow> aligned as bs \<Longrightarrow> (\<And>b. same_variant b (f b)) \<Longrightarrow> aligned as bs'"
  by (auto simp: modify_def intro: aligned_update split: if_splits)

lemma push_leaf_variant: "same_variant b (push_extracted_leaf leaf kind b)"
  using push_extracted_leaf_grows grows_rows by blast

lemma push_nulls_ext:
  "aligned as bs \<Longrightarrow> push_nulls ts (ext_all as bs) = map_option (ext_all as) (push_nulls ts bs)"
proof (induction ts arbitrary: bs)
  case (Cons t ts)
  obtain idx spec where t: "t = (idx, spec)" by (cases t)
  have "push_nulls ts (ext_all as cs) = map_option (ext_all as) (push_nulls ts cs)" if "modify bs idx push_typed_null = Some cs" for cs
    using Cons.IH [OF modify_aligned [OF that Cons.prems]] by simp
  then show ?case using modify_ext [OF Cons.prems push_null_ext, of idx] t
    by (cases "modify bs idx push_typed_null") simp_all
qed simp

lemma push_nulls_aligned: "push_nulls ts bs = Some bs' \<Longrightarrow> aligned as bs \<Longrightarrow> aligned as bs'"
proof (induction ts arbitrary: bs)
  case (Cons t ts)
  then show ?case by (cases t) (auto simp: bind_eq_Some_conv dest!: modify_aligned [where f = push_typed_null])
qed simp

lemma push_leaves_ext:
  "aligned as bs \<Longrightarrow> push_leaves v ts (ext_all as bs) = map_option (ext_all as) (push_leaves v ts bs)"
proof (induction ts arbitrary: bs)
  case (Cons t ts)
  obtain idx spec where t: "t = (idx, spec)" by (cases t)
  let ?f = "push_extracted_leaf (descend_json_path v (spec_path spec)) (target_kind spec)"
  have "push_leaves v ts (ext_all as cs) = map_option (ext_all as) (push_leaves v ts cs)" if "modify bs idx ?f = Some cs" for cs
    using Cons.IH [OF modify_aligned [OF that Cons.prems push_leaf_variant]] .
  then show ?case using modify_ext [where f = ?f and i = idx, OF Cons.prems push_extracted_leaf_ext] t
    by (cases "modify bs idx ?f") simp_all
qed simp

lemma push_leaves_aligned: "push_leaves v ts bs = Some bs' \<Longrightarrow> aligned as bs \<Longrightarrow> aligned as bs'"
proof (induction ts arbitrary: bs)
  case (Cons t ts)
  then show ?case by (cases t) (auto simp: bind_eq_Some_conv dest!: modify_aligned [OF _ _ push_leaf_variant])
qed simp

lemma extract_ext:
  assumes "aligned as bs"
  shows "extract_from_raw_field M S raw null ts (ext_all as bs) = map_option (ext_all as) (extract_from_raw_field M S raw null ts bs)"
  using push_nulls_ext [OF assms] push_leaves_ext [OF assms]
  by (cases "unescape_field_always M raw") (auto simp: extract_from_raw_field_def apply_extract_targets_def split: option.splits)

lemma extract_aligned:
  "extract_from_raw_field M S raw null ts bs = Some bs' \<Longrightarrow> aligned as bs \<Longrightarrow> aligned as bs'"
  using push_nulls_aligned push_leaves_aligned
  by (auto simp: extract_from_raw_field_def apply_extract_targets_def bind_eq_Some_conv split: if_splits option.splits)

lemma apply_extracts_ext:
  "aligned as bs \<Longrightarrow> apply_extracts E cfg t offsets i ts (ext_all as bs) = map_option (ext_all as) (apply_extracts E cfg t offsets i ts bs)"
proof (induction E cfg t offsets i ts bs rule: apply_extracts.induct)
  case (3 E cfg t offsets i targets ts bs)
  let ?x = "\<lambda>raw. extract_from_raw_field (env_memchr E) (env_serde E) raw (null_string cfg) targets"
  show ?case
  proof (cases "raw_field t offsets i")
    case (Some raw)
    have "apply_extracts E cfg t offsets (i + 1) ts (ext_all as cs) = map_option (ext_all as) (apply_extracts E cfg t offsets (i + 1) ts cs)"
      if "?x raw bs = Some cs" for cs
      using 3(1) [OF Some that extract_aligned [OF that 3(2)]] .
    then show ?thesis using Some extract_ext [OF 3(2)] by (cases "?x raw bs") simp_all
  qed simp
qed simp_all

lemma apply_extracts_aligned:
  "apply_extracts E cfg t offsets i ts bs = Some bs' \<Longrightarrow> aligned as bs \<Longrightarrow> aligned as bs'"
proof (induction E cfg t offsets i ts bs rule: apply_extracts.induct)
  case (3 E cfg t offsets i targets ts bs)
  then show ?case by (auto simp: bind_eq_Some_conv dest: extract_aligned)
qed simp_all

lemma append_row_ext:
  assumes "aligned as bs"
  shows "append_row E cfg t offsets l (ext_all as bs) = map_result (ext_all as) (append_row E cfg t offsets l bs)"
proof -
  let ?f = "append_fields E cfg t offsets l 0 (take (physical_count cfg) (kinds cfg)) bs"
  have step: "lift_opt (apply_extracts E cfg t offsets 0 (extract_targets cfg) (ext_all as cs))
    = map_result (ext_all as) (lift_opt (apply_extracts E cfg t offsets 0 (extract_targets cfg) cs))"
    if "?f = Some (Inr cs)" for cs
    using apply_extracts_ext [OF append_fields_aligned [OF that assms]]
    by (cases "apply_extracts E cfg t offsets 0 (extract_targets cfg) cs") simp_all
  show ?thesis unfolding append_row_def append_fields_ext [OF assms] and_then_map_result map_result_and_then
    using step by (rule and_then_cong [OF refl])
qed

lemma append_row_aligned:
  "append_row E cfg t offsets l bs = Some (Inr bs') \<Longrightarrow> aligned as bs \<Longrightarrow> aligned as bs'"
  using append_fields_aligned apply_extracts_aligned
  by (fastforce simp: append_row_def and_then_def lift_opt_def split: option.splits sum.splits)

section \<open>The partitions of a worker\<close>

fun merge_wp :: "WorkerPartitionResult option \<Rightarrow> WorkerPartitionResult option \<Rightarrow> WorkerPartitionResult option" where
  "merge_wp None y = y"
| "merge_wp (Some a) None = Some a"
| "merge_wp (Some a) (Some b) = Some \<lparr>wp_cols = ext_all (wp_cols a) (wp_cols b), wp_rows = wp_rows a + wp_rows b\<rparr>"

definition merge_parts ::
  "WorkerPartitionResult option list \<Rightarrow> WorkerPartitionResult option list \<Rightarrow> WorkerPartitionResult option list" where
  "merge_parts ps qs = map2 merge_wp ps qs"

text \<open>Every partition of a worker has the columns of the configuration.\<close>

definition typed_parts :: "LoadConfig \<Rightarrow> WorkerPartitionResult option list \<Rightarrow> bool" where
  "typed_parts cfg ps \<longleftrightarrow> (\<forall>wp. Some wp \<in> set ps \<longrightarrow> aligned (wp_cols (fresh_partition cfg)) (wp_cols wp))"

lemma ext_empty: "same_variant (new_worker_typed_column k) a \<Longrightarrow> ext a (new_worker_typed_column k) = a"
  by (cases k; cases a) (simp_all add: new_worker_typed_column_def same_variant_def)

lemma ext_all_fresh:
  "aligned (wp_cols (fresh_partition cfg)) as \<Longrightarrow> ext_all as (wp_cols (fresh_partition cfg)) = as"
  by (auto simp: fresh_partition_def ext_all_def list_eq_iff_nth_eq ext_empty dest!: aligned_nth)

lemma aligned_sym: "aligned as bs \<Longrightarrow> aligned bs as"
  by (auto simp: aligned_def list_all2_conv_all_nth intro: same_variant_sym)

lemma typed_nth: "typed_parts cfg ps \<Longrightarrow> i < length ps \<Longrightarrow> ps ! i = Some wp \<Longrightarrow> aligned (wp_cols (fresh_partition cfg)) (wp_cols wp)"
  by (metis nth_mem typed_parts_def)

lemma typed_empty [simp]: "typed_parts cfg (replicate n None)"
  by (auto simp: typed_parts_def)

lemma typed_update:
  "typed_parts cfg ps \<Longrightarrow> aligned (wp_cols (fresh_partition cfg)) (wp_cols wp) \<Longrightarrow> typed_parts cfg (ps[i := Some wp])"
  by (auto simp: typed_parts_def dest!: subsetD [OF set_update_subset_insert])

definition partition_or_fresh :: "LoadConfig \<Rightarrow> WorkerPartitionResult option \<Rightarrow> WorkerPartitionResult" where
  "partition_or_fresh cfg p = (case p of None \<Rightarrow> fresh_partition cfg | Some wp \<Rightarrow> wp)"

lemma partition_or_fresh_aligned:
  "typed_parts cfg ps \<Longrightarrow> i < length ps \<Longrightarrow> aligned (wp_cols (fresh_partition cfg)) (wp_cols (partition_or_fresh cfg (ps ! i)))"
  using typed_nth by (cases "ps ! i") (auto simp: partition_or_fresh_def aligned_def list_all2_conv_all_nth)

text \<open>One more row in a partition, with earlier rows in front.\<close>

definition with_row :: "LoadEnv \<Rightarrow> LoadConfig \<Rightarrow> bytes \<Rightarrow> (nat \<times> nat) list \<Rightarrow> u64 \<Rightarrow> WorkerPartitionResult option \<Rightarrow> WorkerPartitionResult result" where
  "with_row E cfg t offsets l p =
    map_result (\<lambda>cols. \<lparr>wp_cols = cols, wp_rows = wp_rows (partition_or_fresh cfg p) + 1\<rparr>)
      (append_row E cfg t offsets l (wp_cols (partition_or_fresh cfg p)))"

lemma with_row_merge:
  assumes "typed_parts cfg [p, q]"
  shows "map_result Some (with_row E cfg t offsets l (merge_wp p q)) = map_result (\<lambda>wp. merge_wp p (Some wp)) (with_row E cfg t offsets l q)"
proof (cases p)
  case None
  then show ?thesis by (cases "with_row E cfg t offsets l q" rule: result_cases) simp_all
next
  case (Some a)
  let ?b = "partition_or_fresh cfg q"
  have a: "aligned (wp_cols (fresh_partition cfg)) (wp_cols a)" using assms Some by (simp add: typed_parts_def)
  have b: "aligned (wp_cols (fresh_partition cfg)) (wp_cols ?b)" using partition_or_fresh_aligned [OF assms, of 1] by simp
  have ab: "aligned (wp_cols a) (wp_cols ?b)" using aligned_trans [OF aligned_sym [OF a] b] .
  have "wp_cols (partition_or_fresh cfg (merge_wp p q)) = ext_all (wp_cols a) (wp_cols ?b)"
    and "wp_rows (partition_or_fresh cfg (merge_wp p q)) = wp_rows a + wp_rows ?b"
    using ext_all_fresh [OF a] Some by (cases q; simp add: partition_or_fresh_def fresh_partition_def)+
  then show ?thesis using append_row_ext [OF ab, of E cfg t offsets l] Some
    by (cases "append_row E cfg t offsets l (wp_cols ?b)" rule: result_cases) (simp_all add: with_row_def)
qed

lemma worker_line_alt:
  "worker_line E cfg t l ps = and_then (route_line E cfg t l) (\<lambda>(idx, offsets).
     if idx < length ps then map_result (\<lambda>wp. ps[idx := Some wp]) (with_row E cfg t offsets l (ps ! idx)) else None)"
proof -
  have "and_then (lift_opt (index ps idx)) (\<lambda>p. let wp = (case p of None \<Rightarrow> fresh_partition cfg | Some wp \<Rightarrow> wp) in
      map_result (\<lambda>cols. ps[idx := Some \<lparr>wp_cols = cols, wp_rows = wp_rows wp + 1\<rparr>]) (append_row E cfg t offsets l (wp_cols wp)))
    = (if idx < length ps then map_result (\<lambda>wp. ps[idx := Some wp]) (with_row E cfg t offsets l (ps ! idx)) else None)" for idx offsets
    by (cases "append_row E cfg t offsets l (wp_cols (partition_or_fresh cfg (ps ! idx)))" rule: result_cases)
      (auto simp: with_row_def partition_or_fresh_def Let_def)
  then show ?thesis unfolding worker_line_def by (auto intro!: and_then_cong)
qed

lemma worker_line_merge:
  assumes "typed_parts cfg ps" and "typed_parts cfg qs" and "length ps = length qs"
  shows "worker_line E cfg t l (merge_parts ps qs) = map_result (merge_parts ps) (worker_line E cfg t l qs)"
proof -
  have len: "length (merge_parts ps qs) = length qs" using assms(3) by (simp add: merge_parts_def)
  have "map_result (\<lambda>wp. (merge_parts ps qs)[idx := Some wp]) (with_row E cfg t offsets l (merge_parts ps qs ! idx))
    = map_result (merge_parts ps) (map_result (\<lambda>wp. qs[idx := Some wp]) (with_row E cfg t offsets l (qs ! idx)))"
    if i: "idx < length qs" for idx offsets
  proof -
    have nth: "merge_parts ps qs ! idx = merge_wp (ps ! idx) (qs ! idx)" using i assms(3) by (simp add: merge_parts_def)
    have "typed_parts cfg [ps ! idx, qs ! idx]" using assms i by (auto simp: typed_parts_def)
    note m = with_row_merge [OF this, of E t offsets l]
    have up: "(merge_parts ps qs)[idx := merge_wp (ps ! idx) (Some wp)] = merge_parts ps (qs[idx := Some wp])" for wp
      using i assms(3) by (auto simp: merge_parts_def list_eq_iff_nth_eq nth_list_update)
    show ?thesis using m up nth
      by (cases "with_row E cfg t offsets l (qs ! idx)" rule: result_cases;
          cases "with_row E cfg t offsets l (merge_wp (ps ! idx) (qs ! idx))" rule: result_cases) auto
  qed
  then show ?thesis unfolding worker_line_alt map_result_and_then len by (auto intro!: and_then_cong split: prod.splits)
qed

lemma worker_line_typed:
  assumes "worker_line E cfg t l qs = Some (Inr qs')" and "typed_parts cfg qs"
  shows "typed_parts cfg qs' \<and> length qs' = length qs"
proof -
  obtain idx offsets where "route_line E cfg t l = Some (Inr (idx, offsets))"
    using assms(1) by (auto simp: worker_line_alt and_then_def split: option.splits sum.splits)
  then obtain wp where idx: "idx < length qs" and wp: "with_row E cfg t offsets l (qs ! idx) = Some (Inr wp)" "qs' = qs[idx := Some wp]"
    using assms(1) by (cases "with_row E cfg t offsets l (qs ! idx)" rule: result_cases) (auto simp: worker_line_alt split: if_splits)
  then have "append_row E cfg t offsets l (wp_cols (partition_or_fresh cfg (qs ! idx))) = Some (Inr (wp_cols wp))"
    by (cases "append_row E cfg t offsets l (wp_cols (partition_or_fresh cfg (qs ! idx)))" rule: result_cases)
      (auto simp: with_row_def)
  then have "aligned (wp_cols (fresh_partition cfg)) (wp_cols wp)"
    using append_row_aligned partition_or_fresh_aligned [OF assms(2) idx] by blast
  then show ?thesis using typed_update [OF assms(2)] wp(2) by simp
qed

lemma worker_loop_merge:
  assumes "typed_parts cfg ps" and "typed_parts cfg qs" and "length ps = length qs"
  shows "worker_loop E cfg buf l ranges (merge_parts ps qs) = map_result (merge_parts ps) (worker_loop E cfg buf l ranges qs)"
  using assms
proof (induction ranges arbitrary: l qs)
  case (Cons r ranges)
  obtain a b where r: "r = (a, b)" by (cases r)
  show ?case
  proof (cases "slice buf a b")
    case (Some t)
    have "worker_loop E cfg buf (l + 1) ranges (merge_parts ps qs') = map_result (merge_parts ps) (worker_loop E cfg buf (l + 1) ranges qs')"
      if "worker_line E cfg t (l + 1) qs = Some (Inr qs')" for qs'
      using Cons.IH [of qs'] worker_line_typed [OF that Cons.prems(2)] Cons.prems by simp
    then show ?thesis using Some r worker_line_merge [OF Cons.prems, of E t "l + 1"]
      by (simp add: map_result_and_then and_then_map_result cong: and_then_cong)
  qed (simp add: r)
qed simp

lemma worker_loop_typed:
  "worker_loop E cfg buf l ranges qs = Some (Inr qs') \<Longrightarrow> typed_parts cfg qs \<Longrightarrow> typed_parts cfg qs' \<and> length qs' = length qs"
proof (induction ranges arbitrary: l qs)
  case (Cons r ranges)
  then obtain t q1 where "worker_line E cfg t (l + 1) qs = Some (Inr q1)" "worker_loop E cfg buf (l + 1) ranges q1 = Some (Inr qs')"
    by (cases r) (auto simp: and_then_def lift_opt_def split: option.splits sum.splits)
  then show ?case using Cons.IH [of "l + 1" q1] worker_line_typed Cons.prems(2) by fastforce
qed simp

lemma worker_loop_append:
  "worker_loop E cfg buf l (r1 @ r2) ps
   = and_then (worker_loop E cfg buf l r1 ps) (\<lambda>qs. worker_loop E cfg buf (l + word_of_nat (length r1)) r2 qs)"
proof (induction r1 arbitrary: l ps)
  case (Cons r r1)
  have "(\<lambda>x. worker_loop E cfg buf (l + 1) (r1 @ r2) x)
    = (\<lambda>x. and_then (worker_loop E cfg buf (l + 1) r1 x) (worker_loop E cfg buf (l + word_of_nat (length (r # r1))) r2))"
    using Cons.IH by (simp add: ac_simps)
  then show ?case by (cases r) (simp add: and_then_assoc)
qed simp

lemma merge_parts_empty: "length ps = n \<Longrightarrow> merge_parts ps (replicate n None) = ps"
proof -
  assume n: "length ps = n"
  have "merge_wp x None = x" for x by (cases x) simp_all
  then show ?thesis using n by (auto simp: merge_parts_def list_eq_iff_nth_eq)
qed

section \<open>Chunks\<close>

text \<open>The loader puts the results together in order and stops at the first error.\<close>

fun merge_results ::
  "WorkerPartitionResult option list \<Rightarrow> (ParseError + WorkerPartitionResult option list) list \<Rightarrow> ParseError + WorkerPartitionResult option list" where
  "merge_results acc [] = Inr acc"
| "merge_results acc (Inl e # rs) = Inl e"
| "merge_results acc (Inr ps # rs) = merge_results (merge_parts acc ps) rs"

lemma join_worker_simps [simp]:
  "join_worker (Some x) = x" "join_worker None = Inl \<lparr>message = WorkerPanicked, column = 0, line = 0\<rparr>"
  by (simp_all add: join_worker_def)

lemma merge_chunks:
  assumes "0 < k" and "typed_parts cfg acc" and "length acc = n"
  shows "merge_results acc (map (\<lambda>(i, chunk). join_worker (parse_lines_worker E cfg buf chunk n (base + word_of_nat (i * k))))
      (enumerate i (chunks k ranges)))
    = join_worker (worker_loop E cfg buf (base + word_of_nat (i * k)) ranges acc)"
  using assms(2,3)
proof (induction "length ranges" arbitrary: ranges acc i rule: less_induct)
  case less
  show ?case
  proof (cases "ranges = []")
    case False
    let ?l = "base + word_of_nat (i * k)" and ?chunk = "take k ranges" and ?rest = "drop k ranges"
    have chunks: "chunks k ranges = ?chunk # chunks k ?rest" using False assms(1) by (subst chunks.simps) simp
    have whole: "worker_loop E cfg buf ?l ranges acc
      = and_then (worker_loop E cfg buf ?l ?chunk acc) (worker_loop E cfg buf (?l + word_of_nat (length ?chunk)) ?rest)"
      using worker_loop_append [of E cfg buf ?l ?chunk ?rest acc] by simp
    have one: "worker_loop E cfg buf ?l ?chunk acc = map_result (merge_parts acc) (parse_lines_worker E cfg buf ?chunk n ?l)"
      using worker_loop_merge [OF less.prems(1) typed_empty, of n E buf ?l ?chunk] merge_parts_empty [OF less.prems(2)] less.prems(2)
      by (simp add: parse_lines_worker_def)
    show ?thesis
    proof (cases "parse_lines_worker E cfg buf ?chunk n ?l" rule: result_cases)
      case (ok ps)
      have acc: "typed_parts cfg (merge_parts acc ps)" "length (merge_parts acc ps) = n"
        using worker_loop_typed [OF _ less.prems(1), of E buf ?l ?chunk "merge_parts acc ps"] one ok less.prems(2) by simp_all
      have "?rest \<noteq> [] \<Longrightarrow> length ?chunk = k" by simp
      then have line: "?rest \<noteq> [] \<Longrightarrow> ?l + word_of_nat (length ?chunk) = base + word_of_nat (Suc i * k)" by (simp add: ac_simps)
      have "length ?rest < length ranges" using False assms(1) by simp
      note IH = less.hyps [OF this acc, of "Suc i"]
      show ?thesis
      proof (cases "?rest = []")
        case True
        then show ?thesis using chunks whole one ok by (simp add: chunks.simps)
      next
        case False
        then show ?thesis using IH chunks whole one ok line by (simp add: ac_simps)
      qed
    qed (use chunks whole one in simp_all)
  qed (simp add: chunks.simps)
qed

lemma spawn_workers_merge:
  assumes "line_ranges \<noteq> []" and "0 < n_workers"
  shows "merge_results (replicate n None) (spawn_workers E cfg buf line_ranges n base n_workers)
    = join_worker (parse_lines_worker E cfg buf line_ranges n base)"
proof -
  have "0 < div_ceil (length line_ranges) n_workers"
    using less_div_ceil [OF assms(2), of 0 "length line_ranges"] assms(1) by simp
  from merge_chunks [OF this, of cfg "replicate n None" n E buf base 0 line_ranges]
  show ?thesis by (simp add: spawn_workers_def parse_lines_worker_def Let_def)
qed

end
