(* ===== verification/Copy_Rows.thy ===== *)
theory Copy_Rows
  imports Copy_Parallel "HOL-Library.Multiset"
begin

text \<open>
  The columns of a worker's partition grow in step: every row adds one value, of the column's own
  type, to every column, those that JSON extraction fills included.
\<close>

definition target_indices :: "ColumnExtractTargets option list \<Rightarrow> nat list" where
  "target_indices ts = concat (map (\<lambda>t. case t of None \<Rightarrow> [] | Some targets \<Rightarrow> map fst targets) ts)"

text \<open>The extracted columns stand behind the physical ones and each is the target of one path.\<close>

definition config_ok :: "LoadConfig \<Rightarrow> bool" where
  "config_ok cfg \<longleftrightarrow> physical_count cfg \<le> length (kinds cfg)
    \<and> mset (target_indices (extract_targets cfg)) = mset [physical_count cfg..<length (kinds cfg)]"

lemma fits_aligned:
  assumes "aligned (map new_worker_typed_column ks) cols" and "i < length ks"
  shows "fits (ks ! i) (cols ! i)"
  using assms same_variant_sym by (auto simp: fits_def dest!: aligned_nth)

lemma rows_new_typed_column: "rows (new_typed_column k) = 0" "rows (TText []) = 0"
  by (cases k) simp_all

lemma rows_update:
  assumes "rows c = rows (cols ! i) + 1"
  shows "(map rows cols)[i := rows c] = map rows (cols[i := c])"
  by (simp add: map_update)

lemma append_fields_rows:
  assumes "append_fields E cfg t offsets l i ks cols = Some (Inr cols')"
    and "aligned (map new_worker_typed_column all) cols" and "take (length ks) (drop i all) = ks"
  shows "length cols' = length cols
    \<and> (\<forall>j < length cols. rows (cols' ! j) = rows (cols ! j) + (if i \<le> j \<and> j < i + length ks then 1 else 0))"
  using assms
proof (induction ks arbitrary: i cols)
  case (Cons k ks)
  obtain raw c where i: "i < length cols"
    and c: "parse_raw_field_and_append (env_memchr E) (env_jsonb E) raw (null_string cfg) k (cols ! i) i l = Some (Inr c)"
    and rest: "append_fields E cfg t offsets l (i + 1) ks (cols[i := c]) = Some (Inr cols')"
    using Cons.prems(1) by (auto simp: and_then_def lift_opt_def index_def split: option.splits sum.splits if_splits)
  have "i < length all" using Cons.prems(3) by (cases "i < length all") auto
  note cons = Cons_nth_drop_Suc [OF this]
  then have drop_i: "drop i all = k # drop (Suc i) all" "all ! i = k" "i < length all"
    using Cons.prems(3) \<open>i < length all\<close> by (simp_all flip: cons)
  have "rows c = rows (cols ! i) + 1"
    using parse_raw_field_grows [OF _ c] fits_aligned [OF Cons.prems(2), of i] drop_i grows_rows by auto
  moreover have "length cols' = length (cols[i := c])
    \<and> (\<forall>j < length (cols[i := c]). rows (cols' ! j) = rows (cols[i := c] ! j) + (if i + 1 \<le> j \<and> j < i + 1 + length ks then 1 else 0))"
    using Cons.IH [OF rest aligned_update [OF Cons.prems(2) parse_raw_variant [OF c]]] Cons.prems(3) drop_i(1) by simp
  ultimately show ?case using i by (auto simp: nth_list_update)
qed simp

lemma modify_rows:
  assumes "modify cols idx f = Some cols'" and "\<And>c. rows (f c) = rows c + 1"
  shows "length cols' = length cols \<and> (\<forall>j < length cols. rows (cols' ! j) = rows (cols ! j) + (if j = idx then 1 else 0))"
  using assms by (auto simp: modify_def nth_list_update split: if_splits)

lemma push_nulls_rows:
  "push_nulls ts cols = Some cols' \<Longrightarrow> length cols' = length cols
    \<and> (\<forall>j < length cols. rows (cols' ! j) = rows (cols ! j) + count (mset (map fst ts)) j)"
proof (induction ts arbitrary: cols)
  case (Cons t ts)
  obtain idx spec where t: "t = (idx, spec)" by (cases t)
  then obtain c1 where c1: "modify cols idx push_typed_null = Some c1" "push_nulls ts c1 = Some cols'"
    using Cons.prems by (auto simp: bind_eq_Some_conv)
  have "rows (push_typed_null c) = rows c + 1" for c using grows_rows [OF grows_null] by blast
  from modify_rows [OF c1(1) this] Cons.IH [OF c1(2)] show ?case by (auto simp: t)
qed simp

lemma push_leaves_rows:
  "push_leaves v ts cols = Some cols' \<Longrightarrow> length cols' = length cols
    \<and> (\<forall>j < length cols. rows (cols' ! j) = rows (cols ! j) + count (mset (map fst ts)) j)"
proof (induction ts arbitrary: cols)
  case (Cons t ts)
  obtain idx spec where t: "t = (idx, spec)" by (cases t)
  let ?f = "push_extracted_leaf (descend_json_path v (spec_path spec)) (target_kind spec)"
  obtain c1 where c1: "modify cols idx ?f = Some c1" "push_leaves v ts c1 = Some cols'"
    using Cons.prems t by (auto simp: bind_eq_Some_conv)
  have "rows (?f c) = rows c + 1" for c using grows_rows [OF push_extracted_leaf_grows] by blast
  from modify_rows [OF c1(1) this] Cons.IH [OF c1(2)] show ?case by (auto simp: t)
qed simp

lemma extract_rows:
  "extract_from_raw_field M S raw null ts cols = Some cols' \<Longrightarrow> length cols' = length cols
    \<and> (\<forall>j < length cols. rows (cols' ! j) = rows (cols ! j) + count (mset (map fst ts)) j)"
  using push_nulls_rows push_leaves_rows
  by (auto simp: extract_from_raw_field_def apply_extract_targets_def bind_eq_Some_conv simp del: mset_map
      split: if_splits option.splits)

lemma apply_extracts_rows:
  "apply_extracts E cfg t offsets i ts cols = Some cols' \<Longrightarrow> length cols' = length cols
    \<and> (\<forall>j < length cols. rows (cols' ! j) = rows (cols ! j) + count (mset (target_indices ts)) j)"
proof (induction E cfg t offsets i ts cols rule: apply_extracts.induct)
  case (3 E cfg t offsets i targets ts cols)
  obtain raw c1 where raw: "raw_field t offsets i = Some raw"
    and c1: "extract_from_raw_field (env_memchr E) (env_serde E) raw (null_string cfg) targets cols = Some c1"
      "apply_extracts E cfg t offsets (i + 1) ts c1 = Some cols'"
    using 3(2) by (auto simp: bind_eq_Some_conv)
  from extract_rows [OF c1(1)] 3(1) [OF raw c1] show ?case by (simp add: target_indices_def)
qed (simp_all add: target_indices_def)

lemma count_mset_upt: "count (mset [a..<b]) j = (if a \<le> j \<and> j < b then 1 else 0)"
  by (simp add: distinct_count_atmost_1 [THEN iffD1, OF distinct_upt])

lemma append_row_rows:
  assumes "append_row E cfg t offsets l cols = Some (Inr cols')" and ok: "config_ok cfg"
    and al: "aligned (wp_cols (fresh_partition cfg)) cols"
  shows "\<forall>j < length (kinds cfg). rows (cols' ! j) = rows (cols ! j) + 1"
proof -
  let ?n = "physical_count cfg" and ?ks = "kinds cfg"
  obtain c1 where c1: "append_fields E cfg t offsets l 0 (take ?n ?ks) cols = Some (Inr c1)"
    "apply_extracts E cfg t offsets 0 (extract_targets cfg) c1 = Some cols'"
    using assms(1) by (auto simp: append_row_def and_then_def lift_opt_def split: option.splits sum.splits)
  have al': "aligned (map new_worker_typed_column ?ks) cols" using al by (simp add: fresh_partition_def)
  then have len: "length cols = length ?ks" using aligned_nth by fastforce
  have n: "?n \<le> length ?ks" using ok by (simp add: config_ok_def)
  have a: "length c1 = length cols \<and> (\<forall>j < length cols. rows (c1 ! j) = rows (cols ! j) + (if j < ?n then 1 else 0))"
    using append_fields_rows [OF c1(1) al'] n by simp
  have b: "\<forall>j < length c1. rows (cols' ! j) = rows (c1 ! j) + (if ?n \<le> j \<and> j < length ?ks then 1 else 0)"
    using apply_extracts_rows [OF c1(2)] ok unfolding config_ok_def by (simp only: count_mset_upt) blast
  show ?thesis using a b len by auto
qed

section \<open>The invariant of a worker\<close>

definition in_step :: "LoadConfig \<Rightarrow> WorkerPartitionResult option list \<Rightarrow> bool" where
  "in_step cfg ps \<longleftrightarrow> typed_parts cfg ps \<and> (\<forall>wp. Some wp \<in> set ps \<longrightarrow> (\<forall>c \<in> set (wp_cols wp). rows c = wp_rows wp))"

lemma worker_line_in_step:
  assumes "worker_line E cfg t l qs = Some (Inr qs')" and "in_step cfg qs" and ok: "config_ok cfg"
  shows "in_step cfg qs'"
proof -
  have typed: "typed_parts cfg qs" using assms(2) by (simp add: in_step_def)
  obtain idx offsets where "route_line E cfg t l = Some (Inr (idx, offsets))"
    using assms(1) by (auto simp: worker_line_alt and_then_def split: option.splits sum.splits)
  then obtain wp where idx: "idx < length qs" and wp: "with_row E cfg t offsets l (qs ! idx) = Some (Inr wp)" "qs' = qs[idx := Some wp]"
    using assms(1) by (cases "with_row E cfg t offsets l (qs ! idx)" rule: result_cases) (auto simp: worker_line_alt split: if_splits)
  let ?p = "partition_or_fresh cfg (qs ! idx)"
  have row: "append_row E cfg t offsets l (wp_cols ?p) = Some (Inr (wp_cols wp))" "wp_rows wp = wp_rows ?p + 1"
    using wp(1) by (cases "append_row E cfg t offsets l (wp_cols ?p)" rule: result_cases; auto simp: with_row_def)+
  note al = partition_or_fresh_aligned [OF typed idx]
  have len: "length (wp_cols wp) = length (kinds cfg)" "length (wp_cols ?p) = length (kinds cfg)"
    using aligned_nth [OF append_row_aligned [OF row(1) al]] aligned_nth [OF al] by (simp_all add: fresh_partition_def)
  have "rows c = wp_rows ?p" if "c \<in> set (wp_cols ?p)" for c
  proof (cases "qs ! idx")
    case None
    then show ?thesis using that
      by (auto simp: partition_or_fresh_def fresh_partition_def new_worker_typed_column_def rows_new_typed_column)
  next
    case (Some w)
    then show ?thesis using that assms(2) idx nth_mem [OF idx] by (auto simp: in_step_def partition_or_fresh_def)
  qed
  then have "\<forall>j < length (kinds cfg). rows (wp_cols ?p ! j) = wp_rows ?p" using len(2) nth_mem by metis
  then have "rows c = wp_rows wp" if "c \<in> set (wp_cols wp)" for c
    using that append_row_rows [OF row(1) ok al] row(2) len by (auto simp: in_set_conv_nth)
  then show ?thesis using worker_line_typed [OF assms(1) typed] assms(2) wp(2)
    by (auto simp: in_step_def dest!: subsetD [OF set_update_subset_insert])
qed

lemma worker_loop_in_step:
  "worker_loop E cfg buf l ranges qs = Some (Inr qs') \<Longrightarrow> in_step cfg qs \<Longrightarrow> config_ok cfg \<Longrightarrow> in_step cfg qs'"
proof (induction ranges arbitrary: l qs)
  case (Cons r ranges)
  then obtain t q1 where "worker_line E cfg t (l + 1) qs = Some (Inr q1)" "worker_loop E cfg buf (l + 1) ranges q1 = Some (Inr qs')"
    by (cases r) (auto simp: and_then_def lift_opt_def split: option.splits sum.splits)
  then show ?case using Cons.IH worker_line_in_step Cons.prems(2,3) by blast
qed simp

end
