(* ===== verification/Boolean_Codec.thy ===== *)
theory Boolean_Codec
  imports Compressed_Column
begin

text \<open>
  The bitmap codec for boolean columns (\<^verbatim>\<open>src/compression/boolean.rs\<close>): eight values per byte,
  value \<open>i\<close> in bit \<open>i mod 8\<close> of byte \<open>i div 8\<close>.
\<close>

fun boolean_encode_loop :: "nat \<Rightarrow> bool list \<Rightarrow> bytes \<Rightarrow> bytes option" where
  "boolean_encode_loop i [] buf = Some buf"
| "boolean_encode_loop i (val # vals) buf = do {
     buf' \<leftarrow> (if val then or_bit buf i else Some buf);
     boolean_encode_loop (i + 1) vals buf'
   }"

definition boolean_encode :: "bool list \<Rightarrow> bytes option" where
  "boolean_encode values =
     (if values = [] then Some []
      else boolean_encode_loop 0 values (replicate (div_ceil (length values) 8) 0))"

fun boolean_decode_loop :: "bytes \<Rightarrow> nat \<Rightarrow> nat \<Rightarrow> bool list option" where
  "boolean_decode_loop data i 0 = Some []"
| "boolean_decode_loop data i (Suc n) = do {
     b \<leftarrow> get_bit data i;
     rest \<leftarrow> boolean_decode_loop data (i + 1) n;
     Some (b # rest)
   }"

definition boolean_decode :: "bytes \<Rightarrow> nat \<Rightarrow> bool list option" where
  "boolean_decode data count = boolean_decode_loop data 0 count"

lemma boolean_encode_loop_spec:
  assumes "i + length vs \<le> 8 * length buf"
  shows "\<exists>buf'. boolean_encode_loop i vs buf = Some buf' \<and> length buf' = length buf
    \<and> (\<forall>k. buf_bit buf' k \<longleftrightarrow> buf_bit buf k \<or> (i \<le> k \<and> k < i + length vs \<and> vs ! (k - i)))"
  using assms
proof (induction i vs buf rule: boolean_encode_loop.induct)
  case (2 i v vs buf)
  then have "i div 8 < length buf" by auto
  then obtain b1 where b1: "(if v then or_bit buf i else Some buf) = Some b1" "length b1 = length buf"
      "\<forall>k. buf_bit b1 k \<longleftrightarrow> buf_bit buf k \<or> (v \<and> k = i)"
    using or_bit_spec [of i buf] by (cases v) auto
  with 2 obtain buf' where "boolean_encode_loop (i + 1) vs b1 = Some buf'" "length buf' = length buf"
      "\<forall>k. buf_bit buf' k \<longleftrightarrow> buf_bit b1 k \<or> (i + 1 \<le> k \<and> k < i + 1 + length vs \<and> vs ! (k - (i + 1)))"
    by fastforce
  with b1 show ?case by (auto simp: nth_Cons' not_less_eq_eq)
qed auto

lemma boolean_decode_loop_spec:
  assumes "i + n \<le> 8 * length data"
  shows "boolean_decode_loop data i n = Some (map (buf_bit data) [i..<i + n])"
  using assms
proof (induction n arbitrary: i)
  case (Suc n)
  then have "i div 8 < length data" by auto
  with Suc show ?case by (simp add: upt_conv_Cons del: upt_Suc)
qed simp

lemma boolean_encode_spec:
  "\<exists>buf. boolean_encode vs = Some buf \<and> length buf = div_ceil (length vs) 8
     \<and> (\<forall>k < length vs. buf_bit buf k = vs ! k)"
proof (cases "vs = []")
  case True
  then show ?thesis by (simp add: boolean_encode_def div_ceil_def)
next
  case False
  have "0 + length vs \<le> 8 * length (replicate (div_ceil (length vs) 8) (0::u8))"
    using div_ceil_le_iff [of 8 "length vs"] by (simp add: mult.commute)
  from boolean_encode_loop_spec [OF this] False show ?thesis by (auto simp: boolean_encode_def)
qed

lemma boolean_decode_encode [roundtrips]:
  "\<exists>buf. boolean_encode vs = Some buf \<and> boolean_decode buf (length vs) = Some vs"
proof -
  obtain buf where enc: "boolean_encode vs = Some buf" and len: "length buf = div_ceil (length vs) 8"
    and bits: "\<forall>k < length vs. buf_bit buf k = vs ! k"
    using boolean_encode_spec by blast
  have "0 + length vs \<le> 8 * length buf"
    using len div_ceil_le_iff [of 8 "length vs"] by (simp add: mult.commute)
  from boolean_decode_loop_spec [OF this] bits
  have "boolean_decode buf (length vs) = Some vs"
    by (auto simp: boolean_decode_def intro!: nth_equalityI)
  with enc show ?thesis by blast
qed

text \<open>The boolean branch of \<^verbatim>\<open>compress_typed_column\<close> and its reader, as a value codec.\<close>

definition boolean_encode_tagged :: "bool list \<Rightarrow> (CompressionType \<times> bytes) option" where
  "boolean_encode_tagged vs = map_option (Pair BooleanBitmap) (boolean_encode vs)"

definition boolean_decode_tagged :: "CompressionType \<Rightarrow> bytes \<Rightarrow> nat \<Rightarrow> bool list option" where
  "boolean_decode_tagged tag payload n = (if tag = BooleanBitmap then boolean_decode payload n else None)"

interpretation bool_codec: value_codec boolean_encode_tagged boolean_decode_tagged "\<lambda>_. True"
  using boolean_decode_encode
  by unfold_locales (auto simp: boolean_encode_tagged_def boolean_decode_tagged_def)

end
