(* ===== verification/Bit_Stream.thy ===== *)
theory Bit_Stream
  imports Prelude
begin

unbundle bit_operations_syntax

text \<open>
  The bit-level writer and reader of \<^verbatim>\<open>src/compression/gorilla.rs\<close>. Both work most significant bit
  first: the writer fills one byte at a time, the reader serves reads from a 64-bit buffer it refills
  by bytes. Each is refined to a list of bits: what has been written, and what is still to be read.
  The locales \<open>bit_sink\<close> and \<open>bit_source\<close> are the interface the Gorilla codecs rely on.
\<close>

section \<open>Writer\<close>

record BitWriter =
  bw_bytes :: bytes
  bw_current :: u8
  bw_bits_used :: nat

definition bw_new :: BitWriter where
  "bw_new = \<lparr>bw_bytes = [], bw_current = 0, bw_bits_used = 0\<rparr>"

text \<open>The flush shared by both writes: a full byte is pushed and the current byte reset.\<close>

definition bw_flush :: "BitWriter \<Rightarrow> BitWriter" where
  "bw_flush w =
     (if bw_bits_used w = 8
      then \<lparr>bw_bytes = bw_bytes w @ [bw_current w], bw_current = 0, bw_bits_used = 0\<rparr>
      else w)"

definition write_bit :: "BitWriter \<Rightarrow> bool \<Rightarrow> BitWriter" where
  "write_bit w b =
     (let w1 = (if b then w\<lparr>bw_current := bw_current w OR push_bit (7 - bw_bits_used w) 1\<rparr> else w)
      in bw_flush (w1\<lparr>bw_bits_used := bw_bits_used w1 + 1\<rparr>))"

text \<open>
  The second disjunct of the guard makes the recursion total; it never holds, as every writer
  operation leaves fewer than eight bits in the current byte (\<open>wf_writer\<close> below).
\<close>

function write_bits_loop :: "BitWriter \<Rightarrow> u64 \<Rightarrow> nat \<Rightarrow> BitWriter" where
  "write_bits_loop w v remaining =
     (if remaining = 0 \<or> 8 \<le> bw_bits_used w then w
      else let avail = 8 - bw_bits_used w; take = min remaining avail; shift = remaining - take;
               mask = ucast ((push_bit take 1 :: u64) - 1) :: u8;
               bits = ucast (drop_bit shift v AND ucast mask) :: u8
           in write_bits_loop
                (bw_flush (w\<lparr>bw_current := bw_current w OR push_bit (avail - take) bits,
                             bw_bits_used := bw_bits_used w + take\<rparr>))
                v (remaining - take))"
  by pat_completeness auto
termination by (relation "measure (\<lambda>(_, _, remaining). remaining)") auto

declare write_bits_loop.simps [simp del]

definition write_bits :: "BitWriter \<Rightarrow> u64 \<Rightarrow> nat \<Rightarrow> BitWriter" where
  "write_bits w v num_bits = (if num_bits = 0 then w else write_bits_loop w v num_bits)"

definition bw_finish :: "BitWriter \<Rightarrow> bytes" where
  "bw_finish w = (if 0 < bw_bits_used w then bw_bytes w @ [bw_current w] else bw_bytes w)"

section \<open>Reader\<close>

record BitReader =
  br_bytes :: bytes
  br_pos :: nat
  br_acc :: u64
  br_cnt :: nat

function refill :: "BitReader \<Rightarrow> BitReader" where
  "refill r =
     (if br_cnt r \<le> 56 \<and> br_pos r < length (br_bytes r)
      then refill (r\<lparr>br_acc := br_acc r OR push_bit (56 - br_cnt r) (ucast (br_bytes r ! br_pos r)),
                     br_pos := br_pos r + 1, br_cnt := br_cnt r + 8\<rparr>)
      else r)"
  by pat_completeness auto
termination by (relation "measure (\<lambda>r. length (br_bytes r) - br_pos r)") auto

declare refill.simps [simp del]

definition br_new :: "bytes \<Rightarrow> BitReader" where
  "br_new bs = refill \<lparr>br_bytes = bs, br_pos = 0, br_acc = 0, br_cnt = 0\<rparr>"

definition read_bit :: "BitReader \<Rightarrow> bool \<times> BitReader" where
  "read_bit r =
     (let r1 = (if br_cnt r = 0 then refill r else r)
      in if br_cnt r1 = 0 then (False, r1)
         else (drop_bit 63 (br_acc r1) AND 1 = 1,
               r1\<lparr>br_acc := push_bit 1 (br_acc r1), br_cnt := br_cnt r1 - 1\<rparr>))"

text \<open>A read of at most 57 bits, and the split of a wider one into two.\<close>

definition read_bits_narrow :: "BitReader \<Rightarrow> nat \<Rightarrow> u64 \<times> BitReader" where
  "read_bits_narrow r n =
     (if n = 0 then (0, r)
      else let r1 = (if br_cnt r < n then refill r else r)
           in if br_cnt r1 < n
              then (if br_cnt r1 = 0 then 0 else drop_bit (64 - br_cnt r1) (br_acc r1),
                    r1\<lparr>br_acc := 0, br_cnt := 0\<rparr>)
              else (drop_bit (64 - n) (br_acc r1),
                    r1\<lparr>br_acc := push_bit n (br_acc r1), br_cnt := br_cnt r1 - n\<rparr>))"

definition read_bits :: "BitReader \<Rightarrow> nat \<Rightarrow> u64 \<times> BitReader" where
  "read_bits r num_bits =
     (if 57 < num_bits
      then let lo_bits = num_bits - 32;
               (hi, r1) = read_bits_narrow r 32;
               (lo, r2) = read_bits_narrow r1 lo_bits
           in (shl hi lo_bits OR lo, r2)
      else read_bits_narrow r num_bits)"

section \<open>Bits, most significant first\<close>

definition value_bits :: "'w::len word \<Rightarrow> nat \<Rightarrow> bool list" where
  "value_bits v n = rev (map (bit v) [0..<n])"

abbreviation byte_bits :: "u8 \<Rightarrow> bool list" where
  "byte_bits b \<equiv> value_bits b 8"

definition bytes_bits :: "bytes \<Rightarrow> bool list" where
  "bytes_bits bs = concat (map byte_bits bs)"

lemma length_value_bits [simp]: "length (value_bits v n) = n"
  by (simp add: value_bits_def)

lemma value_bits_0 [simp]: "value_bits v 0 = []"
  by (simp add: value_bits_def)

lemma nth_value_bits: "i < n \<Longrightarrow> value_bits v n ! i = bit v (n - 1 - i)"
  by (simp add: value_bits_def rev_nth)

lemma bytes_bits_append [simp]: "bytes_bits (xs @ ys) = bytes_bits xs @ bytes_bits ys"
  by (simp add: bytes_bits_def)

lemma bytes_bits_Nil [simp]: "bytes_bits [] = []"
  by (simp add: bytes_bits_def)

lemma bytes_bits_Cons [simp]: "bytes_bits (b # bs) = byte_bits b @ bytes_bits bs"
  by (simp add: bytes_bits_def)

lemma length_bytes_bits [simp]: "length (bytes_bits bs) = 8 * length bs"
  by (induction bs) simp_all

lemma value_bits_split:
  assumes "t \<le> n"
  shows "value_bits v n = value_bits (drop_bit (n - t) v) t @ value_bits v (n - t)"
proof (rule nth_equalityI)
  fix i
  assume "i < length (value_bits v n)"
  then have "i < n" by simp
  with assms show "value_bits v n ! i = (value_bits (drop_bit (n - t) v) t @ value_bits v (n - t)) ! i"
    by (cases "i < t") (simp_all add: nth_append nth_value_bits bit_drop_bit_eq)
qed (use assms in simp)

lemma value_bits_inj:
  assumes "value_bits v n = value_bits w n"
  shows "take_bit n v = take_bit n (w :: 'w::len word)"
proof (rule bit_word_eqI)
  fix k
  have "bit v k = bit w k" if "k < n"
    using arg_cong [OF assms, of "\<lambda>xs. xs ! (n - 1 - k)"] that by (simp add: nth_value_bits)
  then show "bit (take_bit n v) k = bit (take_bit n w) k" by (auto simp: bit_take_bit_iff)
qed

definition writer_bits :: "BitWriter \<Rightarrow> bool list" where
  "writer_bits w = bytes_bits (bw_bytes w) @ take (bw_bits_used w) (byte_bits (bw_current w))"

definition wf_writer :: "BitWriter \<Rightarrow> bool" where
  "wf_writer w \<longleftrightarrow> bw_bits_used w < 8 \<and> (\<forall>k < 8 - bw_bits_used w. \<not> bit (bw_current w) k)"

definition reader_bits :: "BitReader \<Rightarrow> bool list" where
  "reader_bits r = take (br_cnt r) (value_bits (br_acc r) 64) @ bytes_bits (drop (br_pos r) (br_bytes r))"

definition wf_reader :: "BitReader \<Rightarrow> bool" where
  "wf_reader r \<longleftrightarrow> br_cnt r \<le> 64 \<and> br_pos r \<le> length (br_bytes r)
     \<and> (\<forall>k < 64 - br_cnt r. \<not> bit (br_acc r) k)"

section \<open>The writer appends\<close>

lemma take_value_bits_or:
  fixes cur c :: "'w::len word"
  defines "W \<equiv> LENGTH('w)"
  assumes u: "u + t \<le> W" and low: "\<forall>k < W - u. \<not> bit cur k" and c: "\<forall>k. bit c k \<longrightarrow> k < t"
  shows "take (u + t) (value_bits (cur OR push_bit (W - u - t) c) W) = take u (value_bits cur W) @ value_bits c t"
    (is "?l = ?r")
proof (rule nth_equalityI)
  fix i
  assume "i < length ?l"
  then have i: "i < u + t" "i < W" by simp_all
  have l: "?l ! i \<longleftrightarrow> bit cur (W - 1 - i) \<or> (W - u - t \<le> W - 1 - i \<and> bit c (W - 1 - i - (W - u - t)))"
    using i by (auto simp: nth_value_bits bit_or_iff bit_push_bit_iff W_def)
  show "?l ! i = ?r ! i"
  proof (cases "i < u")
    case True
    then have "\<not> bit c (W - 1 - i - (W - u - t))" using c u by fastforce
    with True i l show ?thesis by (simp add: nth_append nth_value_bits)
  next
    case False
    then have "\<not> bit cur (W - 1 - i)" using low i by simp
    moreover have "W - 1 - i - (W - u - t) = t - 1 - (i - u)" "W - u - t \<le> W - 1 - i" using False i u by linarith+
    ultimately show ?thesis using False i l u by (simp add: nth_append nth_value_bits)
  qed
qed (use u in simp)

lemma writer_step:
  assumes "wf_writer w" and "0 < t" and "t \<le> 8 - bw_bits_used w" and "\<forall>k. bit c k \<longrightarrow> k < t"
  defines "w' \<equiv> bw_flush (w\<lparr>bw_current := bw_current w OR push_bit (8 - bw_bits_used w - t) c,
                            bw_bits_used := bw_bits_used w + t\<rparr>)"
  shows "wf_writer w' \<and> writer_bits w' = writer_bits w @ value_bits c t"
proof -
  let ?u = "bw_bits_used w" and ?cur = "bw_current w OR push_bit (8 - bw_bits_used w - t) c"
  have ut: "?u + t \<le> 8" using assms(1,3) unfolding wf_writer_def by linarith
  have tk: "take (?u + t) (byte_bits ?cur) = take ?u (byte_bits (bw_current w)) @ value_bits c t"
    using assms(1,4) ut take_value_bits_or [of ?u t "bw_current w" c] by (simp add: wf_writer_def)
  show ?thesis
  proof (cases "?u + t = 8")
    case True
    then show ?thesis using tk
      by (simp add: w'_def bw_flush_def wf_writer_def writer_bits_def)
  next
    case False
    have "\<not> bit ?cur k" if "k < 8 - (?u + t)" for k
      using that assms(1) by (auto simp: wf_writer_def bit_or_iff bit_push_bit_iff)
    then show ?thesis using False ut tk
      by (simp add: w'_def bw_flush_def wf_writer_def writer_bits_def)
  qed
qed

lemma wf_writer_new: "wf_writer bw_new" and writer_bits_new: "writer_bits bw_new = []"
  by (simp_all add: bw_new_def wf_writer_def writer_bits_def)

lemma write_bit_correct:
  assumes "wf_writer w"
  shows "wf_writer (write_bit w b) \<and> writer_bits (write_bit w b) = writer_bits w @ [b]"
proof -
  have "write_bit w b = bw_flush (w\<lparr>bw_current := bw_current w OR push_bit (8 - bw_bits_used w - 1) (of_bool b),
                            bw_bits_used := bw_bits_used w + 1\<rparr>)"
    by (cases b) (simp_all add: write_bit_def Let_def numeral_eq_Suc)
  moreover have "\<forall>k. bit (of_bool b :: u8) k \<longrightarrow> k < 1" by (auto simp: bit_of_bool_iff)
  moreover have "value_bits (of_bool b :: u8) 1 = [b]" by (simp add: value_bits_def)
  moreover have "1 \<le> 8 - bw_bits_used w" using assms unfolding wf_writer_def by linarith
  ultimately show ?thesis using writer_step [OF assms, of 1 "of_bool b"]
    by (simp only: zero_less_one simp_thms)
qed

lemma write_bits_loop_correct:
  assumes "wf_writer w"
  shows "wf_writer (write_bits_loop w v n) \<and> writer_bits (write_bits_loop w v n) = writer_bits w @ value_bits v n"
  using assms
proof (induction w v n rule: write_bits_loop.induct)
  case (1 w v n)
  show ?case
  proof (cases "n = 0")
    case False
    define t where "t = min n (8 - bw_bits_used w)"
    define c where "c = (ucast (drop_bit (n - t) v AND ucast (ucast ((push_bit t 1 :: u64) - 1) :: u8)) :: u8)"
    let ?w1 = "bw_flush (w\<lparr>bw_current := bw_current w OR push_bit (8 - bw_bits_used w - t) c,
                           bw_bits_used := bw_bits_used w + t\<rparr>)"
    have u: "bw_bits_used w < 8" using 1(2) by (simp add: wf_writer_def)
    have t: "0 < t" "t \<le> 8 - bw_bits_used w" "t \<le> n" using False u by (auto simp: t_def)
    have c: "bit c k \<longleftrightarrow> k < t \<and> bit (drop_bit (n - t) v) k" for k
      using t(2) by (auto simp: c_def bit_ucast_iff bit_and_iff mask_eq_exp_minus_1 [symmetric] bit_mask_iff)
    have vb: "value_bits c t = value_bits (drop_bit (n - t) v) t" by (simp add: value_bits_def c)
    have step: "wf_writer ?w1 \<and> writer_bits ?w1 = writer_bits w @ value_bits c t"
      using c by (intro writer_step [OF 1(2) t(1,2)]) simp
    have nu: "\<not> (n = 0 \<or> 8 \<le> bw_bits_used w)" using False u by simp
    have "write_bits_loop w v n = write_bits_loop ?w1 v (n - t)"
      using nu by (subst write_bits_loop.simps) (simp only: Let_def t_def c_def if_False)
    moreover from 1(1) [OF nu refl t_def refl refl c_def]  step
    have "wf_writer (write_bits_loop ?w1 v (n - t))
        \<and> writer_bits (write_bits_loop ?w1 v (n - t)) = writer_bits ?w1 @ value_bits v (n - t)" by blast
    ultimately show ?thesis using step vb value_bits_split [OF t(3), of v] by simp
  qed (use 1(2) in \<open>simp add: write_bits_loop.simps\<close>)
qed

lemma write_bits_correct:
  "wf_writer w \<Longrightarrow> wf_writer (write_bits w v n) \<and> writer_bits (write_bits w v n) = writer_bits w @ value_bits v n"
  by (simp add: write_bits_def write_bits_loop_correct)

lemma bw_finish_correct:
  assumes "wf_writer w"
  shows "\<exists>pad. bytes_bits (bw_finish w) = writer_bits w @ pad \<and> length pad < 8"
proof (cases "bw_bits_used w = 0")
  case True
  then show ?thesis by (simp add: bw_finish_def writer_bits_def)
next
  case False
  have "byte_bits (bw_current w) = take (bw_bits_used w) (byte_bits (bw_current w)) @ drop (bw_bits_used w) (byte_bits (bw_current w))"
    by simp
  with False show ?thesis
    by (intro exI [of _ "drop (bw_bits_used w) (byte_bits (bw_current w))"])
       (simp add: bw_finish_def writer_bits_def)
qed

section \<open>The reader consumes\<close>

lemma refill_step:
  assumes wf: "wf_reader r" and c: "br_cnt r \<le> 56" and p: "br_pos r < length (br_bytes r)"
  defines "r' \<equiv> r\<lparr>br_acc := br_acc r OR push_bit (56 - br_cnt r) (ucast (br_bytes r ! br_pos r)),
                  br_pos := br_pos r + 1, br_cnt := br_cnt r + 8\<rparr>"
  shows "wf_reader r' \<and> reader_bits r' = reader_bits r"
proof -
  let ?b = "br_bytes r ! br_pos r"
  have b: "\<forall>k. bit (ucast ?b :: u64) k \<longrightarrow> k < 8" by (auto simp: bit_ucast_iff dest: bit_imp_le_length)
  have vb: "value_bits (ucast ?b :: u64) 8 = byte_bits ?b" by (simp add: value_bits_def bit_ucast_iff)
  have "take (br_cnt r + 8) (value_bits (br_acc r OR push_bit (64 - br_cnt r - 8) (ucast ?b)) 64)
      = take (br_cnt r) (value_bits (br_acc r) 64) @ value_bits (ucast ?b :: u64) 8"
    using take_value_bits_or [of "br_cnt r" 8 "br_acc r" "ucast ?b"] wf c b by (simp add: wf_reader_def)
  moreover have "drop (br_pos r) (br_bytes r) = ?b # drop (Suc (br_pos r)) (br_bytes r)"
    using p by (simp add: Cons_nth_drop_Suc)
  ultimately have "reader_bits r' = reader_bits r"
    by (simp add: r'_def reader_bits_def vb)
  moreover have "wf_reader r'"
    using wf c p by (auto simp: wf_reader_def r'_def bit_or_iff bit_push_bit_iff)
  ultimately show ?thesis by simp
qed

lemma refill_correct:
  assumes "wf_reader r"
  shows "wf_reader (refill r) \<and> reader_bits (refill r) = reader_bits r
    \<and> (56 < br_cnt (refill r) \<or> br_pos (refill r) = length (br_bytes (refill r)))"
  using assms
proof (induction r rule: refill.induct)
  case (1 r)
  show ?case
  proof (cases "br_cnt r \<le> 56 \<and> br_pos r < length (br_bytes r)")
    case True
    then show ?thesis using 1(1) [OF True] refill_step [OF 1(2)]
      by (simp add: refill.simps [of r])
  next
    case False
    then show ?thesis using 1(2) by (auto simp: refill.simps [of r] wf_reader_def)
  qed
qed

lemma refill_enough:
  assumes "wf_reader r" and "n \<le> 57" and "n \<le> length (reader_bits r)"
  shows "n \<le> br_cnt (refill r)"
proof -
  have len: "length (reader_bits s) = br_cnt s" if "wf_reader s" "br_pos s = length (br_bytes s)" for s
    using that by (simp add: reader_bits_def wf_reader_def)
  from refill_correct [OF assms(1)] len [of "refill r"] assms(2,3) show ?thesis by auto
qed

lemma wf_reader_new: "wf_reader (br_new bs)" and reader_bits_new: "reader_bits (br_new bs) = bytes_bits bs"
proof -
  let ?r = "\<lparr>br_bytes = bs, br_pos = 0, br_acc = 0, br_cnt = 0\<rparr>"
  have "wf_reader ?r" "reader_bits ?r = bytes_bits bs" by (simp_all add: wf_reader_def reader_bits_def)
  then show "wf_reader (br_new bs)" and "reader_bits (br_new bs) = bytes_bits bs"
    using refill_correct [of ?r] by (simp_all add: br_new_def)
qed

text \<open>Taking the top \<open>n\<close> bits of the buffer.\<close>

lemma consume:
  assumes wf: "wf_reader r" and n: "n \<le> br_cnt r" and pos: "0 < n"
  defines "r' \<equiv> r\<lparr>br_acc := push_bit n (br_acc r), br_cnt := br_cnt r - n\<rparr>"
  shows "wf_reader r' \<and> reader_bits r = value_bits (drop_bit (64 - n) (br_acc r)) n @ reader_bits r'"
proof -
  have c: "br_cnt r \<le> 64" using wf by (simp add: wf_reader_def)
  have "take (br_cnt r) (value_bits (br_acc r) 64)
      = value_bits (drop_bit (64 - n) (br_acc r)) n @ take (br_cnt r - n) (value_bits (push_bit n (br_acc r)) 64)"
    (is "?l = ?r")
  proof (rule nth_equalityI)
    fix i
    assume "i < length ?l"
    then show "?l ! i = ?r ! i"
      using n c by (cases "i < n") (auto simp: nth_append nth_value_bits bit_drop_bit_eq bit_push_bit_iff)
  qed (use n c in simp)
  moreover have "wf_reader r'"
    using wf n by (auto simp: wf_reader_def r'_def bit_push_bit_iff)
  ultimately show ?thesis by (simp add: reader_bits_def r'_def)
qed

lemma read_bit_correct:
  assumes "wf_reader r" and "reader_bits r = b # rest"
  shows "\<exists>r'. read_bit r = (b, r') \<and> wf_reader r' \<and> reader_bits r' = rest"
proof -
  define r1 where "r1 = (if br_cnt r = 0 then refill r else r)"
  have r1: "wf_reader r1" "reader_bits r1 = b # rest" "1 \<le> br_cnt r1"
    using assms refill_correct [OF assms(1)] refill_enough [OF assms(1), of 1] by (auto simp: r1_def)
  let ?r' = "r1\<lparr>br_acc := push_bit 1 (br_acc r1), br_cnt := br_cnt r1 - 1\<rparr>"
  have "wf_reader ?r' \<and> b # rest = value_bits (drop_bit 63 (br_acc r1)) 1 @ reader_bits ?r'"
    using consume [OF r1(1,3)] r1(2) by simp
  moreover have "value_bits (drop_bit 63 (br_acc r1)) 1 = [drop_bit 63 (br_acc r1) AND 1 = 1]"
    by (simp add: value_bits_def and_one_eq_one_iff)
  ultimately show ?thesis using r1(3) by (auto simp: read_bit_def Let_def r1_def [symmetric])
qed

lemma read_bits_narrow_correct:
  assumes "wf_reader r" and "n \<le> 57" and "n \<le> length (reader_bits r)"
  shows "\<exists>v r'. read_bits_narrow r n = (v, r') \<and> wf_reader r'
    \<and> reader_bits r = value_bits v n @ reader_bits r' \<and> (\<forall>k. bit v k \<longrightarrow> k < n)"
proof (cases "n = 0")
  case True
  with assms show ?thesis by (simp add: read_bits_narrow_def)
next
  case False
  define r1 where "r1 = (if br_cnt r < n then refill r else r)"
  have r1: "wf_reader r1" "reader_bits r1 = reader_bits r" "n \<le> br_cnt r1"
    using assms refill_correct [OF assms(1)] refill_enough [OF assms] by (auto simp: r1_def)
  have "\<forall>k. bit (drop_bit (64 - n) (br_acc r1)) k \<longrightarrow> k < n"
    using assms(2) by (auto simp: bit_drop_bit_eq dest!: bit_imp_le_length)
  with consume [OF r1(1,3)] r1(2,3) False show ?thesis
    by (simp add: read_bits_narrow_def Let_def r1_def [symmetric])
qed

lemma read_bits_full:
  assumes "wf_reader r" and "n \<le> 64" and "n \<le> length (reader_bits r)"
  shows "\<exists>v r'. read_bits r n = (v, r') \<and> wf_reader r'
    \<and> reader_bits r = value_bits v n @ reader_bits r' \<and> (\<forall>k. bit v k \<longrightarrow> k < n)"
proof (cases "57 < n")
  case True
  have "32 \<le> length (reader_bits r)" using assms(3) True by linarith
  then obtain hi r1 where hi: "read_bits_narrow r 32 = (hi, r1)" "wf_reader r1"
    "reader_bits r = value_bits hi 32 @ reader_bits r1" "\<forall>k. bit hi k \<longrightarrow> k < 32"
    using read_bits_narrow_correct [OF assms(1), of 32] by auto
  have narrow: "n - 32 \<le> 57" using assms(2) by linarith
  have "n - 32 \<le> length (reader_bits r1)" using assms(3) hi(3) by simp
  then obtain lo r2 where lo: "read_bits_narrow r1 (n - 32) = (lo, r2)" "wf_reader r2"
    "reader_bits r1 = value_bits lo (n - 32) @ reader_bits r2" "\<forall>k. bit lo k \<longrightarrow> k < n - 32"
    using read_bits_narrow_correct [OF hi(2), of "n - 32"] narrow by blast
  define w where "w = shl hi (n - 32) OR lo"
  have v: "bit w k \<longleftrightarrow> (n - 32 \<le> k \<and> bit hi (k - (n - 32))) \<or> bit lo k" for k
    using assms(2) True hi(4) [rule_format, of "k - (n - 32)"]
    by (auto simp: w_def shl_def bit_or_iff bit_push_bit_iff)
  have "value_bits (drop_bit (n - 32) w) 32 = value_bits hi 32"
    using lo(4) by (auto simp: value_bits_def bit_drop_bit_eq v)
  moreover have "value_bits w (n - 32) = value_bits lo (n - 32)" by (simp add: value_bits_def v)
  moreover have "k < n" if "bit w k" for k
  proof -
    from that v hi(4) lo(4) have "k - (n - 32) < 32 \<or> k < n - 32" by blast
    with True show ?thesis by linarith
  qed
  ultimately show ?thesis
    using True hi lo value_bits_split [of 32 n w] by (simp add: read_bits_def Let_def w_def)
next
  case False
  with read_bits_narrow_correct [OF assms(1) _ assms(3)] show ?thesis by (simp add: read_bits_def)
qed

lemma read_bits_correct:
  assumes "wf_reader r" and "n \<le> 64" and "reader_bits r = value_bits (x :: u64) n @ rest"
  shows "\<exists>r'. read_bits r n = (take_bit n x, r') \<and> wf_reader r' \<and> reader_bits r' = rest"
proof -
  obtain v r' where v: "read_bits r n = (v, r')" "wf_reader r'"
    "reader_bits r = value_bits v n @ reader_bits r'" "\<forall>k. bit v k \<longrightarrow> k < n"
    using read_bits_full [OF assms(1,2)] assms(3) by auto
  with assms(3) have "value_bits v n = value_bits x n" "reader_bits r' = rest" by simp_all
  moreover have "take_bit n v = v" using v(4) by (intro bit_word_eqI) (auto simp: bit_take_bit_iff)
  ultimately have "v = take_bit n x" using value_bits_inj by metis
  with v \<open>reader_bits r' = rest\<close> show ?thesis by blast
qed

section \<open>Interfaces\<close>

text \<open>
  What the codecs rely on: a sink whose content grows by exactly the bits written, and a source that
  gives back the bits of its content in order.
\<close>

locale bit_sink =
  fixes wf :: "'w \<Rightarrow> bool" and written :: "'w \<Rightarrow> bool list"
    and put_bit :: "'w \<Rightarrow> bool \<Rightarrow> 'w" and put_bits :: "'w \<Rightarrow> u64 \<Rightarrow> nat \<Rightarrow> 'w"
  assumes put_bit: "wf w \<Longrightarrow> wf (put_bit w b) \<and> written (put_bit w b) = written w @ [b]"
    and put_bits: "wf w \<Longrightarrow> wf (put_bits w v n) \<and> written (put_bits w v n) = written w @ value_bits v n"
begin

lemma wf_put [simp]: "wf w \<Longrightarrow> wf (put_bit w b)" "wf w \<Longrightarrow> wf (put_bits w v n)"
  by (simp_all add: put_bit put_bits)

lemma written_put [simp]:
  "wf w \<Longrightarrow> written (put_bit w b) = written w @ [b]"
  "wf w \<Longrightarrow> written (put_bits w v n) = written w @ value_bits v n"
  by (simp_all add: put_bit put_bits)

end

locale bit_source =
  fixes wf :: "'r \<Rightarrow> bool" and pending :: "'r \<Rightarrow> bool list"
    and get_bit :: "'r \<Rightarrow> bool \<times> 'r" and get_bits :: "'r \<Rightarrow> nat \<Rightarrow> u64 \<times> 'r"
  assumes get_bit: "wf r \<Longrightarrow> pending r = b # rest \<Longrightarrow>
      \<exists>r'. get_bit r = (b, r') \<and> wf r' \<and> pending r' = rest"
    and get_bits: "wf r \<Longrightarrow> n \<le> 64 \<Longrightarrow> pending r = value_bits x n @ rest \<Longrightarrow>
      \<exists>r'. get_bits r n = (take_bit n x, r') \<and> wf r' \<and> pending r' = rest"
begin

lemma bit_cases:
  assumes "wf r" and "pending r = b # rest"
  obtains r' where "get_bit r = (b, r')" and "wf r'" and "pending r' = rest"
  using get_bit [OF assms] by blast

lemma bit_bit_cases:
  assumes "wf r" and "pending r = a # b # rest"
  obtains r1 r2 where "get_bit r = (a, r1)" and "get_bit r1 = (b, r2)" and "wf r2" and "pending r2 = rest"
  using assms by (metis bit_cases)

lemma bits_cases:
  assumes "wf r" and "pending r = value_bits x n @ rest" and "n \<le> 64"
  obtains r' where "get_bits r n = (take_bit n x, r')" and "wf r'" and "pending r' = rest"
  using get_bits [OF assms(1,3,2)] by blast

text \<open>Two consecutive fields, as in a window header.\<close>

lemma bits_bits_cases:
  assumes "wf r" and "pending r = value_bits x m @ value_bits y n @ rest" and "m \<le> 64" and "n \<le> 64"
  obtains r1 r2 where "get_bits r m = (take_bit m x, r1)" and "get_bits r1 n = (take_bit n y, r2)"
    and "wf r2" and "pending r2 = rest"
  using assms by (metis bits_cases)

end

interpretation writer: bit_sink wf_writer writer_bits write_bit write_bits
  by unfold_locales (simp_all add: write_bit_correct write_bits_correct)

interpretation reader: bit_source wf_reader reader_bits read_bit read_bits
  by unfold_locales (simp_all add: read_bit_correct read_bits_correct)

text \<open>A reader on what a writer finished starts with what was written.\<close>

lemma reader_of_finished:
  assumes "wf_writer w"
  obtains pad where "reader_bits (br_new (bw_finish w)) = writer_bits w @ pad"
  using bw_finish_correct [OF assms] by (auto simp: reader_bits_new)

lemma write_first: "wf_writer (write_bits bw_new v n)" "writer_bits (write_bits bw_new v n) = value_bits v n"
  using write_bits_correct [OF wf_writer_new] by (simp_all add: writer_bits_new)

end
