(* ===== verification/Gorilla_Codec.thy ===== *)
theory Gorilla_Codec
  imports Bit_Stream Compressed_Column
begin

unbundle bit_operations_syntax

text \<open>
  Gorilla compression of floats and timestamps (\<^verbatim>\<open>src/compression/gorilla.rs\<close>). A float is its bit
  pattern (\<^verbatim>\<open>to_bits\<close>/\<^verbatim>\<open>from_bits\<close>), so the codec is exact on every value, NaN payloads and signed
  zeros included. The 64-bit and 32-bit float routines of the source differ in the word width and in
  the width of the two header fields (6 or 5 bits), so their loops are written once.
  Each encoder is first shown to write a given list of bits (\<open>xor_bits\<close>, \<open>dod_bits\<close>), each decoder to
  read the values back from that list.
\<close>

section \<open>Floats\<close>

fun xor_encode_loop :: "nat \<Rightarrow> BitWriter \<Rightarrow> 'w::len word \<Rightarrow> nat \<Rightarrow> nat \<Rightarrow> 'w word list \<Rightarrow> BitWriter" where
  "xor_encode_loop field_bits writer prev_bits prev_leading prev_trailing [] = writer"
| "xor_encode_loop field_bits writer prev_bits prev_leading prev_trailing (bits # vals) =
     (let xor = prev_bits XOR bits
      in if xor = 0
         then xor_encode_loop field_bits (write_bit writer False) bits prev_leading prev_trailing vals
         else let writer = write_bit writer True;
                  leading = leading_zeros xor;
                  trailing = trailing_zeros xor
              in if prev_leading \<noteq> LENGTH('w) \<and> prev_leading \<le> leading \<and> prev_trailing \<le> trailing
                 then let writer = write_bit writer False;
                          meaningful = LENGTH('w) - prev_leading - prev_trailing;
                          writer = write_bits writer (ucast (drop_bit prev_trailing xor)) meaningful
                      in xor_encode_loop field_bits writer bits prev_leading prev_trailing vals
                 else let writer = write_bit writer True;
                          meaningful = LENGTH('w) - leading - trailing;
                          writer = write_bits writer (word_of_nat leading) field_bits;
                          writer = write_bits writer (word_of_nat meaningful) field_bits;
                          writer = write_bits writer (ucast (drop_bit trailing xor)) meaningful
                      in xor_encode_loop field_bits writer bits leading trailing vals)"

definition xor_encode :: "nat \<Rightarrow> 'w::len word list \<Rightarrow> bytes" where
  "xor_encode field_bits values =
     (case values of
        [] \<Rightarrow> []
      | v # vs \<Rightarrow>
          bw_finish (xor_encode_loop field_bits (write_bits bw_new (ucast v) LENGTH('w)) v LENGTH('w) 0 vs))"

fun xor_decode_loop :: "nat \<Rightarrow> BitReader \<Rightarrow> 'w::len word \<Rightarrow> nat \<Rightarrow> nat \<Rightarrow> nat \<Rightarrow> 'w word list" where
  "xor_decode_loop field_bits reader prev_bits prev_leading prev_trailing 0 = []"
| "xor_decode_loop field_bits reader prev_bits prev_leading prev_trailing (Suc n) =
     (let (changed, reader) = read_bit reader
      in if \<not> changed
         then prev_bits # xor_decode_loop field_bits reader prev_bits prev_leading prev_trailing n
         else let (new_window, reader) = read_bit reader
              in if \<not> new_window
                 then let meaningful = sub_u8 (sub_u8 LENGTH('w) prev_leading) prev_trailing;
                          (xor_meaningful, reader) = read_bits reader meaningful;
                          prev_bits = prev_bits XOR shl (ucast xor_meaningful) prev_trailing
                      in prev_bits # xor_decode_loop field_bits reader prev_bits prev_leading prev_trailing n
                 else let (lead, reader) = read_bits reader field_bits;
                          leading = unat lead;
                          (len, reader) = read_bits reader field_bits;
                          meaningful = (if len = 0 then LENGTH('w) else unat len);
                          trailing = sub_u8 (sub_u8 LENGTH('w) leading) meaningful;
                          (xor_meaningful, reader) = read_bits reader meaningful;
                          prev_bits = prev_bits XOR shl (ucast xor_meaningful) trailing
                      in prev_bits # xor_decode_loop field_bits reader prev_bits leading trailing n)"

definition xor_decode :: "nat \<Rightarrow> bytes \<Rightarrow> nat \<Rightarrow> 'w::len word list" where
  "xor_decode field_bits buf count =
     (if count = 0 then []
      else let (first_bits, reader) = read_bits (br_new buf) LENGTH('w);
               first = ucast first_bits
           in first # xor_decode_loop field_bits reader first 0 0 (count - 1))"

definition encode_floats :: "u64 list \<Rightarrow> bytes" where
  "encode_floats = xor_encode 6"

definition decode_floats_each :: "bytes \<Rightarrow> nat \<Rightarrow> u64 list" where
  "decode_floats_each = xor_decode 6"

definition decode_floats :: "bytes \<Rightarrow> nat \<Rightarrow> u64 list" where
  "decode_floats buf count = decode_floats_each buf count"

definition encode_floats_f32 :: "u32 list \<Rightarrow> bytes" where
  "encode_floats_f32 = xor_encode 5"

definition decode_floats_f32_each :: "bytes \<Rightarrow> nat \<Rightarrow> u32 list" where
  "decode_floats_f32_each = xor_decode 5"

definition decode_floats_f32 :: "bytes \<Rightarrow> nat \<Rightarrow> u32 list" where
  "decode_floats_f32 buf count = decode_floats_f32_each buf count"

subsection \<open>The bits of a float stream\<close>

text \<open>A window is the number of leading and trailing zeros outside it; \<^const>\<open>None\<close> before the first.\<close>

definition in_window :: "(nat \<times> nat) option \<Rightarrow> 'w::len word \<Rightarrow> bool" where
  "in_window win x = (case win of None \<Rightarrow> False | Some (l, t) \<Rightarrow> l \<le> leading_zeros x \<and> t \<le> trailing_zeros x)"

definition window_bits :: "nat \<times> nat \<Rightarrow> 'w::len word \<Rightarrow> bool list" where
  "window_bits win x = value_bits (ucast (drop_bit (snd win) x) :: u64) (LENGTH('w) - fst win - snd win)"

fun xor_bits :: "nat \<Rightarrow> 'w::len word \<Rightarrow> (nat \<times> nat) option \<Rightarrow> 'w word list \<Rightarrow> bool list" where
  "xor_bits f prev win [] = []"
| "xor_bits f prev win (v # vs) =
     (let x = prev XOR v; own = (leading_zeros x, trailing_zeros x)
      in if x = 0 then False # xor_bits f v win vs
         else if in_window win x then [True, False] @ window_bits (the win) x @ xor_bits f v win vs
         else [True, True] @ value_bits (word_of_nat (fst own) :: u64) f
              @ value_bits (word_of_nat (LENGTH('w) - fst own - snd own) :: u64) f
              @ window_bits own x @ xor_bits f v (Some own) vs)"

definition wf_window :: "nat \<Rightarrow> nat \<times> nat \<Rightarrow> bool" where
  "wf_window W win \<longleftrightarrow> fst win + snd win < W"

lemma own_window:
  assumes "x \<noteq> (0 :: 'w::len word)"
  shows "wf_window LENGTH('w) (leading_zeros x, trailing_zeros x)"
  using trailing_zeros_bit [OF leading_zeros_top(2) [OF assms]] leading_zeros_top(1) [OF assms]
  by (simp add: wf_window_def)

text \<open>The encoder's sentinel \<^verbatim>\<open>prev_leading = 64\<close> is the absent window.\<close>

definition window_state :: "nat \<Rightarrow> (nat \<times> nat) option \<Rightarrow> nat \<Rightarrow> nat \<Rightarrow> bool" where
  "window_state W win l t = (case win of None \<Rightarrow> l = W | Some (l', t') \<Rightarrow> l = l' \<and> t = t' \<and> wf_window W (l', t'))"

lemma xor_encode_loop_writes:
  assumes "wf_writer w" and "window_state LENGTH('w) win l t"
  shows "wf_writer (xor_encode_loop f w (prev :: 'w::len word) l t vs)
    \<and> writer_bits (xor_encode_loop f w prev l t vs) = writer_bits w @ xor_bits f prev win vs"
  using assms
proof (induction f w prev l t vs arbitrary: win rule: xor_encode_loop.induct)
  case (2 f w prev l t v vs)
  let ?x = "prev XOR v"
  consider (same) "?x = 0"
    | (old) "?x \<noteq> 0" "l \<noteq> LENGTH('w) \<and> l \<le> leading_zeros ?x \<and> t \<le> trailing_zeros ?x"
    | (own) "?x \<noteq> 0" "\<not> (l \<noteq> LENGTH('w) \<and> l \<le> leading_zeros ?x \<and> t \<le> trailing_zeros ?x)" by blast
  then show ?case
  proof cases
    case same
    with 2 show ?thesis by simp
  next
    case old
    with 2(5) have win: "in_window win ?x" "the win = (l, t)"
      by (auto simp: window_state_def in_window_def split: option.splits)
    with old 2(4,5) 2(2) [OF refl old(1) refl refl refl old(2) refl refl refl, of win] show ?thesis
      by (simp add: Let_def window_bits_def)
  next
    case own
    with 2(5) have win: "\<not> in_window win ?x"
      by (auto simp: window_state_def in_window_def wf_window_def split: option.splits)
    have "window_state LENGTH('w) (Some (leading_zeros ?x, trailing_zeros ?x)) (leading_zeros ?x) (trailing_zeros ?x)"
      using own_window [OF own(1)] by (simp add: window_state_def)
    with own 2(4) win 2(3) [OF refl own(1) refl refl refl own(2) refl refl refl refl refl] show ?thesis
      by (auto simp: Let_def window_bits_def)
  qed
qed simp

lemma window_restore:
  fixes x :: "'w::len word"
  assumes "wf_window LENGTH('w) (l, t)" and "l \<le> leading_zeros x" and "t \<le> trailing_zeros x"
    and "LENGTH('w) \<le> 64"
  shows "shl (ucast (take_bit (LENGTH('w) - l - t) (ucast (drop_bit t x) :: u64))) t = x"
proof (rule bit_word_eqI)
  fix j
  assume j: "j < LENGTH('w)"
  have t: "t < LENGTH('w)" using assms(1) by (simp add: wf_window_def)
  have "t \<le> j \<and> j - t < LENGTH('w) - l - t" if "bit x j"
    using leading_zeros_bit [OF that] trailing_zeros_bit [OF that] assms(2,3) by linarith
  then show "bit (shl (ucast (take_bit (LENGTH('w) - l - t) (ucast (drop_bit t x) :: u64)) :: 'w word) t) j = bit x j"
    using j t assms(4)
    by (auto simp: shl_def bit_push_bit_iff bit_ucast_iff bit_take_bit_iff bit_drop_bit_eq)
qed

lemma header_field:
  assumes "n < 2 ^ f" and "f \<le> 64"
  shows "unat (take_bit f (word_of_nat n :: u64)) = n"
proof -
  have "(2::nat) ^ f \<le> 2 ^ 64" using assms(2) by (rule power_increasing) simp
  with assms(1) have "n < 2 ^ 64" by linarith
  then show ?thesis using assms(1) by (simp add: unsigned_take_bit_eq unsigned_of_nat take_bit_nat_eq_self)
qed

lemma xor_decode_loop_reads:
  assumes "wf_reader r" and "reader_bits r = xor_bits f (prev :: 'w::len word) win vs @ rest"
    and "\<And>l' t'. win = Some (l', t') \<Longrightarrow> l = l' \<and> t = t' \<and> wf_window LENGTH('w) (l', t')"
    and W: "LENGTH('w) = 2 ^ f" "LENGTH('w) \<le> 64"
  shows "xor_decode_loop f r prev l t (length vs) = vs"
  using assms(1-3)
proof (induction vs arbitrary: r prev l t win)
  case (Cons v vs)
  let ?x = "prev XOR v"
  have undo: "prev XOR ?x = v" by (simp add: xor.assoc [symmetric])
  have f: "f \<le> 64" using W by (metis le_trans less_exp less_imp_le_nat)
  show ?case
  proof (cases "?x = 0")
    case True
    with undo have "prev = v" by simp
    from True Cons.prems(2) have "reader_bits r = False # xor_bits f v win vs @ rest" by simp
    then obtain r1 where "read_bit r = (False, r1)" "wf_reader r1" "reader_bits r1 = xor_bits f v win vs @ rest"
      by (rule reader.bit_cases [OF Cons.prems(1)])
    with Cons.IH [of r1 v win] Cons.prems(3) \<open>prev = v\<close> show ?thesis by simp
  next
    case nz: False
    show ?thesis
    proof (cases "in_window win ?x")
      case True
      then obtain l' t' where win: "win = Some (l', t')" by (auto simp: in_window_def split: option.splits)
      with Cons.prems(3) have lt: "l' = l" "t' = t" "wf_window LENGTH('w) (l, t)" by auto
      have m: "sub_u8 (sub_u8 LENGTH('w) l) t = LENGTH('w) - l - t" "LENGTH('w) - l - t \<le> 64"
        using lt(3) W(2) by (simp_all add: wf_window_def)
      obtain r1 where r1: "read_bit r = (True, r1)" "wf_reader r1"
        "reader_bits r1 = False # window_bits (l, t) ?x @ xor_bits f v win vs @ rest"
        using reader.bit_cases [OF Cons.prems(1)] Cons.prems(2) nz True win lt by (auto simp: Let_def)
      then obtain r2 where r2: "read_bit r1 = (False, r2)" "wf_reader r2"
        "reader_bits r2 = window_bits (l, t) ?x @ xor_bits f v win vs @ rest"
        by (metis reader.bit_cases)
      then obtain r3 where r3: "read_bits r2 (LENGTH('w) - l - t)
          = (take_bit (LENGTH('w) - l - t) (ucast (drop_bit t ?x)), r3)" "wf_reader r3"
        "reader_bits r3 = xor_bits f v win vs @ rest"
        using reader.bits_cases [OF r2(2) _ m(2), of "ucast (drop_bit t ?x)"] by (auto simp: window_bits_def)
      have "shl (ucast (take_bit (LENGTH('w) - l - t) (ucast (drop_bit t ?x) :: u64))) t = ?x"
        using True win lt W(2) by (intro window_restore) (simp_all add: in_window_def)
      with Cons.IH [OF r3(2,3)] Cons.prems(3) r1(1) r2(1) r3(1) m(1) undo show ?thesis
        by (simp add: Let_def del: drop_bit_xor)
    next
      case False
      define l' where "l' = leading_zeros ?x"
      define t' where "t' = trailing_zeros ?x"
      have wf: "wf_window LENGTH('w) (l', t')" using own_window [OF nz] by (simp add: l'_def t'_def)
      define m where "m = LENGTH('w) - l' - t'"
      have m: "0 < m" "m \<le> 64" "m \<le> 2 ^ f" "sub_u8 (sub_u8 LENGTH('w) l') m = t'" "l' < 2 ^ f"
        using wf W by (auto simp: wf_window_def m_def)
      obtain r1 where r1: "read_bit r = (True, r1)" "wf_reader r1"
        "reader_bits r1 = True # value_bits (word_of_nat l' :: u64) f @ value_bits (word_of_nat m :: u64) f
            @ window_bits (l', t') ?x @ xor_bits f v (Some (l', t')) vs @ rest"
        using reader.bit_cases [OF Cons.prems(1)] Cons.prems(2) nz False by (auto simp: Let_def l'_def t'_def m_def)
      then obtain r2 where r2: "read_bit r1 = (True, r2)" "wf_reader r2"
        "reader_bits r2 = value_bits (word_of_nat l' :: u64) f @ value_bits (word_of_nat m :: u64) f
            @ window_bits (l', t') ?x @ xor_bits f v (Some (l', t')) vs @ rest"
        by (metis reader.bit_cases)
      obtain r3 r4 where r4: "read_bits r2 f = (take_bit f (word_of_nat l'), r3)"
        "read_bits r3 f = (take_bit f (word_of_nat m), r4)" "wf_reader r4"
        "reader_bits r4 = window_bits (l', t') ?x @ xor_bits f v (Some (l', t')) vs @ rest"
        by (rule reader.bits_bits_cases [OF r2(2,3) f f])
      obtain r5 where r5: "read_bits r4 m = (take_bit m (ucast (drop_bit t' ?x)), r5)" "wf_reader r5"
        "reader_bits r5 = xor_bits f v (Some (l', t')) vs @ rest"
        using reader.bits_cases [OF r4(3) _ m(2), of "ucast (drop_bit t' ?x)"] r4(4)
        by (auto simp: window_bits_def m_def)
      have len: "(if take_bit f (word_of_nat m :: u64) = 0 then LENGTH('w) else unat (take_bit f (word_of_nat m :: u64))) = m"
      proof (cases "m = 2 ^ f")
        case True
        then have "take_bit f (word_of_nat m :: u64) = 0"
          by (intro bit_word_eqI) (simp add: bit_take_bit_iff bit_exp_iff)
        with True W show ?thesis by simp
      next
        case False
        with m(3) have "unat (take_bit f (word_of_nat m :: u64)) = m" using f by (intro header_field) auto
        with m(1) show ?thesis by auto
      qed
      have lead: "unat (take_bit f (word_of_nat l' :: u64)) = l'" using m(5) f by (rule header_field)
      have x: "shl (ucast (take_bit m (ucast (drop_bit t' ?x) :: u64))) t' = ?x"
        unfolding m_def using wf W(2) by (intro window_restore) (simp_all add: l'_def t'_def)
      have "xor_decode_loop f r5 v l' t' (length vs) = vs"
        using Cons.IH [OF r5(2,3)] wf by auto
      with r1(1) r2(1) r4(1,2) r5(1) len lead m(4) x undo show ?thesis
        by (simp add: Let_def del: drop_bit_xor take_bit_xor)
    qed
  qed
qed simp

lemma xor_decode_encode:
  fixes vs :: "'w::len word list"
  assumes W: "LENGTH('w) = 2 ^ f" "LENGTH('w) \<le> 64"
  shows "xor_decode f (xor_encode f vs) (length vs) = vs"
proof (cases vs)
  case (Cons v ws)
  let ?init = "write_bits bw_new (ucast v :: u64) LENGTH('w)"
  let ?w = "xor_encode_loop f ?init v LENGTH('w) 0 ws"
  have w: "wf_writer ?w" "writer_bits ?w = value_bits (ucast v :: u64) LENGTH('w) @ xor_bits f v None ws"
    using xor_encode_loop_writes [of ?init None "LENGTH('w)" 0 f v ws]
    by (simp_all add: window_state_def write_first)
  obtain pad where pad: "reader_bits (br_new (bw_finish ?w)) = writer_bits ?w @ pad"
    using reader_of_finished [OF w(1)] .
  have "reader_bits (br_new (bw_finish ?w)) = value_bits (ucast v :: u64) LENGTH('w) @ xor_bits f v None ws @ pad"
    using pad w(2) by simp
  then obtain r where r: "read_bits (br_new (bw_finish ?w)) LENGTH('w) = (take_bit LENGTH('w) (ucast v), r)"
    "wf_reader r" "reader_bits r = xor_bits f v None ws @ pad"
    by (rule reader.bits_cases [OF wf_reader_new _ W(2)])
  have "ucast (take_bit LENGTH('w) (ucast v :: u64)) = v"
    using W(2) by (intro bit_word_eqI) (simp add: bit_ucast_iff bit_take_bit_iff)
  moreover have "xor_decode_loop f r v 0 0 (length ws) = ws"
    by (rule xor_decode_loop_reads [OF r(2,3) _ W]) simp
  ultimately show ?thesis using Cons r(1) by (simp add: xor_decode_def xor_encode_def)
qed (simp add: xor_decode_def)

lemma decode_encode_floats [simp, roundtrips]: "decode_floats (encode_floats vs) (length vs) = vs"
  unfolding decode_floats_def decode_floats_each_def encode_floats_def by (rule xor_decode_encode) simp_all

lemma decode_encode_floats_f32 [simp, roundtrips]: "decode_floats_f32 (encode_floats_f32 vs) (length vs) = vs"
  unfolding decode_floats_f32_def decode_floats_f32_each_def encode_floats_f32_def
  by (rule xor_decode_encode) simp_all

section \<open>Timestamps\<close>

definition sign_extend :: "u64 \<Rightarrow> nat \<Rightarrow> i64" where
  "sign_extend val bits = (let shift = 64 - bits in signed_drop_bit shift (push_bit shift val))"

definition contains :: "int \<Rightarrow> int \<Rightarrow> i64 \<Rightarrow> bool" where
  "contains lo hi d \<longleftrightarrow> lo \<le> sint d \<and> sint d \<le> hi"

definition write_dod :: "BitWriter \<Rightarrow> i64 \<Rightarrow> BitWriter" where
  "write_dod writer dod =
     (if dod = 0 then write_bit writer False
      else if contains (-64) 63 dod then write_bits (write_bits writer 0b10 2) dod 7
      else if contains (-256) 255 dod then write_bits (write_bits writer 0b110 3) dod 9
      else if contains (-2048) 2047 dod then write_bits (write_bits writer 0b1110 4) dod 12
      else write_bits (write_bits writer 0b1111 4) dod 64)"

fun encode_timestamps_loop :: "BitWriter \<Rightarrow> i64 \<Rightarrow> i64 \<Rightarrow> i64 list \<Rightarrow> BitWriter" where
  "encode_timestamps_loop writer prev prev_delta [] = writer"
| "encode_timestamps_loop writer prev prev_delta (v # vs) =
     (let delta = v - prev; dod = delta - prev_delta
      in encode_timestamps_loop (write_dod writer dod) v delta vs)"

definition encode_timestamps :: "i64 list \<Rightarrow> bytes" where
  "encode_timestamps values =
     (case values of
        [] \<Rightarrow> []
      | [v0] \<Rightarrow> bw_finish (write_bits bw_new v0 64)
      | v0 # v1 # vs \<Rightarrow>
          let writer = write_bits bw_new v0 64; prev_delta = v1 - v0;
              writer = write_bits writer prev_delta 64
          in bw_finish (encode_timestamps_loop writer v1 prev_delta vs))"

definition read_dod :: "BitReader \<Rightarrow> i64 \<times> BitReader" where
  "read_dod reader =
     (let (b1, reader) = read_bit reader in
      if \<not> b1 then (0, reader)
      else let (b2, reader) = read_bit reader in
      if \<not> b2 then let (v, reader) = read_bits reader 7 in (sign_extend v 7, reader)
      else let (b3, reader) = read_bit reader in
      if \<not> b3 then let (v, reader) = read_bits reader 9 in (sign_extend v 9, reader)
      else let (b4, reader) = read_bit reader in
      if \<not> b4 then let (v, reader) = read_bits reader 12 in (sign_extend v 12, reader)
      else read_bits reader 64)"

fun decode_timestamps_loop :: "BitReader \<Rightarrow> i64 \<Rightarrow> i64 \<Rightarrow> nat \<Rightarrow> i64 list" where
  "decode_timestamps_loop reader cur prev_delta 0 = []"
| "decode_timestamps_loop reader cur prev_delta (Suc n) =
     (let (dod, reader) = read_dod reader;
          prev_delta = prev_delta + dod;
          cur = cur + prev_delta
      in cur # decode_timestamps_loop reader cur prev_delta n)"

definition decode_timestamps_each :: "bytes \<Rightarrow> nat \<Rightarrow> i64 list" where
  "decode_timestamps_each buf count =
     (if count = 0 then []
      else let (first, reader) = read_bits (br_new buf) 64
           in if count = 1 then [first]
              else let (prev_delta, reader) = read_bits reader 64;
                       cur = first + prev_delta
                   in first # cur # decode_timestamps_loop reader cur prev_delta (count - 2))"

definition decode_timestamps :: "bytes \<Rightarrow> nat \<Rightarrow> i64 list" where
  "decode_timestamps buf count = decode_timestamps_each buf count"

subsection \<open>The bits of a timestamp stream\<close>

definition dod_bits :: "i64 \<Rightarrow> bool list" where
  "dod_bits dod =
     (if dod = 0 then [False]
      else if contains (-64) 63 dod then [True, False] @ value_bits dod 7
      else if contains (-256) 255 dod then [True, True, False] @ value_bits dod 9
      else if contains (-2048) 2047 dod then [True, True, True, False] @ value_bits dod 12
      else [True, True, True, True] @ value_bits dod 64)"

lemma prefix_bits:
  "value_bits (0b10 :: u64) 2 = [True, False]"
  "value_bits (0b110 :: u64) 3 = [True, True, False]"
  "value_bits (0b1110 :: u64) 4 = [True, True, True, False]"
  "value_bits (0b1111 :: u64) 4 = [True, True, True, True]"
  by (simp_all add: value_bits_def upt_rec)

lemma write_dod_correct:
  "wf_writer w \<Longrightarrow> wf_writer (write_dod w d) \<and> writer_bits (write_dod w d) = writer_bits w @ dod_bits d"
  by (simp add: write_dod_def dod_bits_def prefix_bits)

lemma sign_extend_take_bit:
  assumes "0 < b" and "b \<le> 64" and "- (2 ^ (b - 1)) \<le> sint d" and "sint d < 2 ^ (b - 1)"
  shows "sign_extend (take_bit b d) b = d"
proof (rule bit_word_eqI)
  fix j
  assume j: "j < LENGTH(64)"
  have eq: "signed_take_bit (b - 1) (sint d) = sint d"
    using assms(3,4) by (simp add: signed_take_bit_int_eq_self)
  have s: "bit (sint d) k = bit (sint d) (min k (b - 1))" for k
    using arg_cong [OF eq, of "\<lambda>i. bit i k"] by (simp add: bit_signed_take_bit_iff min.commute)
  have d: "bit d k = bit (sint d) k" if "k < 64" for k
  proof -
    from that have "min 63 k = k" by simp
    then show ?thesis by (simp add: bit_signed_iff)
  qed
  have "bit (sign_extend (take_bit b d) b) j = bit d (min j (b - 1))"
    using j assms(1,2) by (auto simp: sign_extend_def Let_def bit_signed_drop_bit_iff bit_push_bit_iff bit_take_bit_iff min_def)
  also have "\<dots> = bit (sint d) (min j (b - 1))" using assms(2) by (intro d) auto
  also have "\<dots> = bit d j" using s [of j] d [of j] j by simp
  finally show "bit (sign_extend (take_bit b d) b) j = bit d j" .
qed

lemma dod_fits:
  "contains (-64) 63 d \<Longrightarrow> sign_extend (take_bit 7 d) 7 = d"
  "contains (-256) 255 d \<Longrightarrow> sign_extend (take_bit 9 d) 9 = d"
  "contains (-2048) 2047 d \<Longrightarrow> sign_extend (take_bit 12 d) 12 = d"
  by (intro sign_extend_take_bit; simp add: contains_def)+

lemma read_dod_correct:
  assumes wf: "wf_reader r" and bits: "reader_bits r = dod_bits d @ rest"
  obtains r' where "read_dod r = (d, r')" and "wf_reader r'" and "reader_bits r' = rest"
proof -
  consider (d0) "d = 0" | (d7) "d \<noteq> 0" "contains (-64) 63 d"
    | (d9) "d \<noteq> 0" "\<not> contains (-64) 63 d" "contains (-256) 255 d"
    | (d12) "d \<noteq> 0" "\<not> contains (-64) 63 d" "\<not> contains (-256) 255 d" "contains (-2048) 2047 d"
    | (d64) "d \<noteq> 0" "\<not> contains (-64) 63 d" "\<not> contains (-256) 255 d" "\<not> contains (-2048) 2047 d" by blast
  then show thesis
  proof cases
    case d0
    with bits have "reader_bits r = False # rest" by (simp add: dod_bits_def)
    then obtain r1 where "read_bit r = (False, r1)" "wf_reader r1" "reader_bits r1 = rest"
      by (rule reader.bit_cases [OF wf])
    with d0 that show thesis by (simp add: read_dod_def)
  next
    case d7
    with bits have "reader_bits r = True # False # value_bits d 7 @ rest" by (simp add: dod_bits_def)
    then obtain r1 r2 where r2: "read_bit r = (True, r1)" "read_bit r1 = (False, r2)" "wf_reader r2"
      "reader_bits r2 = value_bits d 7 @ rest" by (rule reader.bit_bit_cases [OF wf])
    obtain r3 where "read_bits r2 7 = (take_bit 7 d, r3)" "wf_reader r3" "reader_bits r3 = rest"
      by (rule reader.bits_cases [OF r2(3,4)]) simp
    with r2 that d7 show thesis by (simp add: read_dod_def dod_fits)
  next
    case d9
    with bits have "reader_bits r = True # True # False # value_bits d 9 @ rest" by (simp add: dod_bits_def)
    then obtain r1 r2 where r2: "read_bit r = (True, r1)" "read_bit r1 = (True, r2)" "wf_reader r2"
      "reader_bits r2 = False # value_bits d 9 @ rest" by (rule reader.bit_bit_cases [OF wf])
    obtain r3 where r3: "read_bit r2 = (False, r3)" "wf_reader r3" "reader_bits r3 = value_bits d 9 @ rest"
      by (rule reader.bit_cases [OF r2(3,4)])
    obtain r4 where "read_bits r3 9 = (take_bit 9 d, r4)" "wf_reader r4" "reader_bits r4 = rest"
      by (rule reader.bits_cases [OF r3(2,3)]) simp
    with r2 r3 that d9 show thesis by (simp add: read_dod_def dod_fits)
  next
    case d12
    with bits have "reader_bits r = True # True # True # False # value_bits d 12 @ rest" by (simp add: dod_bits_def)
    then obtain r1 r2 where r2: "read_bit r = (True, r1)" "read_bit r1 = (True, r2)" "wf_reader r2"
      "reader_bits r2 = True # False # value_bits d 12 @ rest" by (rule reader.bit_bit_cases [OF wf])
    obtain r3 r4 where r4: "read_bit r2 = (True, r3)" "read_bit r3 = (False, r4)" "wf_reader r4"
      "reader_bits r4 = value_bits d 12 @ rest" by (rule reader.bit_bit_cases [OF r2(3,4)])
    obtain r5 where "read_bits r4 12 = (take_bit 12 d, r5)" "wf_reader r5" "reader_bits r5 = rest"
      by (rule reader.bits_cases [OF r4(3,4)]) simp
    with r2 r4 that d12 show thesis by (simp add: read_dod_def dod_fits)
  next
    case d64
    with bits have "reader_bits r = True # True # True # True # value_bits d 64 @ rest" by (simp add: dod_bits_def)
    then obtain r1 r2 where r2: "read_bit r = (True, r1)" "read_bit r1 = (True, r2)" "wf_reader r2"
      "reader_bits r2 = True # True # value_bits d 64 @ rest" by (rule reader.bit_bit_cases [OF wf])
    obtain r3 r4 where r4: "read_bit r2 = (True, r3)" "read_bit r3 = (True, r4)" "wf_reader r4"
      "reader_bits r4 = value_bits d 64 @ rest" by (rule reader.bit_bit_cases [OF r2(3,4)])
    obtain r5 where "read_bits r4 64 = (take_bit 64 d, r5)" "wf_reader r5" "reader_bits r5 = rest"
      by (rule reader.bits_cases [OF r4(3,4)]) simp
    with r2 r4 that show thesis by (simp add: read_dod_def take_bit_word_eq_self)
  qed
qed

fun timestamp_bits :: "i64 \<Rightarrow> i64 \<Rightarrow> i64 list \<Rightarrow> bool list" where
  "timestamp_bits prev prev_delta [] = []"
| "timestamp_bits prev prev_delta (v # vs) = dod_bits (v - prev - prev_delta) @ timestamp_bits v (v - prev) vs"

lemma encode_timestamps_loop_writes:
  "wf_writer w \<Longrightarrow> wf_writer (encode_timestamps_loop w prev pd vs)
    \<and> writer_bits (encode_timestamps_loop w prev pd vs) = writer_bits w @ timestamp_bits prev pd vs"
  by (induction w prev pd vs rule: encode_timestamps_loop.induct) (simp_all add: write_dod_correct Let_def)

lemma decode_timestamps_loop_reads:
  assumes "wf_reader r" and "reader_bits r = timestamp_bits cur pd vs @ rest"
  shows "decode_timestamps_loop r cur pd (length vs) = vs"
  using assms
proof (induction vs arbitrary: r cur pd)
  case (Cons v vs)
  from Cons.prems(2) have "reader_bits r = dod_bits (v - cur - pd) @ timestamp_bits v (v - cur) vs @ rest" by simp
  then obtain r1 where "read_dod r = (v - cur - pd, r1)" "wf_reader r1"
    "reader_bits r1 = timestamp_bits v (v - cur) vs @ rest" by (rule read_dod_correct [OF Cons.prems(1)])
  with Cons.IH [of r1 v "v - cur"] show ?case by simp
qed simp

lemma decode_encode_timestamps [simp, roundtrips]: "decode_timestamps (encode_timestamps vs) (length vs) = vs"
proof -
  consider "vs = []" | v where "vs = [v]" | v0 v1 ws where "vs = v0 # v1 # ws"
    by (cases vs rule: remdups_adj.cases) auto
  then show ?thesis
  proof cases
    case (2 v)
    obtain pad where "reader_bits (br_new (bw_finish (write_bits bw_new v 64))) = value_bits v 64 @ pad"
      using reader_of_finished [OF write_first(1)] write_first(2) by metis
    then obtain r where "read_bits (br_new (bw_finish (write_bits bw_new v 64))) 64 = (take_bit 64 v, r)"
      by (rule reader.bits_cases [OF wf_reader_new]) simp
    with 2 show ?thesis
      by (simp add: decode_timestamps_def decode_timestamps_each_def encode_timestamps_def take_bit_word_eq_self)
  next
    case (3 v0 v1 ws)
    let ?w = "encode_timestamps_loop (write_bits (write_bits bw_new v0 64) (v1 - v0) 64) v1 (v1 - v0) ws"
    have w: "wf_writer ?w" "writer_bits ?w = value_bits v0 64 @ value_bits (v1 - v0) 64 @ timestamp_bits v1 (v1 - v0) ws"
      by (simp_all add: encode_timestamps_loop_writes write_first)
    then obtain pad where "reader_bits (br_new (bw_finish ?w))
        = value_bits v0 64 @ value_bits (v1 - v0) 64 @ timestamp_bits v1 (v1 - v0) ws @ pad"
      using reader_of_finished [OF w(1)] by auto
    then obtain r1 r2 where r: "read_bits (br_new (bw_finish ?w)) 64 = (take_bit 64 v0, r1)"
      "read_bits r1 64 = (take_bit 64 (v1 - v0), r2)" "wf_reader r2"
      "reader_bits r2 = timestamp_bits v1 (v1 - v0) ws @ pad"
      by (rule reader.bits_bits_cases [OF wf_reader_new]) simp_all
    from decode_timestamps_loop_reads [OF r(3,4)] r(1,2) 3 show ?thesis
      by (simp add: decode_timestamps_def decode_timestamps_each_def encode_timestamps_def take_bit_word_eq_self Let_def)
  qed (simp add: decode_timestamps_def decode_timestamps_each_def)
qed

section \<open>As value codecs\<close>

definition gorilla_tagged :: "('a list \<Rightarrow> bytes) \<Rightarrow> 'a list \<Rightarrow> (CompressionType \<times> bytes) option" where
  "gorilla_tagged encode vs = Some (Gorilla, encode vs)"

definition gorilla_untagged :: "(bytes \<Rightarrow> nat \<Rightarrow> 'a list) \<Rightarrow> CompressionType \<Rightarrow> bytes \<Rightarrow> nat \<Rightarrow> 'a list option" where
  "gorilla_untagged decode tag payload n = (if tag = Gorilla then Some (decode payload n) else None)"

interpretation f64_codec: value_codec "gorilla_tagged encode_floats" "gorilla_untagged decode_floats" "\<lambda>_. True"
  by unfold_locales (simp add: gorilla_tagged_def gorilla_untagged_def)

interpretation f32_codec: value_codec "gorilla_tagged encode_floats_f32" "gorilla_untagged decode_floats_f32" "\<lambda>_. True"
  by unfold_locales (simp add: gorilla_tagged_def gorilla_untagged_def)

interpretation timestamp_codec:
  value_codec "gorilla_tagged encode_timestamps" "gorilla_untagged decode_timestamps" "\<lambda>_. True"
  by unfold_locales (simp add: gorilla_tagged_def gorilla_untagged_def)

end
