(* ===== verification/Dictionary_Codec.thy ===== *)
theory Dictionary_Codec
  imports Lz4_Codec "HOL-Library.List_Lexorder"
begin

unbundle bit_operations_syntax

text \<open>
  Dictionary coding of low-cardinality text and byte columns (\<^verbatim>\<open>src/compression/dictionary.rs\<close>): the
  plain format, the variant with an LZ4-compressed dictionary, the flat decoders and the helpers that
  answer predicates from the dictionary alone. A \<^verbatim>\<open>HashMap\<close> is a partial map and the strings sort by
  bytes, as \<^verbatim>\<open>str\<close> does.
\<close>

section \<open>Encoding\<close>

fun uniq_loop :: "bytes list \<Rightarrow> bytes list \<Rightarrow> bytes list option" where
  "uniq_loop uniq [] = Some uniq"
| "uniq_loop uniq (v # vs) =
     (let uniq' = List.insert v uniq in if 65535 < length uniq' then None else uniq_loop uniq' vs)"

definition should_use_dictionary :: "bytes list \<Rightarrow> bool" where
  "should_use_dictionary values =
     (if values = [] then True
      else case uniq_loop [] values of
        None \<Rightarrow> False
      | Some uniq \<Rightarrow> let cardinality = length uniq
                     in cardinality < 65536 \<and> cardinality \<le> max (length values div 2) 1)"

fun build_dict :: "(bytes \<rightharpoonup> u16) \<Rightarrow> bytes list \<Rightarrow> bytes list \<Rightarrow> (bytes \<rightharpoonup> u16) \<times> bytes list" where
  "build_dict dict dict_entries [] = (dict, dict_entries)"
| "build_dict dict dict_entries (v # vs) =
     (if dict v = None
      then build_dict (dict(v \<mapsto> word_of_nat (length dict_entries))) (dict_entries @ [v]) vs
      else build_dict dict dict_entries vs)"

definition index_width_for :: "nat \<Rightarrow> u8" where
  "index_width_for dict_size = (if dict_size \<le> 255 then 1 else 2)"

definition empty_string_idx_of :: "bytes list \<Rightarrow> u16" where
  "empty_string_idx_of entries =
     (case position (\<lambda>s. s = []) entries of Some i \<Rightarrow> word_of_nat i | None \<Rightarrow> 0xFFFF)"

definition index_bytes :: "u8 \<Rightarrow> u16 \<Rightarrow> bytes" where
  "index_bytes index_width idx = (if index_width = 1 then [ucast idx] else to_le 2 idx)"

definition dict_header_bytes :: "nat \<Rightarrow> u8 \<Rightarrow> u16 \<Rightarrow> bytes" where
  "dict_header_bytes dict_size index_width empty_string_idx =
     to_le 4 (word_of_nat dict_size :: u32) @ [index_width] @ to_le 2 empty_string_idx"

definition dict_encode :: "bytes list \<Rightarrow> bytes option" where
  "dict_encode values =
     (if values = [] then Some (dict_header_bytes 0 1 0xFFFF)
      else let (dict, dict_entries) = build_dict Map.empty [] values;
               dict_size = length dict_entries;
               index_width = index_width_for dict_size;
               empty_string_idx = empty_string_idx_of dict_entries
           in do {
             indices \<leftarrow> those (map dict values);
             Some (dict_header_bytes dict_size index_width empty_string_idx
                   @ pack_strings dict_entries
                   @ concat (map (index_bytes index_width) indices))
           })"

fun number_entries :: "nat \<Rightarrow> bytes list \<Rightarrow> (bytes \<rightharpoonup> u16) \<Rightarrow> (bytes \<rightharpoonup> u16)" where
  "number_entries i [] m = m"
| "number_entries i (e # es) m = number_entries (i + 1) es (m(e \<mapsto> word_of_nat i))"

definition dict_encode_lz4 :: "lz4_flex \<Rightarrow> bytes list \<Rightarrow> bytes option" where
  "dict_encode_lz4 L values =
     (if values = [] then Some (dict_header_bytes 0 1 0xFFFF @ to_le 4 (0 :: u32))
      else let (dict, dict_entries) = build_dict Map.empty [] values;
               sorted_entries = sort dict_entries;
               sorted_map = number_entries 0 sorted_entries Map.empty;
               dict_size = length sorted_entries;
               index_width = index_width_for dict_size;
               empty_string_idx = empty_string_idx_of sorted_entries;
               compressed = compress_prepend_size L (pack_strings sorted_entries)
           in do {
             remap \<leftarrow> those (map sorted_map dict_entries);
             old_indices \<leftarrow> those (map dict values);
             new_indices \<leftarrow> those (map (\<lambda>old_idx. index remap (unat old_idx)) old_indices);
             Some (dict_header_bytes dict_size index_width empty_string_idx
                   @ to_le 4 (word_of_nat (length compressed) :: u32) @ compressed
                   @ concat (map (index_bytes index_width) new_indices))
           })"

section \<open>Decoding\<close>

record DictHeader =
  dh_dict :: "bytes list"
  dh_index_width :: u8
  dh_empty_string_idx :: u16
  dh_indices_start :: nat

fun parse_entries :: "(bytes \<Rightarrow> bool) \<Rightarrow> bytes \<Rightarrow> nat \<Rightarrow> nat \<Rightarrow> (bytes list \<times> nat) option" where
  "parse_entries valid buf offset 0 = Some ([], offset)"
| "parse_entries valid buf offset (Suc n) = do {
     w \<leftarrow> read_le buf offset 4;
     let str_len = unat (w :: u32);
     s \<leftarrow> slice buf (offset + 4) (offset + 4 + str_len);
     _ \<leftarrow> (if valid s then Some () else None);
     (rest, fin) \<leftarrow> parse_entries valid buf (offset + 4 + str_len) n;
     Some (s # rest, fin)
   }"

definition parse_header :: "bytes \<Rightarrow> DictHeader option" where
  "parse_header buf = do {
     dict_size \<leftarrow> read_le buf 0 4;
     index_width \<leftarrow> index buf 4;
     empty_string_idx \<leftarrow> read_le buf 5 2;
     (dict, offset) \<leftarrow> parse_entries utf8_valid buf 7 (unat (dict_size :: u32));
     Some \<lparr>dh_dict = dict, dh_index_width = index_width, dh_empty_string_idx = empty_string_idx,
           dh_indices_start = offset\<rparr>
   }"

definition parse_header_bytes :: "bytes \<Rightarrow> (bytes list \<times> nat \<times> u8) option" where
  "parse_header_bytes buf = do {
     dict_size \<leftarrow> read_le buf 0 4;
     index_width \<leftarrow> index buf 4;
     (dict, offset) \<leftarrow> parse_entries (\<lambda>_. True) buf 7 (unat (dict_size :: u32));
     Some (dict, offset, index_width)
   }"

definition read_index :: "bytes \<Rightarrow> nat \<Rightarrow> u8 \<Rightarrow> nat \<Rightarrow> u16 option" where
  "read_index buf indices_start index_width row =
     (let pos = indices_start + row * unat index_width
      in if index_width = 1 then map_option ucast (index buf pos) else read_le buf pos 2)"

fun read_indices :: "bytes \<Rightarrow> nat \<Rightarrow> u8 \<Rightarrow> nat \<Rightarrow> nat \<Rightarrow> u16 list option" where
  "read_indices buf indices_start index_width i 0 = Some []"
| "read_indices buf indices_start index_width i (Suc n) = do {
     idx \<leftarrow> read_index buf indices_start index_width i;
     rest \<leftarrow> read_indices buf indices_start index_width (i + 1) n;
     Some (idx # rest)
   }"

definition resolve :: "bytes list \<Rightarrow> u16 list \<Rightarrow> bytes list option" where
  "resolve dict indices = those (map (\<lambda>idx. index dict (unat idx)) indices)"

definition decode_to_slices :: "bytes \<Rightarrow> nat \<Rightarrow> bytes list option" where
  "decode_to_slices buf count =
     (if count = 0 then Some []
      else do {
        hdr \<leftarrow> parse_header buf;
        indices \<leftarrow> read_indices buf (dh_indices_start hdr) (dh_index_width hdr) 0 count;
        resolve (dh_dict hdr) indices
      })"

definition decode_to_byte_slices :: "bytes \<Rightarrow> nat \<Rightarrow> bytes list option" where
  "decode_to_byte_slices buf count =
     (if count = 0 then Some []
      else do {
        (dict, indices_start, index_width) \<leftarrow> parse_header_bytes buf;
        indices \<leftarrow> read_indices buf indices_start index_width 0 count;
        resolve dict indices
      })"

definition decode_dict_and_indices :: "bytes \<Rightarrow> nat \<Rightarrow> (bytes list \<times> u16 list) option" where
  "decode_dict_and_indices buf count =
     (if count = 0 then Some ([], [])
      else do {
        hdr \<leftarrow> parse_header buf;
        indices \<leftarrow> read_indices buf (dh_indices_start hdr) (dh_index_width hdr) 0 count;
        Some (dh_dict hdr, indices)
      })"

definition dict_decode :: "bytes \<Rightarrow> nat \<Rightarrow> bytes list option" where
  "dict_decode buf count =
     (if count = 0 then Some []
      else do {
        hdr \<leftarrow> parse_header buf;
        indices \<leftarrow> read_indices buf (dh_indices_start hdr) (dh_index_width hdr) 0 count;
        resolve (dh_dict hdr) indices
      })"

text \<open>Flat decoding: the entries region in one buffer with 32-bit ranges into it.\<close>

record FlatDict =
  fd_buf :: bytes
  fd_entry_ranges :: "(u32 \<times> u32) list"

fun entry_ranges_loop :: "bytes \<Rightarrow> nat \<Rightarrow> nat \<Rightarrow> (u32 \<times> u32) list option" where
  "entry_ranges_loop blob off 0 = Some []"
| "entry_ranges_loop blob off (Suc n) = do {
     len \<leftarrow> read_le blob off 4;
     rest \<leftarrow> entry_ranges_loop blob (off + 4 + unat (len :: u32)) n;
     Some ((word_of_nat (off + 4), word_of_nat (unat len)) # rest)
   }"

definition entry_ranges_in :: "bytes \<Rightarrow> nat \<Rightarrow> (u32 \<times> u32) list option" where
  "entry_ranges_in blob dict_size = entry_ranges_loop blob 0 dict_size"

definition decode_flat :: "bytes \<Rightarrow> nat \<Rightarrow> (FlatDict \<times> u16 list) option" where
  "decode_flat buf count = do {
     dict_size \<leftarrow> read_le buf 0 4;
     index_width \<leftarrow> index buf 4;
     region \<leftarrow> slice_from buf 7;
     entry_ranges \<leftarrow> entry_ranges_in region (unat (dict_size :: u32));
     let entries_len = (if entry_ranges = [] then 0
                        else unat (fst (last entry_ranges) + snd (last entry_ranges)));
     entries \<leftarrow> slice buf 7 (7 + entries_len);
     indices \<leftarrow> read_indices buf (7 + entries_len) index_width 0 count;
     Some (\<lparr>fd_buf = entries, fd_entry_ranges = entry_ranges\<rparr>, indices)
   }"

definition inflate_entries :: "lz4_flex \<Rightarrow> bytes \<Rightarrow> nat \<Rightarrow> bytes option" where
  "inflate_entries L buf lz4_blob_len =
     (if 0 < lz4_blob_len
      then do { blob \<leftarrow> slice buf 11 (11 + lz4_blob_len); decompress_size_prepended L blob }
      else Some [])"

definition decode_flat_lz4 :: "lz4_flex \<Rightarrow> bytes \<Rightarrow> nat \<Rightarrow> (FlatDict \<times> u16 list) option" where
  "decode_flat_lz4 L buf count = do {
     dict_size \<leftarrow> read_le buf 0 4;
     index_width \<leftarrow> index buf 4;
     lz4_blob_len \<leftarrow> read_le buf 7 4;
     entries \<leftarrow> inflate_entries L buf (unat (lz4_blob_len :: u32));
     entry_ranges \<leftarrow> entry_ranges_in entries (unat (dict_size :: u32));
     indices \<leftarrow> read_indices buf (11 + unat lz4_blob_len) index_width 0 count;
     Some (\<lparr>fd_buf = entries, fd_entry_ranges = entry_ranges\<rparr>, indices)
   }"

definition normalize_lz4 :: "lz4_flex \<Rightarrow> bytes \<Rightarrow> bytes option" where
  "normalize_lz4 L buf = do {
     dict_size_bytes \<leftarrow> slice buf 0 4;
     index_width \<leftarrow> index buf 4;
     empty_string_idx_bytes \<leftarrow> slice buf 5 7;
     lz4_blob_len \<leftarrow> read_le buf 7 4;
     decompressed \<leftarrow> inflate_entries L buf (unat (lz4_blob_len :: u32));
     indices \<leftarrow> slice_from buf (11 + unat lz4_blob_len);
     Some (dict_size_bytes @ [index_width] @ empty_string_idx_bytes @ decompressed @ indices)
   }"

definition check_ne_empty :: "bytes \<Rightarrow> nat \<Rightarrow> bool list option" where
  "check_ne_empty buf count =
     (if count = 0 then Some []
      else do {
        hdr \<leftarrow> parse_header buf;
        if dh_empty_string_idx hdr = 0xFFFF then Some []
        else do {
          indices \<leftarrow> read_indices buf (dh_indices_start hdr) (dh_index_width hdr) 0 count;
          Some (map (\<lambda>idx. idx \<noteq> dh_empty_string_idx hdr) indices)
        }
      })"

definition any_entry_matches :: "bytes \<Rightarrow> (bytes \<Rightarrow> bool) \<Rightarrow> bool option" where
  "any_entry_matches buf predicate = do {
     hdr \<leftarrow> parse_header buf;
     Some (list_ex predicate (dh_dict hdr))
   }"

section \<open>The dictionary and its indices\<close>

definition dict_inv :: "(bytes \<rightharpoonup> u16) \<Rightarrow> bytes list \<Rightarrow> bool" where
  "dict_inv d es \<longleftrightarrow> distinct es \<and> dom d = set es \<and> (\<forall>i < length es. d (es ! i) = Some (word_of_nat i))"

lemma dict_inv_snoc:
  assumes "dict_inv d es" and "d v = None"
  shows "dict_inv (d(v \<mapsto> word_of_nat (length es))) (es @ [v])"
proof -
  have "v \<notin> set es" using assms by (auto simp: dict_inv_def)
  with assms show ?thesis by (auto simp: dict_inv_def nth_append less_Suc_eq)
qed

lemma build_dict_spec:
  "dict_inv d es \<Longrightarrow> build_dict d es vs = (d', es') \<Longrightarrow> dict_inv d' es' \<and> set es' = set es \<union> set vs"
proof (induction d es vs rule: build_dict.induct)
  case (2 d es v vs)
  show ?case
  proof (cases "d v = None")
    case True
    have "build_dict (d(v \<mapsto> word_of_nat (length es))) (es @ [v]) vs = (d', es')" using 2(4) True by simp
    from 2(1) [OF True dict_inv_snoc [OF 2(3) True] this] show ?thesis by simp
  next
    case False
    then have "v \<in> set es" using 2(3) by (auto simp: dict_inv_def)
    with 2 False show ?thesis by auto
  qed
qed simp

lemma number_entries_spec:
  assumes "distinct (pre @ es)" and "dict_inv m pre"
  shows "dict_inv (number_entries (length pre) es m) (pre @ es)"
  using assms
proof (induction es arbitrary: pre m)
  case (Cons e es)
  then have "m e = None" by (auto simp: dict_inv_def)
  with Cons have "dict_inv (m(e \<mapsto> word_of_nat (length pre))) (pre @ [e])" by (intro dict_inv_snoc)
  with Cons.IH [of "pre @ [e]"] Cons.prems(1) show ?case by simp
qed simp

lemma dict_inv_lookup:
  assumes "dict_inv d es" and "v \<in> set es" and "length es \<le> 65536"
  obtains idx where "d v = Some idx" and "unat idx < length es" and "es ! unat idx = v"
proof -
  from assms(2) obtain i where i: "i < length es" "es ! i = v" by (auto simp: in_set_conv_nth)
  then have "unat (word_of_nat i :: u16) = i" using assms(3) by (intro word_of_nat_inverse) simp
  with i assms(1) that show thesis by (auto simp: dict_inv_def)
qed

lemma uniq_loop_spec:
  "uniq_loop u vs = Some u' \<Longrightarrow> distinct u \<Longrightarrow> length u \<le> 65535 \<Longrightarrow>
   distinct u' \<and> set u' = set u \<union> set vs \<and> length u' \<le> 65535"
proof (induction u vs rule: uniq_loop.induct)
  case (2 u v vs)
  then show ?case by (auto simp: Let_def split: if_splits)
qed auto

lemma should_use_dictionary_card:
  assumes "should_use_dictionary vs"
  shows "card (set vs) \<le> 65535 \<and> card (set vs) \<le> max (length vs div 2) 1"
proof (cases "vs = []")
  case False
  with assms obtain u where u: "uniq_loop [] vs = Some u" "length u \<le> max (length vs div 2) 1"
    by (auto simp: should_use_dictionary_def Let_def split: option.splits)
  with uniq_loop_spec [OF u(1)] show ?thesis by (auto dest: distinct_card)
qed simp

text \<open>The indices \<open>idxs\<close> into \<open>es\<close> spell the values \<open>vs\<close>, and fit the index width.\<close>

definition represents :: "bytes list \<Rightarrow> u8 \<Rightarrow> u16 list \<Rightarrow> bytes list \<Rightarrow> bool" where
  "represents es w idxs vs \<longleftrightarrow>
     list_all2 (\<lambda>idx v. unat idx < length es \<and> es ! unat idx = v) idxs vs
     \<and> set es = set vs \<and> distinct es \<and> length es \<le> 65535 \<and> w = index_width_for (length es)"

lemma represents_width:
  "represents es w idxs vs \<Longrightarrow> w = 1 \<or> w = 2"
  "represents es w idxs vs \<Longrightarrow> w = 1 \<Longrightarrow> idx \<in> set idxs \<Longrightarrow> unat idx < 256"
proof -
  show "represents es w idxs vs \<Longrightarrow> w = 1 \<or> w = 2"
    by (auto simp: represents_def index_width_for_def)
  assume r: "represents es w idxs vs" and "w = 1" and idx: "idx \<in> set idxs"
  then have "length es \<le> 255" by (auto simp: represents_def index_width_for_def split: if_splits)
  moreover have "unat idx < length es"
    using r idx by (auto simp: represents_def list_all2_conv_all_nth in_set_conv_nth)
  ultimately show "unat idx < 256" by simp
qed

lemma dict_indices:
  assumes "dict_inv d es" and "set vs \<subseteq> set es" and "length es \<le> 65536"
  shows "\<exists>idxs. those (map d vs) = Some idxs
    \<and> list_all2 (\<lambda>idx v. unat idx < length es \<and> es ! unat idx = v) idxs vs"
  using assms(2)
proof (induction vs)
  case (Cons v vs)
  then obtain idx where "d v = Some idx" "unat idx < length es" "es ! unat idx = v"
    using dict_inv_lookup [OF assms(1) _ assms(3), of v] by auto
  with Cons show ?case by auto
qed simp

definition dict_payload :: "bytes list \<Rightarrow> u8 \<Rightarrow> u16 list \<Rightarrow> bytes" where
  "dict_payload es w idxs = dict_header_bytes (length es) w (empty_string_idx_of es)
     @ pack_strings es @ concat (map (index_bytes w) idxs)"

lemma built_dict:
  assumes "card (set vs) \<le> 65535"
  obtains d es where "build_dict Map.empty [] vs = (d, es)" and "dict_inv d es"
    and "set es = set vs" and "length es \<le> 65535"
proof -
  obtain d es where b: "build_dict Map.empty [] vs = (d, es)" by fastforce
  have "dict_inv Map.empty []" by (simp add: dict_inv_def)
  from build_dict_spec [OF this b] have "dict_inv d es" "set es = set vs" by simp_all
  moreover from this have "length es = card (set vs)" by (metis dict_inv_def distinct_card)
  ultimately show thesis using that b assms by simp
qed

lemma dict_encode_payload:
  assumes "card (set vs) \<le> 65535"
  shows "\<exists>es w idxs. dict_encode vs = Some (dict_payload es w idxs) \<and> represents es w idxs vs"
proof (cases "vs = []")
  case True
  then show ?thesis
    by (intro exI [of _ "[]"] exI [of _ 1])
       (simp add: dict_encode_def dict_payload_def represents_def index_width_for_def empty_string_idx_of_def)
next
  case False
  from assms obtain d es where b: "build_dict Map.empty [] vs = (d, es)" "dict_inv d es"
    "set es = set vs" "length es \<le> 65535" by (rule built_dict)
  from dict_indices [OF b(2), of vs] b(3,4) obtain idxs where idxs: "those (map d vs) = Some idxs"
    "list_all2 (\<lambda>idx v. unat idx < length es \<and> es ! unat idx = v) idxs vs" by auto
  have "represents es (index_width_for (length es)) idxs vs"
    using b idxs by (simp add: represents_def dict_inv_def)
  moreover have "dict_encode vs = Some (dict_payload es (index_width_for (length es)) idxs)"
    using False b(1) idxs(1) by (simp add: dict_encode_def dict_payload_def Let_def)
  ultimately show ?thesis by blast
qed

lemma sum_set_le_list: "sum f (set vs) \<le> sum_list (map f vs)" for f :: "'a \<Rightarrow> nat"
  by (induction vs) (auto simp: sum.insert_if)

lemma length_pack_strings: "length (pack_strings vs) = sum_list (map (\<lambda>s. 4 + length s) vs)"
  by (induction vs) simp_all

lemma pack_distinct_le: "distinct es \<Longrightarrow> set es = set vs \<Longrightarrow> length (pack_strings es) \<le> length (pack_strings vs)"
  using sum_set_le_list [of "\<lambda>s. 4 + length s" vs]
  by (simp add: length_pack_strings sum_list_distinct_conv_sum_set)

text \<open>Sorting the dictionary and composing the two numberings numbers the values in sorted order.\<close>

lemma remapped_indices:
  assumes d: "dict_inv d es" and len: "length es \<le> 65535" and vs: "set vs \<subseteq> set es"
  shows "\<exists>remap old new. those (map (number_entries 0 (sort es) Map.empty) es) = Some remap
    \<and> those (map d vs) = Some old \<and> those (map (\<lambda>i. index remap (unat i)) old) = Some new
    \<and> list_all2 (\<lambda>idx v. unat idx < length es \<and> sort es ! unat idx = v) new vs"
proof -
  let ?m = "number_entries 0 (sort es) Map.empty"
  have m: "dict_inv ?m (sort es)"
    using number_entries_spec [of "[]" "sort es" Map.empty] d by (simp add: dict_inv_def)
  from dict_indices [OF m, of es] len obtain remap where remap: "those (map ?m es) = Some remap"
    "list_all2 (\<lambda>idx v. unat idx < length es \<and> sort es ! unat idx = v) remap es" by auto
  from dict_indices [OF d vs] len obtain old where old: "those (map d vs) = Some old"
    "list_all2 (\<lambda>idx v. unat idx < length es \<and> es ! unat idx = v) old vs" by auto
  have rlen: "length remap = length es" using remap(2) by (rule list_all2_lengthD)
  have new: "those (map (\<lambda>i. index remap (unat i)) old) = Some (map (\<lambda>i. remap ! unat i) old)"
  proof (rule those_map_Some)
    fix i
    assume "i \<in> set old"
    then have "unat i < length remap" using old(2) rlen by (auto simp: list_all2_conv_all_nth in_set_conv_nth)
    then show "index remap (unat i) = Some (remap ! unat i)" by simp
  qed
  have "list_all2 (\<lambda>idx v. unat idx < length es \<and> sort es ! unat idx = v) (map (\<lambda>i. remap ! unat i) old) vs"
    using old(2) remap(2) unfolding list_all2_map1 by (auto simp: list_all2_conv_all_nth)
  with remap(1) old(1) new show ?thesis by blast
qed

lemma inflate_entries_payload:
  assumes "lz4_contract L" and "length raw < 2 ^ 32" and "length hdr = 11"
  shows "inflate_entries L (hdr @ compress_prepend_size L raw @ rest) (length (compress_prepend_size L raw)) = Some raw"
proof -
  obtain block where "compress_prepend_size L raw = to_le 4 (word_of_nat (length raw) :: u32) @ block"
    using assms(1,2) unfolding lz4_contract_def by blast
  then have "0 < length (compress_prepend_size L raw)" by simp
  with assms slice_middle [of hdr 11 "compress_prepend_size L raw" _ rest] show ?thesis
    by (simp add: inflate_entries_def lz4_contract_monolithic)
qed

lemma length_dict_header [simp]: "length (dict_header_bytes n w e) = 7"
  by (simp add: dict_header_bytes_def)

lemma dict_header_reads:
  "read_le (dict_header_bytes n w e @ rest) 0 4 = Some (word_of_nat n :: u32)"
  "index (dict_header_bytes n w e @ rest) 4 = Some w"
  "read_le (dict_header_bytes n w e @ rest) 5 2 = Some e"
  "slice_from (dict_header_bytes n w e @ rest) 7 = Some rest"
proof -
  show "read_le (dict_header_bytes n w e @ rest) 0 4 = Some (word_of_nat n :: u32)"
    using read_le_front [of 4 "word_of_nat n :: u32" "[w] @ to_le 2 e @ rest"] by (simp add: dict_header_bytes_def)
  show "index (dict_header_bytes n w e @ rest) 4 = Some w"
    by (simp add: dict_header_bytes_def nth_append)
  show "read_le (dict_header_bytes n w e @ rest) 5 2 = Some e"
    using read_le_middle [of "to_le 4 (word_of_nat n :: u32) @ [w]" 5 2 e rest] by (simp add: dict_header_bytes_def)
  show "slice_from (dict_header_bytes n w e @ rest) 7 = Some rest" by simp
qed

lemma dict_header_slices:
  "slice (dict_header_bytes n w e @ rest) 0 4 = Some (to_le 4 (word_of_nat n :: u32))"
  "slice (dict_header_bytes n w e @ rest) 5 7 = Some (to_le 2 e)"
proof -
  show "slice (dict_header_bytes n w e @ rest) 0 4 = Some (to_le 4 (word_of_nat n :: u32))"
    using slice_middle [of "[]" 0 "to_le 4 (word_of_nat n :: u32)" 4] by (simp add: dict_header_bytes_def)
  show "slice (dict_header_bytes n w e @ rest) 5 7 = Some (to_le 2 e)"
    using slice_middle [of "to_le 4 (word_of_nat n :: u32) @ [w]" 5 "to_le 2 e" 2 rest]
    by (simp add: dict_header_bytes_def)
qed

lemma normalize_lz4_layout:
  assumes "inflate_entries L (dict_header_bytes n w e @ to_le 4 (word_of_nat (length bl) :: u32) @ bl @ idx)
      (length bl) = Some raw"
    and "length bl < 2 ^ 32"
  shows "normalize_lz4 L (dict_header_bytes n w e @ to_le 4 (word_of_nat (length bl) :: u32) @ bl @ idx)
    = Some (dict_header_bytes n w e @ raw @ idx)"
proof -
  let ?h = "dict_header_bytes n w e" and ?l = "to_le 4 (word_of_nat (length bl) :: u32)"
  have "read_le (?h @ ?l @ bl @ idx) 7 4 = Some (word_of_nat (length bl) :: u32)"
    by (rule read_le_middle) simp_all
  moreover have "unat (word_of_nat (length bl) :: u32) = length bl"
    using assms(2) by (intro word_of_nat_inverse) simp
  moreover have "slice_from (?h @ ?l @ bl @ idx) (11 + length bl) = Some idx"
    using slice_from_suffix [of "?h @ ?l @ bl" "11 + length bl" idx] by simp
  ultimately show ?thesis using assms(1)
    by (simp add: normalize_lz4_def dict_header_slices dict_header_reads) (simp add: dict_header_bytes_def)
qed

text \<open>
  \<^verbatim>\<open>encode_lz4\<close> then \<^verbatim>\<open>normalize_lz4\<close> gives a plain dictionary payload. The compressed dictionary must fit
  the 32-bit length field.
\<close>

lemma normalize_encode_lz4:
  assumes lz: "lz4_contract L" and card: "card (set vs) \<le> 65535"
    and small: "length (pack_strings vs) < 2 ^ 32"
    and blob: "\<forall>raw. length raw \<le> length (pack_strings vs) \<longrightarrow> length (compress_prepend_size L raw) < 2 ^ 32"
  shows "\<exists>buf es w idxs. dict_encode_lz4 L vs = Some buf \<and> normalize_lz4 L buf = Some (dict_payload es w idxs)
    \<and> represents es w idxs vs"
proof (cases "vs = []")
  case True
  have "normalize_lz4 L (dict_header_bytes 0 1 0xFFFF @ to_le 4 (word_of_nat (length ([] :: bytes)) :: u32) @ [] @ [])
      = Some (dict_header_bytes 0 1 0xFFFF @ [] @ [])"
    by (rule normalize_lz4_layout) (simp_all add: inflate_entries_def)
  then have "dict_encode_lz4 L vs = Some (dict_header_bytes 0 1 0xFFFF @ to_le 4 (0 :: u32))
    \<and> normalize_lz4 L (dict_header_bytes 0 1 0xFFFF @ to_le 4 (0 :: u32)) = Some (dict_payload [] 1 [])
    \<and> represents [] 1 [] vs"
    using True by (simp add: dict_encode_lz4_def dict_payload_def represents_def index_width_for_def empty_string_idx_of_def)
  then show ?thesis by blast
next
  case False
  from card obtain d es where b: "build_dict Map.empty [] vs = (d, es)" "dict_inv d es"
    "set es = set vs" "length es \<le> 65535" by (rule built_dict)
  from remapped_indices [OF b(2,4), of vs] b(3) obtain remap old new where r:
    "those (map (number_entries 0 (sort es) Map.empty) es) = Some remap" "those (map d vs) = Some old"
    "those (map (\<lambda>i. index remap (unat i)) old) = Some new"
    "list_all2 (\<lambda>idx v. unat idx < length es \<and> sort es ! unat idx = v) new vs" by auto
  let ?es = "sort es" and ?w = "index_width_for (length es)"
  let ?comp = "compress_prepend_size L (pack_strings ?es)" and ?idx = "concat (map (index_bytes ?w) new)"
  have rep: "represents ?es ?w new vs" using b r(4) by (simp add: represents_def dict_inv_def)
  then have le: "length (pack_strings ?es) \<le> length (pack_strings vs)"
    by (intro pack_distinct_le) (simp_all add: represents_def)
  let ?buf = "dict_header_bytes (length es) ?w (empty_string_idx_of ?es)
      @ to_le 4 (word_of_nat (length ?comp) :: u32) @ ?comp @ ?idx"
  have "dict_encode_lz4 L vs = Some ?buf"
    using False b(1) r(1-3) by (simp add: dict_encode_lz4_def Let_def)
  moreover have "inflate_entries L ?buf (length ?comp) = Some (pack_strings ?es)"
    using inflate_entries_payload [OF lz, of "pack_strings ?es"
        "dict_header_bytes (length es) ?w (empty_string_idx_of ?es) @ to_le 4 (word_of_nat (length ?comp) :: u32)" ?idx]
      le small by simp
  then have "normalize_lz4 L ?buf = Some (dict_payload ?es ?w new)"
    using normalize_lz4_layout [of L "length es" ?w "empty_string_idx_of ?es" ?comp ?idx] blob le
    by (simp add: dict_payload_def)
  ultimately show ?thesis using rep by blast
qed

section \<open>Reading a payload back\<close>

lemma parse_entries_pack:
  "short es \<Longrightarrow> \<forall>s \<in> set es. valid s \<Longrightarrow>
   parse_entries valid (pre @ pack_strings es @ post) (length pre) (length es)
     = Some (es, length pre + length (pack_strings es))"
proof (induction es arbitrary: pre)
  case (Cons s es)
  let ?h = "to_le 4 (word_of_nat (length s) :: u32)"
  have len: "unat (word_of_nat (length s) :: u32) = length s"
    using Cons.prems by (intro word_of_nat_inverse) (simp add: short_def)
  have "parse_entries valid ((pre @ ?h @ s) @ pack_strings es @ post) (length (pre @ ?h @ s)) (length es)
      = Some (es, length (pre @ ?h @ s) + length (pack_strings es))"
    using Cons.prems by (intro Cons.IH) (simp_all add: short_def)
  moreover have "slice ((pre @ ?h) @ s @ pack_strings es @ post) (length pre + 4) (length pre + 4 + length s) = Some s"
    by (rule slice_middle) simp_all
  ultimately show ?case
    using len Cons.prems
      read_le_middle [of pre "length pre" 4 "word_of_nat (length s) :: u32" "s @ pack_strings es @ post"]
    by (simp add: add.assoc Let_def)
qed simp

lemma ucast_u16_u8: "unat (idx :: u16) < 256 \<Longrightarrow> ucast (ucast idx :: u8) = idx"
proof (rule bit_word_eqI)
  fix n
  assume "unat idx < 256"
  then have "8 \<le> n \<Longrightarrow> \<not> bit idx n" by (intro not_bit_above [of idx 8]) simp_all
  moreover assume "n < LENGTH(16)"
  ultimately show "bit (ucast (ucast idx :: u8) :: u16) n = bit idx n"
    by (cases "n < 8") (simp_all add: bit_ucast_iff)
qed

lemma read_index_payload:
  assumes "w = 1 \<or> w = 2" and "w = 1 \<Longrightarrow> \<forall>idx \<in> set idxs. unat idx < 256" and "row < length idxs"
  shows "read_index (pre @ concat (map (index_bytes w) idxs)) (length pre) w row = Some (idxs ! row)"
proof (cases "w = 1")
  case True
  have "concat (map (index_bytes w) idxs) = map ucast idxs"
    using True by (induction idxs) (simp_all add: index_bytes_def)
  with True assms(2,3) show ?thesis
    by (simp add: read_index_def index_append_right ucast_u16_u8)
next
  case False
  then have "index_bytes w = to_le 2" by (simp add: index_bytes_def fun_eq_iff)
  with False assms(1,3) read_le_table [of row idxs pre "length pre" 2 "[]"] show ?thesis
    by (simp add: read_index_def)
qed

lemma read_indices_payload:
  assumes "represents es w idxs vs"
  shows "i + n = length idxs \<Longrightarrow>
    read_indices (pre @ concat (map (index_bytes w) idxs)) (length pre) w i n = Some (drop i idxs)"
proof (induction n arbitrary: i)
  case (Suc n)
  then have i: "i < length idxs" by simp
  have "read_index (pre @ concat (map (index_bytes w) idxs)) (length pre) w i = Some (idxs ! i)"
    using represents_width [OF assms] i by (intro read_index_payload) auto
  with Suc i show ?case by (simp add: Cons_nth_drop_Suc)
qed simp

lemma represents_length: "represents es w idxs vs \<Longrightarrow> length idxs = length vs"
  by (auto simp: represents_def dest: list_all2_lengthD)

lemma resolve_represents: "represents es w idxs vs \<Longrightarrow> resolve es idxs = Some vs"
proof -
  assume r: "represents es w idxs vs"
  then have "index es (unat idx) = Some (es ! unat idx)" if "idx \<in> set idxs" for idx
    using that by (auto simp: represents_def list_all2_conv_all_nth in_set_conv_nth)
  then have "resolve es idxs = Some (map (\<lambda>idx. es ! unat idx) idxs)"
    unfolding resolve_def by (rule those_map_Some)
  moreover have "map (\<lambda>idx. es ! unat idx) idxs = vs"
    using r by (auto simp: represents_def list_all2_conv_all_nth intro!: nth_equalityI)
  ultimately show ?thesis by simp
qed

text \<open>What every reader of the plain format sees on a payload.\<close>

lemma payload_header:
  assumes "represents es w idxs vs" and "short es" and "\<forall>s \<in> set es. utf8_valid s"
  shows "parse_header (dict_payload es w idxs)
    = Some \<lparr>dh_dict = es, dh_index_width = w, dh_empty_string_idx = empty_string_idx_of es,
            dh_indices_start = 7 + length (pack_strings es)\<rparr>"
proof -
  let ?h = "dict_header_bytes (length es) w (empty_string_idx_of es)"
  have "unat (word_of_nat (length es) :: u32) = length es"
    using assms(1) by (intro word_of_nat_inverse) (simp add: represents_def)
  moreover have "parse_entries utf8_valid (?h @ pack_strings es @ concat (map (index_bytes w) idxs)) 7 (length es)
      = Some (es, 7 + length (pack_strings es))"
    using parse_entries_pack [OF assms(2,3), of ?h] by simp
  ultimately show ?thesis
    by (simp add: parse_header_def dict_payload_def dict_header_reads)
qed

lemma payload_header_bytes:
  assumes "represents es w idxs vs" and "short es"
  shows "parse_header_bytes (dict_payload es w idxs) = Some (es, 7 + length (pack_strings es), w)"
proof -
  let ?h = "dict_header_bytes (length es) w (empty_string_idx_of es)"
  have "unat (word_of_nat (length es) :: u32) = length es"
    using assms(1) by (intro word_of_nat_inverse) (simp add: represents_def)
  moreover have "parse_entries (\<lambda>_. True) (?h @ pack_strings es @ concat (map (index_bytes w) idxs)) 7 (length es)
      = Some (es, 7 + length (pack_strings es))"
    using parse_entries_pack [OF assms(2), of "\<lambda>_. True" ?h] by simp
  ultimately show ?thesis
    by (simp add: parse_header_bytes_def dict_payload_def dict_header_reads)
qed

lemma payload_indices:
  assumes "represents es w idxs vs"
  shows "read_indices (dict_payload es w idxs) (7 + length (pack_strings es)) w 0 (length vs) = Some idxs"
  using read_indices_payload [OF assms, of 0 "length vs"
      "dict_header_bytes (length es) w (empty_string_idx_of es) @ pack_strings es"] represents_length [OF assms]
  by (simp add: dict_payload_def)

lemma payload_decodes:
  assumes "represents es w idxs vs" and "short es" and "\<forall>s \<in> set es. utf8_valid s"
  shows "dict_decode (dict_payload es w idxs) (length vs) = Some vs"
    and "decode_to_slices (dict_payload es w idxs) (length vs) = Some vs"
  using payload_header [OF assms] payload_indices [OF assms(1)] resolve_represents [OF assms(1)]
  by (auto simp: dict_decode_def decode_to_slices_def)

lemma payload_decodes_bytes:
  assumes "represents es w idxs vs" and "short es"
  shows "decode_to_byte_slices (dict_payload es w idxs) (length vs) = Some vs"
  using payload_header_bytes [OF assms] payload_indices [OF assms(1)] resolve_represents [OF assms(1)]
  by (auto simp: decode_to_byte_slices_def)

lemma represents_short:
  "represents es w idxs vs \<Longrightarrow> length (pack_strings vs) < 2 ^ 32 \<Longrightarrow> short es"
  using short_pack [of vs] by (auto simp: represents_def short_def)

section \<open>Round trips and predicates\<close>

lemma dict_decode_encode [roundtrips]:
  assumes "card (set vs) \<le> 65535" and "length (pack_strings vs) < 2 ^ 32" and "\<forall>s \<in> set vs. utf8_valid s"
  shows "\<exists>buf. dict_encode vs = Some buf \<and> dict_decode buf (length vs) = Some vs"
proof -
  obtain es w idxs where "dict_encode vs = Some (dict_payload es w idxs)" and r: "represents es w idxs vs"
    using dict_encode_payload [OF assms(1)] by blast
  moreover have "\<forall>s \<in> set es. utf8_valid s" using r assms(3) by (simp add: represents_def)
  ultimately show ?thesis using payload_decodes(1) [OF r represents_short [OF r assms(2)]] by blast
qed

lemma dict_decode_encode_bytes [roundtrips]:
  assumes "card (set vs) \<le> 65535" and "length (pack_strings vs) < 2 ^ 32"
  shows "\<exists>buf. dict_encode vs = Some buf \<and> decode_to_byte_slices buf (length vs) = Some vs"
proof -
  obtain es w idxs where "dict_encode vs = Some (dict_payload es w idxs)" and r: "represents es w idxs vs"
    using dict_encode_payload [OF assms(1)] by blast
  then show ?thesis using payload_decodes_bytes [OF r represents_short [OF r assms(2)]] by blast
qed

lemma empty_string_idx:
  assumes "represents es w idxs vs"
  shows "empty_string_idx_of es = 0xFFFF \<longleftrightarrow> [] \<notin> set vs"
    and "[] \<in> set vs \<Longrightarrow> map (\<lambda>idx. idx \<noteq> empty_string_idx_of es) idxs = map (\<lambda>v. v \<noteq> []) vs"
proof -
  have set: "set es = set vs" and len: "length es \<le> 65535" and dist: "distinct es"
    using assms by (simp_all add: represents_def)
  have found: "unat (empty_string_idx_of es) < length es \<and> es ! unat (empty_string_idx_of es) = []" if "[] \<in> set vs"
  proof -
    from that set have "position (\<lambda>s. s = []) es \<noteq> None" unfolding position_None by blast
    then obtain i where i: "position (\<lambda>s. s = []) es = Some i" by blast
    with position_Some [OF i] len have "unat (word_of_nat i :: u16) = i" by (intro word_of_nat_inverse) simp
    with i position_Some [OF i] show ?thesis by (simp add: empty_string_idx_of_def)
  qed
  show "empty_string_idx_of es = 0xFFFF \<longleftrightarrow> [] \<notin> set vs"
  proof
    assume "empty_string_idx_of es = 0xFFFF"
    with found len show "[] \<notin> set vs" by auto
  next
    assume "[] \<notin> set vs"
    with set have "position (\<lambda>s. s = []) es = None" by (auto simp: position_None)
    then show "empty_string_idx_of es = 0xFFFF" by (simp add: empty_string_idx_of_def)
  qed
  assume "[] \<in> set vs"
  note f = found [OF this]
  have idx: "idx = empty_string_idx_of es \<longleftrightarrow> es ! unat idx = []" if "unat idx < length es" for idx
    using f that dist by (metis nth_eq_iff_index_eq word_unat_eq_iff)
  show "map (\<lambda>idx. idx \<noteq> empty_string_idx_of es) idxs = map (\<lambda>v. v \<noteq> []) vs"
    using assms idx by (auto simp: represents_def list_all2_conv_all_nth intro!: nth_equalityI)
qed

lemma check_ne_empty_encode:
  assumes "card (set vs) \<le> 65535" and "length (pack_strings vs) < 2 ^ 32" and "\<forall>s \<in> set vs. utf8_valid s"
  shows "\<exists>buf. dict_encode vs = Some buf
    \<and> check_ne_empty buf (length vs) = Some (if [] \<in> set vs then map (\<lambda>v. v \<noteq> []) vs else [])"
proof -
  obtain es w idxs where enc: "dict_encode vs = Some (dict_payload es w idxs)" and r: "represents es w idxs vs"
    using dict_encode_payload [OF assms(1)] by blast
  have "\<forall>s \<in> set es. utf8_valid s" using r assms(3) by (simp add: represents_def)
  with enc payload_header [OF r represents_short [OF r assms(2)]] payload_indices [OF r] empty_string_idx [OF r]
  show ?thesis by (auto simp: check_ne_empty_def)
qed

lemma any_entry_matches_payload:
  assumes r: "represents es w idxs vs" and "length (pack_strings vs) < 2 ^ 32" and "\<forall>s \<in> set vs. utf8_valid s"
  shows "any_entry_matches (dict_payload es w idxs) p = Some (\<exists>v \<in> set vs. p v)"
proof -
  have "\<forall>s \<in> set es. utf8_valid s" "set es = set vs" using r assms(3) by (simp_all add: represents_def)
  with payload_header [OF r represents_short [OF r assms(2)]]
  show ?thesis by (simp add: any_entry_matches_def list_ex_iff)
qed

lemma any_entry_matches_encode:
  assumes "card (set vs) \<le> 65535" and "length (pack_strings vs) < 2 ^ 32" and "\<forall>s \<in> set vs. utf8_valid s"
  shows "\<exists>buf. dict_encode vs = Some buf \<and> any_entry_matches buf p = Some (\<exists>v \<in> set vs. p v)"
  using dict_encode_payload [OF assms(1)] any_entry_matches_payload [OF _ assms(2,3)] by blast

section \<open>Flat decoding\<close>

definition range_u32 :: "nat \<times> nat \<Rightarrow> u32 \<times> u32" where
  "range_u32 r = (word_of_nat (fst r), word_of_nat (snd r))"

definition flat_entry :: "FlatDict \<Rightarrow> u16 \<Rightarrow> bytes" where
  "flat_entry fd idx = (let (off, len) = fd_entry_ranges fd ! unat idx
                        in at_range (fd_buf fd) (unat off, unat len))"

lemma entry_ranges_pack:
  "short es \<Longrightarrow> entry_ranges_loop (pre @ pack_strings es @ post) (length pre) (length es)
     = Some (map range_u32 (string_ranges (length pre) es))"
proof (induction es arbitrary: pre)
  case (Cons s es)
  let ?h = "to_le 4 (word_of_nat (length s) :: u32)"
  have len: "unat (word_of_nat (length s) :: u32) = length s"
    using Cons.prems by (intro word_of_nat_inverse) (simp add: short_def)
  have "entry_ranges_loop ((pre @ ?h @ s) @ pack_strings es @ post) (length (pre @ ?h @ s)) (length es)
      = Some (map range_u32 (string_ranges (length (pre @ ?h @ s)) es))"
    using Cons.prems by (intro Cons.IH) (simp add: short_def)
  then show ?case
    using len read_le_middle [of pre "length pre" 4 "word_of_nat (length s) :: u32" "s @ pack_strings es @ post"]
    by (simp add: add.assoc range_u32_def)
qed simp

lemma last_string_range:
  "es \<noteq> [] \<Longrightarrow> fst (last (string_ranges off es)) + snd (last (string_ranges off es)) = off + length (pack_strings es)"
proof (induction es arbitrary: off)
  case (Cons s es)
  show ?case
  proof (cases "es = []")
    case False
    then have "string_ranges (off + 4 + length s) es \<noteq> []" by (metis length_0_conv length_string_ranges)
    with Cons.IH [OF False, of "off + 4 + length s"] show ?thesis by simp
  qed simp
qed simp

lemma flat_entry_pack:
  assumes "unat idx < length es" and "length (pack_strings es) < 2 ^ 32"
  shows "flat_entry \<lparr>fd_buf = pack_strings es, fd_entry_ranges = map range_u32 (string_ranges 0 es)\<rparr> idx = es ! unat idx"
proof -
  let ?r = "string_ranges 0 es ! unat idx"
  have "fst ?r + snd ?r \<le> 0 + length (pack_strings es)" using assms(1) by (intro string_ranges_bound) simp
  with assms(2) have "unat (word_of_nat (fst ?r) :: u32) = fst ?r" "unat (word_of_nat (snd ?r) :: u32) = snd ?r"
    by (auto intro!: word_of_nat_inverse)
  moreover have "at_range (pack_strings es) ?r = es ! unat idx"
    using arg_cong [OF map_at_range_pack [of "[]" es "[]"], of "\<lambda>xs. xs ! unat idx"] assms(1) by simp
  ultimately show ?thesis using assms(1) by (simp add: flat_entry_def range_u32_def)
qed

lemma decode_flat_payload:
  assumes "represents es w idxs vs" and "length (pack_strings es) < 2 ^ 32"
  shows "decode_flat (dict_payload es w idxs) (length vs)
    = Some (\<lparr>fd_buf = pack_strings es, fd_entry_ranges = map range_u32 (string_ranges 0 es)\<rparr>, idxs)"
proof -
  let ?h = "dict_header_bytes (length es) w (empty_string_idx_of es)"
  let ?idx = "concat (map (index_bytes w) idxs)" and ?rs = "map range_u32 (string_ranges 0 es)"
  have n: "unat (word_of_nat (length es) :: u32) = length es"
    using assms(1) by (intro word_of_nat_inverse) (simp add: represents_def)
  have rs: "entry_ranges_in (pack_strings es @ ?idx) (length es) = Some ?rs"
    using entry_ranges_pack [OF short_pack [OF assms(2)], of "[]" ?idx] by (simp add: entry_ranges_in_def)
  have len: "(if ?rs = [] then 0 else unat (fst (last ?rs) + snd (last ?rs))) = length (pack_strings es)"
  proof (cases "es = []")
    case False
    then have ne: "string_ranges 0 es \<noteq> []" by (metis length_0_conv length_string_ranges)
    then have "fst (last ?rs) + snd (last ?rs)
        = word_of_nat (fst (last (string_ranges 0 es)) + snd (last (string_ranges 0 es)))"
      by (simp add: last_map range_u32_def)
    also have "\<dots> = (word_of_nat (length (pack_strings es)) :: u32)" using last_string_range [OF False, of 0] by simp
    finally show ?thesis using ne assms(2) by (simp add: word_of_nat_inverse)
  qed simp
  have "slice (?h @ pack_strings es @ ?idx) 7 (7 + length (pack_strings es)) = Some (pack_strings es)"
    by (rule slice_middle) simp_all
  then show ?thesis using n rs len payload_indices [OF assms(1)]
    by (simp add: decode_flat_def dict_payload_def dict_header_reads Let_def)
qed

lemma decode_flat_encode:
  assumes "card (set vs) \<le> 65535" and "length (pack_strings vs) < 2 ^ 32"
  shows "\<exists>buf fd idxs. dict_encode vs = Some buf \<and> decode_flat buf (length vs) = Some (fd, idxs)
    \<and> map (flat_entry fd) idxs = vs"
proof -
  obtain es w idxs where enc: "dict_encode vs = Some (dict_payload es w idxs)" and r: "represents es w idxs vs"
    using dict_encode_payload [OF assms(1)] by blast
  have small: "length (pack_strings es) < 2 ^ 32"
    using pack_distinct_le [of es vs] r assms(2) by (simp add: represents_def)
  have "map (flat_entry \<lparr>fd_buf = pack_strings es, fd_entry_ranges = map range_u32 (string_ranges 0 es)\<rparr>) idxs = vs"
    using r by (auto simp: represents_def list_all2_conv_all_nth flat_entry_pack [OF _ small] intro!: nth_equalityI)
  with enc decode_flat_payload [OF r small] show ?thesis by blast
qed

end
