(* ===== verification/Numeric_Scaled.thy ===== *)
theory Numeric_Scaled
  imports Text Compressed_Column
begin

text \<open>
  The scaled-integer form of \<^verbatim>\<open>numeric\<close> renderings (\<^verbatim>\<open>src/compression/numeric_scaled.rs\<close>). The running
  mantissa is an \<^verbatim>\<open>i128\<close> that the loop keeps at most \<^verbatim>\<open>i64::MAX\<close>, so its checked operations never fail
  and it is a natural number here. Parsing then formatting is the identity on the renderings
  PostgreSQL's \<^verbatim>\<open>numeric_out\<close> produces, and formatting then parsing gives the pair back.
\<close>

definition MAX_DSCALE :: nat where
  "MAX_DSCALE = 18"

fun parse_numeric_loop :: "nat \<Rightarrow> nat \<Rightarrow> bool \<Rightarrow> bool \<Rightarrow> bytes \<Rightarrow> (nat \<times> nat \<times> bool) option" where
  "parse_numeric_loop mantissa dscale seen_dot seen_digit [] = Some (mantissa, dscale, seen_digit)"
| "parse_numeric_loop mantissa dscale seen_dot seen_digit (c # rest) =
     (if is_digit c
      then let mantissa' = mantissa * 10 + digit_val c
           in if 2 ^ 63 - 1 < mantissa' then None
              else if seen_dot
                   then if MAX_DSCALE < dscale + 1 then None
                        else parse_numeric_loop mantissa' (dscale + 1) True True rest
                   else parse_numeric_loop mantissa' dscale False True rest
      else if c = 0x2E \<and> \<not> seen_dot then parse_numeric_loop mantissa dscale True seen_digit rest
      else None)"

definition parse_numeric_scaled :: "bytes \<Rightarrow> (i64 \<times> u8) option" where
  "parse_numeric_scaled s =
     (case s of
        [] \<Rightarrow> None
      | c # cs \<Rightarrow>
          let (neg, rest) = (if c = 0x2D then (True, cs) else if c = 0x2B then (False, cs) else (False, s))
          in if rest = [] then None
             else do {
               (mantissa, dscale, seen_digit) \<leftarrow> parse_numeric_loop 0 0 False False rest;
               if \<not> seen_digit then None
               else let m = (if neg then - word_of_nat mantissa else word_of_nat mantissa)
                    in Some (m, word_of_nat dscale)
             })"

definition format_numeric_scaled :: "i64 \<Rightarrow> u8 \<Rightarrow> bytes" where
  "format_numeric_scaled mantissa dscale =
     (if dscale = 0 then dec_int (sint mantissa)
      else let neg = sint mantissa < 0;
               abs = dec (nat \<bar>sint mantissa\<bar>);
               s = unat dscale;
               (int_part, frac_part) =
                 (if s < length abs then (take (length abs - s) abs, drop (length abs - s) abs)
                  else ([0x30], pad_zeros s abs))
           in (if neg then [0x2D] else []) @ int_part @ [0x2E] @ frac_part)"

fun to_uniform_loop :: "u8 option \<Rightarrow> bytes option list \<Rightarrow> (i64 option list \<times> u8 option) option" where
  "to_uniform_loop dscale [] = Some ([], dscale)"
| "to_uniform_loop dscale (None # vs) = do {
     (out, d') \<leftarrow> to_uniform_loop dscale vs;
     Some (None # out, d')
   }"
| "to_uniform_loop dscale (Some s # vs) = do {
     (m, d) \<leftarrow> parse_numeric_scaled s;
     dscale' \<leftarrow> (case dscale of None \<Rightarrow> Some (Some d)
                 | Some prev \<Rightarrow> if prev \<noteq> d then None else Some (Some prev));
     (out, d') \<leftarrow> to_uniform_loop dscale' vs;
     Some (Some m # out, d')
   }"

definition to_uniform_scaled :: "bytes option list \<Rightarrow> (i64 option list \<times> u8) option" where
  "to_uniform_scaled values = do {
     (out, dscale) \<leftarrow> to_uniform_loop None values;
     Some (out, case dscale of None \<Rightarrow> 0 | Some d \<Rightarrow> d)
   }"

section \<open>The renderings of \<^verbatim>\<open>numeric_out\<close>\<close>

text \<open>
  An optional minus sign, the integer part without superfluous zeros, and either nothing or a point
  and a non-empty block of digits; zero carries no sign.
\<close>

definition numeric_text :: "bool \<Rightarrow> nat \<Rightarrow> bytes \<Rightarrow> bytes" where
  "numeric_text neg ip fp = (if neg then [0x2D] else []) @ dec ip @ (if fp = [] then [] else 0x2E # fp)"

definition numeric_mantissa :: "nat \<Rightarrow> bytes \<Rightarrow> nat" where
  "numeric_mantissa ip fp = ip * 10 ^ length fp + digits_val 0 fp"

definition numeric_out_form :: "bool \<Rightarrow> nat \<Rightarrow> bytes \<Rightarrow> bool" where
  "numeric_out_form neg ip fp \<longleftrightarrow> (\<forall>c \<in> set fp. is_digit c) \<and> (neg \<longrightarrow> numeric_mantissa ip fp \<noteq> 0)"

lemma parse_numeric_loop_digits:
  assumes "\<forall>c \<in> set ds. is_digit c" and "digits_val m ds < 2 ^ 63"
    and "dot \<longrightarrow> d + length ds \<le> MAX_DSCALE" and "ds \<noteq> [] \<or> seen"
  shows "parse_numeric_loop m d dot seen (ds @ rest)
    = parse_numeric_loop (digits_val m ds) (if dot then d + length ds else d) dot True rest"
  using assms
proof (induction ds arbitrary: m d seen)
  case (Cons c ds)
  have "m * 10 + digit_val c \<le> digits_val (m * 10 + digit_val c) ds"
  proof -
    have "m * 10 + digit_val c \<le> (m * 10 + digit_val c) * 10 ^ length ds" by simp
    then show ?thesis by (subst digits_val_acc) linarith
  qed
  then have "m * 10 + digit_val c < 2 ^ 63" using Cons.prems(2) by simp
  with Cons.prems Cons.IH [of "m * 10 + digit_val c" "if dot then d + 1 else d" True] show ?case
    by (cases dot) (auto simp: Let_def)
qed simp

lemma numeric_text_not_Nil [simp]: "numeric_text neg ip fp \<noteq> []"
  by (simp add: numeric_text_def)

lemma not_digits: "\<not> is_digit 0x2D" "\<not> is_digit 0x2B" "\<not> is_digit 0x2E"
  by (simp_all add: is_digit_def)

lemma parse_numeric_text:
  assumes "\<forall>c \<in> set fp. is_digit c" and fits: "numeric_mantissa ip fp < 2 ^ 63" and "length fp \<le> MAX_DSCALE"
  shows "parse_numeric_scaled (numeric_text neg ip fp)
    = Some (if neg then - word_of_nat (numeric_mantissa ip fp) else word_of_nat (numeric_mantissa ip fp),
            word_of_nat (length fp))"
proof -
  have ip: "ip < 2 ^ 63"
  proof -
    have "ip \<le> ip * 10 ^ length fp" by simp
    also have "\<dots> \<le> numeric_mantissa ip fp" by (simp add: numeric_mantissa_def)
    finally show ?thesis using fits by simp
  qed
  let ?body = "dec ip @ (if fp = [] then [] else 0x2E # fp)"
  have loop: "parse_numeric_loop 0 0 False False ?body = Some (numeric_mantissa ip fp, length fp, True)"
  proof -
    have "parse_numeric_loop 0 0 False False ?body
        = parse_numeric_loop ip 0 False True (if fp = [] then [] else 0x2E # fp)"
      using parse_numeric_loop_digits [of "dec ip" 0 False 0 False "if fp = [] then [] else 0x2E # fp"] ip
      by (simp add: dec_digits)
    also have "\<dots> = Some (numeric_mantissa ip fp, length fp, True)"
      using parse_numeric_loop_digits [of fp ip True 0 True "[]"] assms
      by (auto simp: not_digits numeric_mantissa_def digits_val_acc [of ip])
    finally show ?thesis .
  qed
  obtain c cs where c: "dec ip = c # cs" by (cases "dec ip") auto
  then have "is_digit c" using dec_digits [of c ip] by simp
  then have ne: "c \<noteq> 0x2D" "c \<noteq> 0x2B" using not_digits by auto
  show ?thesis
  proof (cases neg)
    case True
    then show ?thesis using loop by (simp add: parse_numeric_scaled_def numeric_text_def)
  next
    case False
    then show ?thesis using loop ne c by (auto simp: parse_numeric_scaled_def numeric_text_def Let_def)
  qed
qed

lemma sint_of_small: "n < 2 ^ 63 \<Longrightarrow> sint (word_of_nat n :: i64) = int n"
  and sint_minus_small: "n < 2 ^ 63 \<Longrightarrow> sint (- word_of_nat n :: i64) = - int n"
proof -
  assume n: "n < 2 ^ 63"
  have "sint (word_of_int (int n) :: i64) = int n"
    by (subst sint_sbintrunc') (use n in \<open>simp add: signed_take_bit_int_eq_self\<close>)
  then show "sint (word_of_nat n :: i64) = int n" by simp
  have "sint (word_of_int (- int n) :: i64) = - int n"
    by (subst sint_sbintrunc') (use n in \<open>simp add: signed_take_bit_int_eq_self\<close>)
  then show "sint (- word_of_nat n :: i64) = - int n" by simp
qed

lemma format_numeric_text:
  assumes ok: "numeric_out_form neg ip fp" and fits: "numeric_mantissa ip fp < 2 ^ 63" and len: "length fp \<le> MAX_DSCALE"
  shows "format_numeric_scaled (if neg then - word_of_nat (numeric_mantissa ip fp) else word_of_nat (numeric_mantissa ip fp))
           (word_of_nat (length fp)) = numeric_text neg ip fp"
proof -
  let ?M = "numeric_mantissa ip fp"
  let ?m = "if neg then - word_of_nat ?M else word_of_nat ?M :: i64"
  have m: "sint ?m = (if neg then - int ?M else int ?M)"
    using fits sint_of_small sint_minus_small by simp
  have M: "neg \<longrightarrow> 0 < ?M" and digits: "\<forall>c \<in> set fp. is_digit c" using ok by (simp_all add: numeric_out_form_def)
  have s: "unat (word_of_nat (length fp) :: u8) = length fp"
    using len by (intro word_of_nat_inverse) (simp add: MAX_DSCALE_def)
  show ?thesis
  proof (cases "fp = []")
    case True
    then show ?thesis using m M
      by (auto simp: format_numeric_scaled_def numeric_text_def dec_int_def numeric_mantissa_def)
  next
    case False
    then have nz: "(word_of_nat (length fp) :: u8) \<noteq> 0" using s by (metis length_0_conv unat_0)
    have abs: "nat \<bar>sint ?m\<bar> = ?M" and neg: "sint ?m < 0 \<longleftrightarrow> neg" using m M by auto
    show ?thesis
    proof (cases "ip = 0")
      case True
      then have Mv: "?M = digits_val 0 fp" by (simp add: numeric_mantissa_def)
      then have "length (dec ?M) \<le> length fp"
        using digits_val_less [OF digits] False by (intro length_dec_le) simp_all
      then show ?thesis using True False nz s abs neg Mv pad_zeros_digits [OF False digits]
        by (simp add: format_numeric_scaled_def numeric_text_def dec_single digit_def Let_def)
    next
      case ip: False
      then have "dec ?M = dec ip @ fp" using dec_digits_block [of ip fp] digits by (simp add: numeric_mantissa_def)
      moreover have "0 < length (dec ip)" by simp
      ultimately show ?thesis using False nz s abs neg
        by (simp add: format_numeric_scaled_def numeric_text_def Let_def del: length_greater_0_conv)
    qed
  qed
qed

text \<open>Conversely, a rendering that parses has a mantissa and a scale in range.\<close>

lemma parse_numeric_loop_bounds:
  assumes "parse_numeric_loop m d dot seen (ds @ rest) = Some r" and "\<forall>c \<in> set ds. is_digit c"
    and "m < 2 ^ 63" and "d \<le> MAX_DSCALE"
  shows "digits_val m ds < 2 ^ 63 \<and> (dot \<longrightarrow> d + length ds \<le> MAX_DSCALE)"
  using assms
proof (induction ds arbitrary: m d seen)
  case (Cons c ds)
  then have ok: "m * 10 + digit_val c < 2 ^ 63" "dot \<longrightarrow> d + 1 \<le> MAX_DSCALE"
    "parse_numeric_loop (m * 10 + digit_val c) (if dot then d + 1 else d) dot True (ds @ rest) = Some r"
    by (auto simp: Let_def split: if_splits)
  with Cons.IH [OF ok(3)] Cons.prems show ?case by (auto split: if_splits)
qed simp

lemma parse_numeric_text_fits:
  assumes "\<forall>c \<in> set fp. is_digit c" and "parse_numeric_scaled (numeric_text neg ip fp) = Some r"
  shows "numeric_mantissa ip fp < 2 ^ 63 \<and> length fp \<le> MAX_DSCALE"
proof -
  let ?tail = "if fp = [] then [] else 0x2E # fp"
  obtain c cs where c: "dec ip = c # cs" by (cases "dec ip") auto
  then have "is_digit c" using dec_digits [of c ip] by simp
  then have "c \<noteq> 0x2D" "c \<noteq> 0x2B" using not_digits by auto
  with c assms(2) obtain r' where loop: "parse_numeric_loop 0 0 False False (dec ip @ ?tail) = Some r'"
    by (cases neg) (auto simp: parse_numeric_scaled_def numeric_text_def Let_def split: bind_splits)
  from parse_numeric_loop_bounds [OF this] have ip: "ip < 2 ^ 63" by (simp add: dec_digits)
  show ?thesis
  proof (cases "fp = []")
    case True
    with ip show ?thesis by (simp add: numeric_mantissa_def)
  next
    case False
    from loop have "parse_numeric_loop ip 0 False True ?tail = Some r'"
      using parse_numeric_loop_digits [of "dec ip" 0 False 0 False ?tail] ip by (simp add: dec_digits)
    with False have "parse_numeric_loop ip 0 True True (fp @ []) = Some r'" by (simp add: not_digits)
    from parse_numeric_loop_bounds [OF this assms(1) ip] show ?thesis
      by (simp add: numeric_mantissa_def digits_val_acc [of ip])
  qed
qed

definition numeric_out :: "bytes \<Rightarrow> bool" where
  "numeric_out s \<longleftrightarrow> (\<exists>neg ip fp. numeric_out_form neg ip fp \<and> s = numeric_text neg ip fp)"

lemma format_parse_numeric [roundtrips]:
  assumes "numeric_out s" and "parse_numeric_scaled s = Some (m, d)"
  shows "format_numeric_scaled m d = s"
proof -
  obtain neg ip fp where s: "numeric_out_form neg ip fp" "s = numeric_text neg ip fp"
    using assms(1) by (auto simp: numeric_out_def)
  have digits: "\<forall>c \<in> set fp. is_digit c" using s(1) by (simp add: numeric_out_form_def)
  have fits: "numeric_mantissa ip fp < 2 ^ 63 \<and> length fp \<le> MAX_DSCALE"
    using parse_numeric_text_fits [OF digits] assms(2) s(2) by blast
  with parse_numeric_text [OF digits, of ip neg] assms(2) s format_numeric_text [OF s(1)] show ?thesis by auto
qed

lemma to_uniform_loop_spec:
  assumes "to_uniform_loop d0 vs = Some (out, d')"
  shows "(d0 \<noteq> None \<longrightarrow> d' = d0)
    \<and> list_all2 (\<lambda>v o'. (v = None \<and> o' = None)
        \<or> (\<exists>s m. v = Some s \<and> o' = Some m \<and> parse_numeric_scaled s = Some (m, the d') \<and> d' \<noteq> None)) vs out"
  using assms
proof (induction d0 vs arbitrary: out d' rule: to_uniform_loop.induct)
  case (3 d0 s vs)
  then show ?case by (fastforce split: bind_splits option.splits if_splits)
qed (auto split: bind_splits)

lemma to_uniform_scaled_parses:
  assumes "to_uniform_scaled vs = Some (out, d)" and "s \<in> set (somes vs)"
  shows "parse_numeric_scaled s \<noteq> None"
proof -
  from assms(1) obtain d' where loop: "to_uniform_loop None vs = Some (out, d')"
    by (auto simp: to_uniform_scaled_def split: bind_splits)
  from assms(2) have "Some s \<in> set vs" by (simp add: set_somes)
  then obtain i where "i < length vs" "vs ! i = Some s" by (auto simp: in_set_conv_nth)
  then show ?thesis
    using to_uniform_loop_spec [OF loop] by (auto dest: list_all2_nthD)
qed

lemma to_uniform_scaled_renders [roundtrips]:
  assumes "to_uniform_scaled vs = Some (out, d)" and "\<forall>s \<in> set (somes vs). numeric_out s"
  shows "map (map_option (\<lambda>m. format_numeric_scaled m d)) out = vs"
proof -
  from assms(1) obtain d' where loop: "to_uniform_loop None vs = Some (out, d')"
    and d: "d = (case d' of None \<Rightarrow> 0 | Some d \<Rightarrow> d)"
    by (auto simp: to_uniform_scaled_def split: bind_splits)
  from to_uniform_loop_spec [OF loop] have rel: "list_all2 (\<lambda>v o'. (v = None \<and> o' = None)
        \<or> (\<exists>s m. v = Some s \<and> o' = Some m \<and> parse_numeric_scaled s = Some (m, the d') \<and> d' \<noteq> None)) vs out" by simp
  show ?thesis
  proof (rule nth_equalityI)
    show len: "length (map (map_option (\<lambda>m. format_numeric_scaled m d)) out) = length vs"
      using list_all2_lengthD [OF rel] by simp
    fix i
    assume "i < length (map (map_option (\<lambda>m. format_numeric_scaled m d)) out)"
    then have i: "i < length vs" "i < length out" using len by simp_all
    from list_all2_nthD [OF rel i(1)]
    show "map (map_option (\<lambda>m. format_numeric_scaled m d)) out ! i = vs ! i"
    proof (elim disjE exE conjE)
      fix s m
      assume v: "vs ! i = Some s" "out ! i = Some m" "parse_numeric_scaled s = Some (m, the d')" "d' \<noteq> None"
      then have "numeric_out s" using assms(2) i nth_mem [OF i(1)] by (simp add: set_somes)
      with v d i show ?thesis by (auto simp: format_parse_numeric)
    qed (use i in simp)
  qed
qed

end
