(* ===== verification/Compress.thy ===== *)
theory Compress
  imports Boolean_Codec Bitpacked Gorilla_Codec Dictionary_Codec Numeric_Scaled Time_Text Typed_Column
begin

unbundle bit_operations_syntax

text \<open>
  Compression and decompression of whole columns (\<^verbatim>\<open>src/compress.rs\<close>): the choice of codec by column
  variant and type name, and the text reader that \<^verbatim>\<open>deltax_decompress_partition\<close> re-inserts from. The
  main lemma gives, for every column kind, the text of every row of a compressed column.
\<close>

section \<open>Compression\<close>

text \<open>The text pipeline on the non-NULL values: dictionary, dictionary with LZ4, or blocked LZ4.\<close>

definition encode_text_values :: "lz4_flex \<Rightarrow> bytes list \<Rightarrow> (CompressionType \<times> bytes) option" where
  "encode_text_values L refs =
     (if should_use_dictionary refs
      then do {
        dict_encoded \<leftarrow> dict_encode refs;
        lz4_encoded \<leftarrow> dict_encode_lz4 L refs;
        Some (if length lz4_encoded < length dict_encoded
              then (DictionaryLz4, lz4_encoded) else (Dictionary, dict_encoded))
      }
      else do {
        encoded \<leftarrow> encode_blocked L refs DEFAULT_BLOCK_SIZE;
        Some (Lz4Blocked, encoded)
      })"

definition compress_column_values :: "lz4_flex \<Rightarrow> bytes option list \<Rightarrow> bytes option" where
  "compress_column_values L values = pack_column (encode_text_values L) values"

definition compress_byte_values :: "lz4_flex \<Rightarrow> bytes option list \<Rightarrow> bytes option" where
  "compress_byte_values L values = compress_column_values L values"

definition compress_binary_values :: "lz4_flex \<Rightarrow> bytes option list \<Rightarrow> bytes option" where
  "compress_binary_values L values = do {
     blob \<leftarrow> compress_byte_values L values;
     case blob of
       [] \<Rightarrow> Some []
     | tag # rest \<Rightarrow> do {
         t \<leftarrow> from_u8 tag;
         Some (as_u8 (to_binary_variant t) # rest)
       }
   }"

definition encode_numeric_payload :: "u8 \<Rightarrow> i64 list \<Rightarrow> (CompressionType \<times> bytes) option" where
  "encode_numeric_payload dscale non_null = do {
     (inner_tag, encoded) \<leftarrow> best_encoding_i64 non_null;
     Some (NumericScaled, [dscale, as_u8 inner_tag] @ encoded)
   }"

text \<open>\<^verbatim>\<open>compress_numeric_scaled\<close> returns \<^verbatim>\<open>None\<close> when the segment does not qualify; the outer option is the panic.\<close>

definition compress_numeric_scaled :: "bytes option list \<Rightarrow> bytes option option" where
  "compress_numeric_scaled values =
     (case to_uniform_scaled values of
        None \<Rightarrow> Some None
      | Some (scaled, dscale) \<Rightarrow> map_option Some (pack_column (encode_numeric_payload dscale) scaled))"

definition is_numeric_type :: "string \<Rightarrow> bool" where
  "is_numeric_type dt \<longleftrightarrow> starts_with dt ''numeric'' \<or> starts_with dt ''decimal''"

definition compress_typed_column :: "lz4_flex \<Rightarrow> bool \<Rightarrow> TypedColumn \<Rightarrow> string \<Rightarrow> bytes option" where
  "compress_typed_column L force col data_type =
     (case col of
        TInt16 values \<Rightarrow> pack_column (\<lambda>non_null. best_encoding_i32 (map scast non_null)) values
      | TInt32 values \<Rightarrow> pack_column best_encoding_i32 values
      | TInt64 values \<Rightarrow>
          let dt = lower data_type
          in if contains_str dt ''timestamp'' \<or> dt = ''date''
             then pack_column (gorilla_tagged encode_timestamps) values
             else pack_column best_encoding_i64 values
      | TFloat64 values \<Rightarrow> pack_column (gorilla_tagged encode_floats) values
      | TFloat32 values \<Rightarrow> pack_column (gorilla_tagged encode_floats_f32) values
      | TBool values \<Rightarrow> pack_column boolean_encode_tagged values
      | TText values \<Rightarrow>
          if is_numeric_type (lower data_type) \<and> \<not> force
          then do {
            r \<leftarrow> compress_numeric_scaled values;
            case r of Some blob \<Rightarrow> Some blob | None \<Rightarrow> compress_column_values L values
          }
          else compress_column_values L values
      | TBytes values \<Rightarrow>
          if lower data_type = ''jsonb'' then compress_byte_values L values
          else compress_binary_values L values)"

section \<open>Decompression to text\<close>

text \<open>
  What the reader calls outside this crate: the \<^verbatim>\<open>Display\<close> rendering of floats, and PostgreSQL's output
  functions for the binary payloads (\<^verbatim>\<open>jsonb\<close>, and by type name \<^verbatim>\<open>uuid\<close>, \<^verbatim>\<open>bytea\<close>, \<^verbatim>\<open>inet\<close>, \<^verbatim>\<open>cidr\<close>).
\<close>

record renderers =
  r_f64 :: "u64 \<Rightarrow> bytes"
  r_f32 :: "u32 \<Rightarrow> bytes"
  r_jsonb :: "bytes \<Rightarrow> bytes"
  r_binary :: "string \<Rightarrow> bytes \<Rightarrow> bytes"

definition ranges_values :: "(bytes \<times> (nat \<times> nat) list) option \<Rightarrow> bytes list option" where
  "ranges_values r = do {
     (buf, ranges) \<leftarrow> r;
     those (map (\<lambda>(off, len). slice buf off (off + len)) ranges)
   }"

definition decode_jsonb :: "lz4_flex \<Rightarrow> CompressionType \<Rightarrow> bytes \<Rightarrow> nat \<Rightarrow> bytes list option" where
  "decode_jsonb L tag payload n =
     (case tag of
        Dictionary \<Rightarrow> decode_to_byte_slices payload n
      | DictionaryLz4 \<Rightarrow> do { normalized \<leftarrow> normalize_lz4 L payload; decode_to_byte_slices normalized n }
      | Lz4 \<Rightarrow> ranges_values (lz4_decode_to_ranges L payload n)
      | Lz4Blocked \<Rightarrow> ranges_values (decode_to_ranges_blocked L payload n None)
      | _ \<Rightarrow> None)"

definition decode_binary :: "lz4_flex \<Rightarrow> CompressionType \<Rightarrow> bytes \<Rightarrow> nat \<Rightarrow> bytes list option" where
  "decode_binary L tag payload n =
     (case tag of
        BinaryDictionary \<Rightarrow> decode_to_byte_slices payload n
      | BinaryDictionaryLz4 \<Rightarrow> do { normalized \<leftarrow> normalize_lz4 L payload; decode_to_byte_slices normalized n }
      | BinaryLz4Blocked \<Rightarrow> ranges_values (decode_to_ranges_blocked L payload n None)
      | _ \<Rightarrow> None)"

definition decode_text :: "lz4_flex \<Rightarrow> CompressionType \<Rightarrow> bytes \<Rightarrow> nat \<Rightarrow> bytes list option" where
  "decode_text L tag payload n =
     (case tag of
        Dictionary \<Rightarrow> dict_decode payload n
      | DictionaryLz4 \<Rightarrow> do { normalized \<leftarrow> normalize_lz4 L payload; dict_decode normalized n }
      | Lz4 \<Rightarrow> lz4_decode L payload n
      | Lz4Blocked \<Rightarrow> decode_blocked L payload n
      | _ \<Rightarrow> None)"

definition decode_numeric :: "bytes \<Rightarrow> nat \<Rightarrow> bytes list option" where
  "decode_numeric payload n = do {
     dscale \<leftarrow> index payload 0;
     inner \<leftarrow> index payload 1;
     inner_tag \<leftarrow> from_u8 inner;
     rest \<leftarrow> slice_from payload 2;
     ints \<leftarrow> decode_tagged_i64 inner_tag rest n;
     Some (map (\<lambda>m. format_numeric_scaled m dscale) ints)
   }"

definition bool_text :: "bool \<Rightarrow> bytes" where
  "bool_text b = (if b then str ''t'' else str ''f'')"

text \<open>The dispatch: the strings of the non-NULL rows.\<close>

definition decode_strings :: "lz4_flex \<Rightarrow> renderers \<Rightarrow> string \<Rightarrow> CompressionType \<Rightarrow> bytes \<Rightarrow> nat \<Rightarrow> bytes list option" where
  "decode_strings L R dt tag payload n =
     (if dt = ''jsonb'' then map_option (map (r_jsonb R)) (decode_jsonb L tag payload n)
      else if tag \<in> {BinaryDictionary, BinaryDictionaryLz4, BinaryLz4Blocked}
      then if dt \<in> {''uuid'', ''bytea'', ''inet'', ''cidr''}
           then map_option (map (r_binary R dt)) (decode_binary L tag payload n) else None
      else if tag = NumericScaled then decode_numeric payload n
      else if (dt = ''time'' \<or> dt = ''time without time zone'') \<and> tag \<in> {DeltaVarint, Constant, ForBitpacked}
      then map_option (map usec_to_time_string) (decode_tagged_i64 tag payload n)
      else if tag = Gorilla
      then if contains_str dt ''timestamp'' \<or> dt = ''date''
           then let timestamps = decode_timestamps payload n
                in Some (map (if dt = ''date'' then usec_to_date_string else usec_to_timestamp_string) timestamps)
           else if dt = ''real'' \<or> dt = ''float4'' then Some (map (r_f32 R) (decode_floats_f32 payload n))
           else Some (map (r_f64 R) (decode_floats payload n))
      else if tag \<in> {DeltaVarint, Constant, ForBitpacked}
      then if dt = ''smallint'' \<or> dt = ''int2''
           then map_option (map (\<lambda>v. dec_int (sint (ucast v :: i16)))) (decode_tagged_i32 tag payload n)
           else if dt = ''integer'' \<or> dt = ''int4''
           then map_option (map (\<lambda>v. dec_int (sint v))) (decode_tagged_i32 tag payload n)
           else map_option (map (\<lambda>v. dec_int (sint v))) (decode_tagged_i64 tag payload n)
      else if tag = BooleanBitmap then map_option (map bool_text) (boolean_decode payload n)
      else decode_text L tag payload n)"

definition decompress_column_values :: "lz4_flex \<Rightarrow> renderers \<Rightarrow> bytes \<Rightarrow> string \<Rightarrow> bytes option list option" where
  "decompress_column_values L R blob data_type =
     (if blob = [] then Some []
      else do {
        cc \<leftarrow> from_bytes blob;
        let total_count = unat (cc_row_count cc);
        non_null_count \<leftarrow> count_non_null (cc_null_bitmap cc) total_count;
        strings \<leftarrow> decode_strings L R (lower data_type) (cc_type_tag cc) (cc_data cc) non_null_count;
        reinsert_nulls strings (cc_null_bitmap cc) total_count
      })"

definition decompress_column_byte_values :: "lz4_flex \<Rightarrow> bytes \<Rightarrow> bytes option list option" where
  "decompress_column_byte_values L blob =
     (if blob = [] then Some []
      else do {
        cc \<leftarrow> from_bytes blob;
        let total_count = unat (cc_row_count cc);
        non_null_count \<leftarrow> count_non_null (cc_null_bitmap cc) total_count;
        bs \<leftarrow> decode_jsonb L (cc_type_tag cc) (cc_data cc) non_null_count;
        reinsert_nulls bs (cc_null_bitmap cc) total_count
      })"

section \<open>The text pipeline decodes\<close>

text \<open>The sizes within which the \<^verbatim>\<open>u16\<close> and \<^verbatim>\<open>u32\<close> fields of the text payloads do not wrap.\<close>

definition text_fits :: "lz4_flex \<Rightarrow> bytes list \<Rightarrow> bool" where
  "text_fits L vs \<longleftrightarrow> length (pack_strings vs) < 2 ^ 32 \<and> div_ceil (length vs) DEFAULT_BLOCK_SIZE < 2 ^ 16
     \<and> (\<forall>buf. encode_blocked L vs DEFAULT_BLOCK_SIZE = Some buf \<longrightarrow> length buf < 2 ^ 32)
     \<and> (\<forall>raw. length raw \<le> length (pack_strings vs) \<longrightarrow> length (compress_prepend_size L raw) < 2 ^ 32)"

lemma ranges_values_at:
  assumes "length ranges = length vs" and "\<forall>r \<in> set ranges. fst r + snd r \<le> length buf"
    and "\<forall>r < length vs. at_range buf (ranges ! r) = vs ! r"
  shows "ranges_values (Some (buf, ranges)) = Some vs"
proof -
  have "those (map (\<lambda>(off, len). slice buf off (off + len)) ranges) = Some (map (at_range buf) ranges)"
    using assms(2) by (intro those_map_Some) (auto simp: slice_def at_range_def)
  moreover have "map (at_range buf) ranges = vs"
    using assms(1,3) by (intro nth_equalityI) auto
  ultimately show ?thesis by (simp add: ranges_values_def)
qed

lemma encode_blocked_total: "0 < bs \<Longrightarrow> \<exists>buf. encode_blocked L vs bs = Some buf"
  by (simp add: encode_blocked_def Let_def)

definition text_decodes :: "lz4_flex \<Rightarrow> CompressionType \<Rightarrow> bytes \<Rightarrow> bytes list \<Rightarrow> bool" where
  "text_decodes L tag payload vs \<longleftrightarrow> tag \<in> {Dictionary, DictionaryLz4, Lz4Blocked}
     \<and> ((\<forall>s \<in> set vs. utf8_valid s) \<longrightarrow> decode_text L tag payload (length vs) = Some vs)
     \<and> decode_jsonb L tag payload (length vs) = Some vs
     \<and> decode_binary L (to_binary_variant tag) payload (length vs) = Some vs"

lemma blocked_text_decodes:
  assumes "lz4_contract L" and "text_fits L vs" and enc: "encode_blocked L vs DEFAULT_BLOCK_SIZE = Some buf"
  shows "text_decodes L Lz4Blocked buf vs"
proof -
  have bs: "0 < DEFAULT_BLOCK_SIZE" "DEFAULT_BLOCK_SIZE < 2 ^ 16" by (simp_all add: DEFAULT_BLOCK_SIZE_def)
  have nb: "div_ceil (length vs) DEFAULT_BLOCK_SIZE < 2 ^ 16"
    and len: "length buf < 2 ^ 32" "length (pack_strings vs) < 2 ^ 32"
    using assms by (auto simp: text_fits_def)
  obtain merged ranges where d: "decode_to_ranges_blocked L buf (length vs) None = Some (merged, ranges)"
    and r: "length ranges = length vs" "\<forall>r \<in> set ranges. fst r + snd r \<le> length merged"
      "\<forall>r < length vs. at_range merged (ranges ! r) = vs ! r"
    using decode_to_ranges_blocked_encode [OF assms(1) enc bs nb len, of None] by (auto simp: row_selected_def)
  show ?thesis
    using d ranges_values_at [OF r] decode_blocked_encode [OF assms(1) enc bs nb len]
    by (simp add: text_decodes_def decode_text_def decode_jsonb_def decode_binary_def)
qed

lemma dict_text_decodes:
  assumes rep: "represents es w idxs vs" and small: "length (pack_strings vs) < 2 ^ 32"
  shows "text_decodes L Dictionary (dict_payload es w idxs) vs"
    and "normalize_lz4 L buf = Some (dict_payload es w idxs) \<Longrightarrow> text_decodes L DictionaryLz4 buf vs"
proof -
  note short = represents_short [OF rep small]
  have "set es = set vs" using rep by (simp add: represents_def)
  then have "(\<forall>s \<in> set vs. utf8_valid s) \<longrightarrow> dict_decode (dict_payload es w idxs) (length vs) = Some vs"
    using payload_decodes(1) [OF rep short] by simp
  moreover note payload_decodes_bytes [OF rep short]
  ultimately show "text_decodes L Dictionary (dict_payload es w idxs) vs"
    and "normalize_lz4 L buf = Some (dict_payload es w idxs) \<Longrightarrow> text_decodes L DictionaryLz4 buf vs"
    by (simp_all add: text_decodes_def decode_text_def decode_jsonb_def decode_binary_def)
qed

lemma encode_text_decodes:
  assumes lz: "lz4_contract L" and fits: "text_fits L vs"
  shows "\<exists>tag payload. encode_text_values L vs = Some (tag, payload) \<and> text_decodes L tag payload vs"
proof (cases "should_use_dictionary vs")
  case True
  then have card: "card (set vs) \<le> 65535" using should_use_dictionary_card by auto
  have small: "length (pack_strings vs) < 2 ^ 32"
    and comp: "\<forall>raw. length raw \<le> length (pack_strings vs) \<longrightarrow> length (compress_prepend_size L raw) < 2 ^ 32"
    using fits by (simp_all add: text_fits_def)
  obtain es w idxs where plain: "dict_encode vs = Some (dict_payload es w idxs)" "represents es w idxs vs"
    using dict_encode_payload [OF card] by blast
  obtain buf es' w' idxs' where lz4: "dict_encode_lz4 L vs = Some buf"
    "normalize_lz4 L buf = Some (dict_payload es' w' idxs')" "represents es' w' idxs' vs"
    using normalize_encode_lz4 [OF lz card small comp] by blast
  show ?thesis
    using True plain lz4 dict_text_decodes(1) [OF plain(2) small] dict_text_decodes(2) [OF lz4(3) small lz4(2)]
    by (simp add: encode_text_values_def)
next
  case False
  obtain buf where "encode_blocked L vs DEFAULT_BLOCK_SIZE = Some buf"
    using encode_blocked_total [of DEFAULT_BLOCK_SIZE L vs] by (auto simp: DEFAULT_BLOCK_SIZE_def)
  with False show ?thesis using blocked_text_decodes [OF lz fits] by (simp add: encode_text_values_def)
qed

section \<open>Every column reads back as the texts of its rows\<close>

lemma compress_binary_values_eq:
  "compress_binary_values L vs = pack_column (\<lambda>xs. map_option (apfst to_binary_variant) (encode_text_values L xs)) vs"
proof -
  have retag: "(case to_bytes cc of None \<Rightarrow> None | Some [] \<Rightarrow> Some []
      | Some (tag # rest) \<Rightarrow> from_u8 tag \<bind> (\<lambda>t. Some (as_u8 (to_binary_variant t) # rest)))
    = to_bytes (cc\<lparr>cc_type_tag := to_binary_variant (cc_type_tag cc)\<rparr>)" for cc
    by (cases "slice (cc_null_bitmap cc) 0 (div_ceil (unat (cc_row_count cc)) 8)") (simp_all add: to_bytes_def Let_def)
  obtain non_null bm where ex: "extract_nulls vs = Some (non_null, bm) \<or> extract_nulls vs = None"
    by (cases "extract_nulls vs") auto
  show ?thesis
  proof (cases "extract_nulls vs = None \<or> encode_text_values L non_null = None")
    case True
    with ex show ?thesis by (auto simp: compress_binary_values_def compress_byte_values_def compress_column_values_def pack_column_def)
  next
    case False
    then obtain tag payload where "encode_text_values L non_null = Some (tag, payload)" by auto
    with ex False retag [of "\<lparr>cc_type_tag = tag, cc_row_count = word_of_nat (length vs), cc_null_bitmap = bm, cc_data = payload\<rparr>"]
    show ?thesis
      by (auto simp: compress_binary_values_def compress_byte_values_def compress_column_values_def pack_column_def
          split: option.splits list.splits)
  qed
qed

lemma column_reads:
  assumes small: "length vs < 2 ^ 32" and enc: "encode (somes vs) = Some (tag, payload)"
    and dec: "decode_strings L R (lower dt) tag payload (length (somes vs)) = Some (map f (somes vs))"
  shows "\<exists>blob. pack_column encode vs = Some blob \<and> decompress_column_values L R blob dt = Some (map (map_option f) vs)"
proof -
  obtain blob bm where b: "pack_column encode vs = Some blob"
    "from_bytes blob = Some \<lparr>cc_type_tag = tag, cc_row_count = word_of_nat (length vs), cc_null_bitmap = bm, cc_data = payload\<rparr>"
    "unat (word_of_nat (length vs) :: u32) = length vs" "count_non_null bm (length vs) = Some (length (somes vs))"
    "reinsert_nulls (map f (somes vs)) bm (length vs) = Some (map (map_option f) vs)" "6 \<le> length blob"
    using pack_column_shape [where encode = encode, OF small enc] by metis
  then have "blob \<noteq> []" by auto
  with b dec show ?thesis by (simp add: decompress_column_values_def Let_def)
qed

lemma decode_tagged_i64_tag: "decode_tagged_i64 tag p n = Some xs \<Longrightarrow> tag \<in> {DeltaVarint, Constant, ForBitpacked}"
  by (cases tag) (simp_all add: decode_tagged_i64_def)

lemma decode_tagged_i32_tag: "decode_tagged_i32 tag p n = Some xs \<Longrightarrow> tag \<in> {DeltaVarint, Constant, ForBitpacked}"
  by (cases tag) (simp_all add: decode_tagged_i32_def)

lemma decode_strings_ints:
  assumes "tag \<in> {DeltaVarint, Constant, ForBitpacked}" and "dt \<noteq> ''jsonb''"
  shows "decode_strings L R dt tag payload n =
    (if dt = ''time'' \<or> dt = ''time without time zone''
     then map_option (map usec_to_time_string) (decode_tagged_i64 tag payload n)
     else if dt = ''smallint'' \<or> dt = ''int2''
     then map_option (map (\<lambda>v. dec_int (sint (ucast v :: i16)))) (decode_tagged_i32 tag payload n)
     else if dt = ''integer'' \<or> dt = ''int4''
     then map_option (map (\<lambda>v. dec_int (sint v))) (decode_tagged_i32 tag payload n)
     else map_option (map (\<lambda>v. dec_int (sint v))) (decode_tagged_i64 tag payload n))"
proof -
  have "tag \<notin> {BinaryDictionary, BinaryDictionaryLz4, BinaryLz4Blocked} \<and> tag \<noteq> NumericScaled \<and> tag \<noteq> Gorilla"
    using assms(1) by (elim insertE emptyE) simp_all
  with assms show ?thesis unfolding decode_strings_def by (simp only: if_False if_True HOL.simp_thms)
qed

definition int64_text :: "string \<Rightarrow> i64 \<Rightarrow> bytes" where
  "int64_text dt =
     (if dt = ''date'' then usec_to_date_string
      else if contains_str dt ''timestamp'' then usec_to_timestamp_string
      else if dt = ''time'' \<or> dt = ''time without time zone'' then usec_to_time_string
      else (\<lambda>v. dec_int (sint v)))"

text \<open>The text of every row, as the re-insert of \<^verbatim>\<open>deltax_decompress_partition\<close> expects it.\<close>

definition column_texts :: "renderers \<Rightarrow> string \<Rightarrow> TypedColumn \<Rightarrow> bytes option list" where
  "column_texts R dt col =
     (case col of
        TInt16 vs \<Rightarrow> map (map_option (\<lambda>v. dec_int (sint v))) vs
      | TInt32 vs \<Rightarrow> map (map_option (\<lambda>v. dec_int (sint v))) vs
      | TInt64 vs \<Rightarrow> map (map_option (int64_text dt)) vs
      | TFloat64 vs \<Rightarrow> map (map_option (r_f64 R)) vs
      | TFloat32 vs \<Rightarrow> map (map_option (r_f32 R)) vs
      | TBool vs \<Rightarrow> map (map_option bool_text) vs
      | TText vs \<Rightarrow> vs
      | TBytes vs \<Rightarrow> map (map_option (if dt = ''jsonb'' then r_jsonb R else r_binary R dt)) vs)"

text \<open>
  The values a column may hold: text is UTF-8 and within the widths of the payloads, and a
  \<^verbatim>\<open>numeric\<close> that the scaled codec takes is a rendering of \<^verbatim>\<open>numeric_out\<close>.
\<close>

fun storable :: "lz4_flex \<Rightarrow> string \<Rightarrow> TypedColumn \<Rightarrow> bool" where
  "storable L dt (TText vs) \<longleftrightarrow> text_fits L (somes vs) \<and> (\<forall>s \<in> set (somes vs). utf8_valid s)
     \<and> (is_numeric_type dt \<longrightarrow> (\<forall>s \<in> set (somes vs). parse_numeric_scaled s \<noteq> None \<longrightarrow> numeric_out s))"
| "storable L dt (TBytes vs) \<longleftrightarrow> text_fits L (somes vs)"
| "storable L dt _ \<longleftrightarrow> True"

definition reads_back :: "lz4_flex \<Rightarrow> renderers \<Rightarrow> bool \<Rightarrow> TypedColumn \<Rightarrow> string \<Rightarrow> bool" where
  "reads_back L R force col dt \<longleftrightarrow> (\<exists>blob. compress_typed_column L force col dt = Some blob
     \<and> decompress_column_values L R blob dt = Some (column_texts R (lower dt) col))"

lemma int16_reads:
  assumes small: "length vs < 2 ^ 32" and dt: "lower dt \<in> {''smallint'', ''int2''}"
  shows "reads_back L R force (TInt16 vs) dt"
proof -
  obtain tag payload where enc: "best_encoding_i32 (map scast (somes vs)) = Some (tag, payload)"
    and dec: "decode_tagged_i32 tag payload (length (somes vs)) = Some (map scast (somes vs))"
    using best_encoding_i32_decodes [of "map scast (somes vs)"] by auto
  have "(ucast (scast v :: i32) :: i16) = v" for v :: i16 by (rule bit_word_eqI) (auto simp: bit_simps)
  with dec dt have "decode_strings L R (lower dt) tag payload (length (somes vs)) = Some (map (\<lambda>v. dec_int (sint v)) (somes vs))"
    by (elim insertE emptyE) (simp_all add: decode_strings_ints [OF decode_tagged_i32_tag [OF dec]])
  from column_reads [where encode = "\<lambda>xs. best_encoding_i32 (map scast xs)", OF small enc this]
  show ?thesis by (simp add: reads_back_def compress_typed_column_def column_texts_def)
qed

lemma int32_reads:
  assumes small: "length vs < 2 ^ 32" and dt: "lower dt \<in> {''integer'', ''int4''}"
  shows "reads_back L R force (TInt32 vs) dt"
proof -
  obtain tag payload where enc: "best_encoding_i32 (somes vs) = Some (tag, payload)"
    and dec: "decode_tagged_i32 tag payload (length (somes vs)) = Some (somes vs)"
    using best_encoding_i32_decodes by blast
  from dec dt have "decode_strings L R (lower dt) tag payload (length (somes vs)) = Some (map (\<lambda>v. dec_int (sint v)) (somes vs))"
    by (elim insertE emptyE) (simp_all add: decode_strings_ints [OF decode_tagged_i32_tag [OF dec]])
  from column_reads [where encode = best_encoding_i32, OF small enc this]
  show ?thesis by (simp add: reads_back_def compress_typed_column_def column_texts_def)
qed

lemma int64_reads:
  assumes small: "length vs < 2 ^ 32" and dt: "lower dt \<in> {''bigint'', ''int8'', ''time'', ''time without time zone''}"
  shows "reads_back L R force (TInt64 vs) dt"
proof -
  obtain tag payload where enc: "best_encoding_i64 (somes vs) = Some (tag, payload)"
    and dec: "decode_tagged_i64 tag payload (length (somes vs)) = Some (somes vs)"
    using best_encoding_i64_decodes by blast
  have nt: "\<not> contains_str (lower dt) ''timestamp''" "lower dt \<noteq> ''date''"
    using dt by (auto simp: starts_with_def)
  from dt dec nt have "decode_strings L R (lower dt) tag payload (length (somes vs)) = Some (map (int64_text (lower dt)) (somes vs))"
    by (elim insertE emptyE) (simp_all add: decode_strings_ints [OF decode_tagged_i64_tag [OF dec]] int64_text_def)
  from column_reads [where encode = best_encoding_i64, OF small enc this] nt
  show ?thesis by (simp add: reads_back_def compress_typed_column_def column_texts_def Let_def)
qed

lemma timestamp_reads:
  assumes small: "length vs < 2 ^ 32" and dt: "lower dt = ''date'' \<or> contains_str (lower dt) ''timestamp''"
  shows "reads_back L R force (TInt64 vs) dt"
proof -
  have ne: "lower dt \<notin> {''jsonb'', ''time'', ''time without time zone''}"
    using dt by (auto simp: starts_with_def)
  have enc: "gorilla_tagged encode_timestamps (somes vs) = Some (Gorilla, encode_timestamps (somes vs))"
    by (simp add: gorilla_tagged_def)
  have "decode_strings L R (lower dt) Gorilla (encode_timestamps (somes vs)) (length (somes vs))
      = Some (map (int64_text (lower dt)) (somes vs))"
    using ne dt by (auto simp: decode_strings_def int64_text_def)
  from column_reads [where encode = "gorilla_tagged encode_timestamps", OF small enc this] dt
  show ?thesis by (auto simp: reads_back_def compress_typed_column_def column_texts_def Let_def)
qed

lemma float64_reads:
  assumes small: "length vs < 2 ^ 32" and dt: "lower dt \<in> {''double precision'', ''float8''}"
  shows "reads_back L R force (TFloat64 vs) dt"
proof -
  have enc: "gorilla_tagged encode_floats (somes vs) = Some (Gorilla, encode_floats (somes vs))"
    by (simp add: gorilla_tagged_def)
  have "decode_strings L R (lower dt) Gorilla (encode_floats (somes vs)) (length (somes vs)) = Some (map (r_f64 R) (somes vs))"
    using dt by (auto simp: decode_strings_def starts_with_def)
  from column_reads [where encode = "gorilla_tagged encode_floats", OF small enc this]
  show ?thesis by (simp add: reads_back_def compress_typed_column_def column_texts_def)
qed

lemma float32_reads:
  assumes small: "length vs < 2 ^ 32" and dt: "lower dt \<in> {''real'', ''float4''}"
  shows "reads_back L R force (TFloat32 vs) dt"
proof -
  have enc: "gorilla_tagged encode_floats_f32 (somes vs) = Some (Gorilla, encode_floats_f32 (somes vs))"
    by (simp add: gorilla_tagged_def)
  have "decode_strings L R (lower dt) Gorilla (encode_floats_f32 (somes vs)) (length (somes vs)) = Some (map (r_f32 R) (somes vs))"
    using dt by (auto simp: decode_strings_def starts_with_def)
  from column_reads [where encode = "gorilla_tagged encode_floats_f32", OF small enc this]
  show ?thesis by (simp add: reads_back_def compress_typed_column_def column_texts_def)
qed

lemma bool_reads:
  assumes small: "length vs < 2 ^ 32" and dt: "lower dt \<in> {''boolean'', ''bool''}"
  shows "reads_back L R force (TBool vs) dt"
proof -
  obtain buf where b: "boolean_encode (somes vs) = Some buf" "boolean_decode buf (length (somes vs)) = Some (somes vs)"
    using boolean_decode_encode by blast
  then have enc: "boolean_encode_tagged (somes vs) = Some (BooleanBitmap, buf)"
    by (simp add: boolean_encode_tagged_def)
  have "decode_strings L R (lower dt) BooleanBitmap buf (length (somes vs)) = Some (map bool_text (somes vs))"
    using dt b by (auto simp: decode_strings_def)
  from column_reads [where encode = boolean_encode_tagged, OF small enc this]
  show ?thesis by (simp add: reads_back_def compress_typed_column_def column_texts_def)
qed

lemma decode_strings_text:
  assumes "tag \<in> {Dictionary, DictionaryLz4, Lz4Blocked}"
  shows "dt \<noteq> ''jsonb'' \<Longrightarrow> decode_strings L R dt tag payload n = decode_text L tag payload n"
    and "decode_strings L R ''jsonb'' tag payload n = map_option (map (r_jsonb R)) (decode_jsonb L tag payload n)"
    and "dt \<in> {''uuid'', ''bytea'', ''inet'', ''cidr''} \<Longrightarrow>
      decode_strings L R dt (to_binary_variant tag) payload n
        = map_option (map (r_binary R dt)) (decode_binary L (to_binary_variant tag) payload n)"
proof -
  have "tag \<notin> {BinaryDictionary, BinaryDictionaryLz4, BinaryLz4Blocked, NumericScaled, Gorilla, DeltaVarint, Constant, ForBitpacked, BooleanBitmap}"
    and bin: "to_binary_variant tag \<in> {BinaryDictionary, BinaryDictionaryLz4, BinaryLz4Blocked}"
    using assms by (elim insertE emptyE; simp)+
  then show "dt \<noteq> ''jsonb'' \<Longrightarrow> decode_strings L R dt tag payload n = decode_text L tag payload n"
    unfolding decode_strings_def by simp
  show "decode_strings L R ''jsonb'' tag payload n = map_option (map (r_jsonb R)) (decode_jsonb L tag payload n)"
    unfolding decode_strings_def by simp
  assume dt: "dt \<in> {''uuid'', ''bytea'', ''inet'', ''cidr''}"
  then have "dt \<noteq> ''jsonb''" by (elim insertE emptyE) simp_all
  with dt bin show "decode_strings L R dt (to_binary_variant tag) payload n
        = map_option (map (r_binary R dt)) (decode_binary L (to_binary_variant tag) payload n)"
    unfolding decode_strings_def by (simp only: if_True if_False)
qed

lemma plain_text_reads:
  assumes small: "length vs < 2 ^ 32" and lz: "lz4_contract L" and fits: "text_fits L (somes vs)"
    and utf8: "\<forall>s \<in> set (somes vs). utf8_valid s" and dt: "lower dt \<noteq> ''jsonb''"
  shows "\<exists>blob. compress_column_values L vs = Some blob \<and> decompress_column_values L R blob dt = Some vs"
proof -
  obtain tag payload where enc: "encode_text_values L (somes vs) = Some (tag, payload)"
    and dec: "text_decodes L tag payload (somes vs)"
    using encode_text_decodes [OF lz fits] by blast
  have "decode_strings L R (lower dt) tag payload (length (somes vs)) = Some (map (\<lambda>s. s) (somes vs))"
    using dec utf8 decode_strings_text(1) [OF _ dt] by (simp add: text_decodes_def)
  from column_reads [where encode = "encode_text_values L", OF small enc this]
  show ?thesis by (simp add: compress_column_values_def option.map_ident map_idI)
qed

lemma decode_numeric_payload:
  assumes "decode_tagged_i64 t p n = Some ms"
  shows "decode_numeric ([d, as_u8 t] @ p) n = Some (map (\<lambda>m. format_numeric_scaled m d) ms)"
  using assms by (simp add: decode_numeric_def index_def slice_from_def)

lemma numeric_reads:
  assumes small: "length vs < 2 ^ 32" and scaled: "to_uniform_scaled vs = Some (out, d)"
    and outs: "\<forall>s \<in> set (somes vs). parse_numeric_scaled s \<noteq> None \<longrightarrow> numeric_out s" and dt: "lower dt \<noteq> ''jsonb''"
  shows "\<exists>blob. pack_column (encode_numeric_payload d) out = Some blob \<and> decompress_column_values L R blob dt = Some vs"
proof -
  have "\<forall>s \<in> set (somes vs). numeric_out s" using outs to_uniform_scaled_parses [OF scaled] by blast
  note renders = to_uniform_scaled_renders [OF scaled this]
  then have len: "length out = length vs" by (metis length_map)
  obtain tag payload where best: "best_encoding_i64 (somes out) = Some (tag, payload)"
    and dec: "decode_tagged_i64 tag payload (length (somes out)) = Some (somes out)"
    using best_encoding_i64_decodes by blast
  then have enc: "encode_numeric_payload d (somes out) = Some (NumericScaled, [d, as_u8 tag] @ payload)"
    by (simp add: encode_numeric_payload_def)
  have "decode_strings L R (lower dt) NumericScaled ([d, as_u8 tag] @ payload) (length (somes out))
      = Some (map (\<lambda>m. format_numeric_scaled m d) (somes out))"
    using dt decode_numeric_payload [OF dec] by (simp add: decode_strings_def)
  from column_reads [where encode = "encode_numeric_payload d", OF _ enc this] small len
  show ?thesis by (simp add: renders)
qed

lemma text_reads:
  assumes small: "length vs < 2 ^ 32" and lz: "lz4_contract L" and ok: "storable L (lower dt) (TText vs)"
    and dt: "lower dt \<noteq> ''jsonb''"
  shows "reads_back L R force (TText vs) dt"
proof -
  have plain: "\<exists>blob. compress_column_values L vs = Some blob \<and> decompress_column_values L R blob dt = Some vs"
    using plain_text_reads [OF small lz _ _ dt] ok by simp
  show ?thesis
  proof (cases "is_numeric_type (lower dt) \<and> \<not> force \<and> to_uniform_scaled vs \<noteq> None")
    case True
    then obtain out d where scaled: "to_uniform_scaled vs = Some (out, d)" by auto
    have "\<forall>s \<in> set (somes vs). parse_numeric_scaled s \<noteq> None \<longrightarrow> numeric_out s" using ok True by simp
    from numeric_reads [OF small scaled this dt, of L R] True scaled
    show ?thesis by (auto simp: reads_back_def compress_typed_column_def column_texts_def compress_numeric_scaled_def)
  next
    case False
    then have "is_numeric_type (lower dt) \<and> \<not> force \<Longrightarrow> to_uniform_scaled vs = None" by blast
    with plain show ?thesis
      by (auto simp: reads_back_def compress_typed_column_def column_texts_def compress_numeric_scaled_def)
  qed
qed

lemma bytes_reads:
  assumes small: "length vs < 2 ^ 32" and lz: "lz4_contract L" and fits: "text_fits L (somes vs)"
    and dt: "lower dt \<in> {''jsonb'', ''uuid'', ''bytea'', ''inet'', ''cidr''}"
  shows "reads_back L R force (TBytes vs) dt"
proof -
  obtain tag payload where enc: "encode_text_values L (somes vs) = Some (tag, payload)"
    and dec: "text_decodes L tag payload (somes vs)"
    using encode_text_decodes [OF lz fits] by blast
  have tag: "tag \<in> {Dictionary, DictionaryLz4, Lz4Blocked}" using dec by (simp add: text_decodes_def)
  show ?thesis
  proof (cases "lower dt = ''jsonb''")
    case True
    then have "decode_strings L R (lower dt) tag payload (length (somes vs)) = Some (map (r_jsonb R) (somes vs))"
      using dec decode_strings_text(2) [OF tag] by (simp add: text_decodes_def)
    from column_reads [where encode = "encode_text_values L", OF small enc this] True
    show ?thesis by (simp add: reads_back_def compress_typed_column_def column_texts_def compress_byte_values_def compress_column_values_def)
  next
    case False
    let ?enc = "\<lambda>xs. map_option (apfst to_binary_variant) (encode_text_values L xs)"
    have enc': "?enc (somes vs) = Some (to_binary_variant tag, payload)" using enc by simp
    have "decode_strings L R (lower dt) (to_binary_variant tag) payload (length (somes vs)) = Some (map (r_binary R (lower dt)) (somes vs))"
      using dec dt False decode_strings_text(3) [OF tag, of "lower dt"] by (simp add: text_decodes_def)
    from column_reads [where encode = ?enc, OF small enc' this] False
    show ?thesis by (simp add: reads_back_def compress_typed_column_def column_texts_def compress_binary_values_eq)
  qed
qed

text \<open>
  The column of \<^verbatim>\<open>new_typed_column (classify_column dt)\<close>, filled with storable values, compresses and
  reads back as the texts of its rows, whatever the type.
\<close>

lemma typed_column_reads:
  assumes "rows col < 2 ^ 32" and "lz4_contract L" and "storable L (lower dt) col"
    and variant: "same_variant col (new_typed_column (classify_column force dt False))"
  shows "reads_back L R force col dt"
proof (cases col)
  case (TText vs)
  with variant have "lower dt \<noteq> ''jsonb''"
    by (auto simp: classify_column_def Let_def same_variant_def split: if_splits)
  with TText assms text_reads show ?thesis by simp
next
  case (TBytes vs)
  with variant have "lower dt \<in> {''jsonb'', ''uuid'', ''bytea'', ''inet'', ''cidr''}"
    by (auto simp: classify_column_def Let_def same_variant_def split: if_splits)
  with TBytes assms bytes_reads show ?thesis by simp
next
  case (TInt16 vs)
  with variant have "lower dt \<in> {''smallint'', ''int2''}"
    by (auto simp: classify_column_def Let_def same_variant_def split: if_splits)
  with TInt16 assms int16_reads show ?thesis by simp
next
  case (TInt32 vs)
  with variant have "lower dt \<in> {''integer'', ''int4''}"
    by (auto simp: classify_column_def Let_def same_variant_def split: if_splits)
  with TInt32 assms int32_reads show ?thesis by simp
next
  case (TInt64 vs)
  with variant have "lower dt \<in> {''bigint'', ''int8'', ''time'', ''time without time zone''}
      \<or> lower dt = ''date'' \<or> contains_str (lower dt) ''timestamp''"
    by (auto simp: classify_column_def Let_def same_variant_def starts_with_def split: if_splits)
  with TInt64 assms int64_reads timestamp_reads show ?thesis by auto
next
  case (TFloat32 vs)
  with variant have "lower dt \<in> {''real'', ''float4''}"
    by (auto simp: classify_column_def Let_def same_variant_def split: if_splits)
  with TFloat32 assms float32_reads show ?thesis by simp
next
  case (TFloat64 vs)
  with variant have "lower dt \<in> {''double precision'', ''float8''}"
    by (auto simp: classify_column_def Let_def same_variant_def split: if_splits)
  with TFloat64 assms float64_reads show ?thesis by simp
next
  case (TBool vs)
  with variant have "lower dt \<in> {''boolean'', ''bool''}"
    by (auto simp: classify_column_def Let_def same_variant_def split: if_splits)
  with TBool assms bool_reads show ?thesis by simp
qed

lemma byte_values_roundtrip:
  assumes small: "length vs < 2 ^ 32" and lz: "lz4_contract L" and fits: "text_fits L (somes vs)"
  shows "\<exists>blob. compress_byte_values L vs = Some blob \<and> decompress_column_byte_values L blob = Some vs"
proof -
  obtain tag payload where enc: "encode_text_values L (somes vs) = Some (tag, payload)"
    and dec: "text_decodes L tag payload (somes vs)"
    using encode_text_decodes [OF lz fits] by blast
  obtain blob bm where b: "pack_column (encode_text_values L) vs = Some blob"
    "from_bytes blob = Some \<lparr>cc_type_tag = tag, cc_row_count = word_of_nat (length vs), cc_null_bitmap = bm, cc_data = payload\<rparr>"
    "unat (word_of_nat (length vs) :: u32) = length vs" "count_non_null bm (length vs) = Some (length (somes vs))"
    "reinsert_nulls (map (\<lambda>x. x) (somes vs)) bm (length vs) = Some (map (map_option (\<lambda>x. x)) vs)" "6 \<le> length blob"
    using pack_column_shape [where encode = "encode_text_values L", OF small enc] by metis
  then have "blob \<noteq> []" by auto
  with b dec show ?thesis
    by (simp add: decompress_column_byte_values_def compress_byte_values_def compress_column_values_def text_decodes_def
        Let_def option.map_ident map_idI)
qed

end
