(* ===== verification/Copy_Reload.thy ===== *)
theory Copy_Reload
  imports Copy_Fields Compress
begin

unbundle bit_operations_syntax

text \<open>
  Dumping and reloading: the text that decompression gives for a column, written as COPY fields and
  read back field by field, rebuilds the column.  The fields go through unescaping and the parser of
  the column's kind.
\<close>

fun load_fields ::
  "Memchr \<Rightarrow> jsonb_in \<Rightarrow> bytes \<Rightarrow> ColumnKind \<Rightarrow> bytes list \<Rightarrow> TypedColumn \<Rightarrow> nat \<Rightarrow> u64 \<Rightarrow> parse_result" where
  "load_fields M J null_string kind [] col col_idx line_no = Some (Inr col)"
| "load_fields M J null_string kind (raw # raws) col col_idx line_no =
    (case parse_raw_field_and_append M J raw null_string kind col col_idx line_no of
       Some (Inr col') \<Rightarrow> load_fields M J null_string kind raws col' col_idx (line_no + 1)
     | r \<Rightarrow> r)"

lemma parse_raw_field_text:
  assumes M: "memchr_contract M" and d: "delimiter_ok d" and valid: "\<And>s. f = Some s \<Longrightarrow> utf8_valid s"
  shows "parse_raw_field_and_append M J (field_text d f) null_text kind col i l
    = (case f of None \<Rightarrow> push_null col | Some s \<Rightarrow> parse_str_and_append J s kind col i l)"
proof (cases f)
  case (Some s)
  let ?raw = "field_text d (Some s)"
  have ne: "?raw \<noteq> null_text" using escaped_not_null [OF d, of s] by (simp add: field_text_def)
  have read: "unescape_field_always M ?raw = Some s"
    using read_field_text [OF M d, of f] valid Some ne by (auto simp: read_field_def)
  have plain: "?raw = s" if "memchr M BACKSLASH ?raw = None"
    using read that by (simp add: unescape_field_always_def)
  have s: "utf8_valid s" using valid Some by blast
  show ?thesis
  proof (cases "memchr M BACKSLASH ?raw = None")
    case True
    have raw: "?raw = s" using plain [OF True] .
    show ?thesis using True read ne s unfolding Some raw
      by (cases kind) (simp_all add: parse_raw_field_and_append_def parse_str_and_append_def)
  next
    case False
    then obtain k where "memchr M BACKSLASH ?raw = Some k" by blast
    with read ne Some show ?thesis
      by (cases kind) (simp_all add: parse_raw_field_and_append_def parse_str_and_append_def)
  qed
qed (simp add: field_text_def parse_raw_field_and_append_def)

lemma load_fields_text:
  fixes mk :: "'a option list \<Rightarrow> TypedColumn"
  assumes M: "memchr_contract M" and d: "delimiter_ok d"
    and null: "\<And>v. push_typed_null (mk v) = mk (v @ [None])"
    and step: "\<And>x v i l. Some x \<in> set vs \<Longrightarrow> utf8_valid (t x)
      \<and> parse_str_and_append J (t x) kind (mk v) i l = Some (Inr (mk (v @ [Some x])))"
  shows "load_fields M J null_text kind (map (field_text d) (map (map_option t) vs)) (mk acc) i l = Some (Inr (mk (acc @ vs)))"
  using step
proof (induction vs arbitrary: acc l)
  case (Cons x vs)
  have head: "parse_raw_field_and_append M J (field_text d (map_option t x)) null_text kind (mk acc) i l = Some (Inr (mk (acc @ [x])))"
    using Cons.prems null parse_raw_field_text [OF M d, of "map_option t x"] by (cases x) (simp_all add: push_null_def)
  have "load_fields M J null_text kind (map (field_text d) (map (map_option t) vs)) (mk (acc @ [x])) i (l + 1)
    = Some (Inr (mk ((acc @ [x]) @ vs)))"
    using Cons.prems by (intro Cons.IH) simp
  then show ?case using head by simp
qed simp

section \<open>Texts that the parsers read back\<close>

definition ascii :: "bytes \<Rightarrow> bool" where
  "ascii s \<longleftrightarrow> (\<forall>c \<in> set s. c < 0x80)"

lemma ascii_utf8: "ascii s \<Longrightarrow> utf8_valid s"
  by (induction s) (simp_all add: ascii_def)

lemma ascii_append [simp]: "ascii (a @ b) \<longleftrightarrow> ascii a \<and> ascii b" "ascii (c # a) \<longleftrightarrow> c < 0x80 \<and> ascii a" "ascii []"
  by (auto simp: ascii_def)

lemma is_digit_ascii: "is_digit c \<Longrightarrow> c < 0x80"
  by (simp add: is_digit_iff word_less_nat_alt)

lemma ascii_digits:
  "ascii (dec n)" "ascii (pad_zeros w (dec n))" "ascii (dec_int i)" "ascii (fmt0 w i)"
proof -
  show "ascii (dec n)" "ascii (pad_zeros w (dec n))" for n w
    using dec_digits [of _ n] pad_zeros_is_digits [of _ w n] by (auto simp: ascii_def is_digit_ascii)
  then show "ascii (dec_int i)" "ascii (fmt0 w i)" by (simp_all add: dec_int_def fmt0_def)
qed

lemma ascii_trim_end_zeros: "ascii s \<Longrightarrow> ascii (trim_end_zeros s)"
  unfolding ascii_def trim_end_zeros_def using set_dropWhileD [of _ _ "rev s"] by fastforce

lemma ascii_times: "ascii (date_text ymd)" "ascii (clock_text h m s)" "ascii (frac_text f)"
  by (simp_all add: date_text_def clock_text_def frac_text_def ascii_digits ascii_trim_end_zeros split: prod.splits)

lemma ascii_usec:
  "ascii (usec_to_timestamp_string u)" "ascii (usec_to_date_string u)" "ascii (usec_to_time_string u)"
  by (simp_all add: usec_to_timestamp_string_def usec_to_date_string_def usec_to_time_string_def Let_def
      ascii_times ascii_digits split: prod.splits)

lemma parse_signed_dec_int:
  assumes "- (2 ^ (bits - 1)) \<le> i" and "i < 2 ^ (bits - 1)"
  shows "parse_signed bits (dec_int i) = Some i"
proof -
  have digits: "list_all is_digit (dec n)" for n using dec_digits by (auto simp: list_all_iff)
  have head: "(case dec n of [] \<Rightarrow> (False, []) | c # cs \<Rightarrow> if c = 0x2D then (True, cs) else if c = 0x2B then (False, cs) else (False, dec n))
      = (False, dec n)" for n
    using dec_digits [of "hd (dec n)" n] not_digit_bytes by (cases "dec n") auto
  show ?thesis using assms digits head by (auto simp: parse_signed_def dec_int_def Let_def split: prod.splits)
qed

lemma parse_date_only:
  assumes "in_four_digit_years days"
  shows "parse_timestamp_to_usec (date_text (epoch_days_to_date days)) = Some (word_of_int (days * 86400 * 1000000))"
proof -
  obtain y mo d Y Mo D where ymd: "epoch_days_to_date days = (y, mo, d)" "date_to_epoch_days y mo d = days"
    "date_text (y, mo, d) = Y @ [0x2D] @ Mo @ [0x2D] @ D" "length Y = 4" "length Mo = 2" "length D = 2"
    "\<forall>c \<in> set Y \<union> set Mo \<union> set D. is_digit c"
    "parse_int_fast Y = y" "parse_int_fast Mo = mo" "parse_int_fast D = d"
    using date_text_shape [OF assms] by metis
  let ?s = "Y @ [0x2D] @ Mo @ [0x2D] @ D"
  obtain c Y' where Y: "Y = c # Y'" using ymd(4) by (cases Y) auto
  obtain D' e where D: "D = D' @ [e]" using ymd(6) by (cases D rule: rev_cases) auto
  have "trim ?s = ?s"
    using ymd(7) Y D by (intro trim_id [of c e _ "Y' @ [0x2D] @ Mo @ [0x2D] @ D" "Y @ [0x2D] @ Mo @ [0x2D] @ D'"]) auto
  moreover have "position (\<lambda>c. c = 0x20) ?s = None"
    using ymd(7) not_digit_bytes(1) by (auto simp: position_None)
  moreover have "\<not> 10 < length ?s" using ymd(4-6) by simp
  ultimately show ?thesis using parse_date_text [OF ymd(4-6)] ymd(1-3,8-10)
    by (simp add: parse_timestamp_to_usec_def Let_def)
qed

definition midnight :: "i64 \<Rightarrow> int \<Rightarrow> bool" where
  "midnight u days \<longleftrightarrow> sint u = days * 86400000000"

lemma parse_usec_to_date_string [roundtrips]:
  assumes "midnight u days" and "in_four_digit_years days" and "- 100000000 < days"
  shows "parse_timestamp_to_usec (usec_to_date_string u) = Some u"
proof -
  have u: "sint u = days * 86400000000" using assms(1) by (simp add: midnight_def)
  have "usec_to_date_string u = date_text (epoch_days_to_date days)"
  proof (cases "0 \<le> days")
    case True
    then show ?thesis using u by (simp add: usec_to_date_string_def Let_def signed_divide_int_def sgn_if)
  next
    case False
    have "u - 999999 = word_of_int (sint u - 999999)" by simp
    moreover have "sint (word_of_int (sint u - 999999) :: i64) = sint u - 999999"
      unfolding signed_of_int of_int_eq_id id_apply
      using u assms(3) False by (intro signed_take_bit_int_eq_self) simp_all
    ultimately have "sint (u - 999999) = days * 86400000000 - 999999" using u by simp
    moreover have "(days * 86400000000 - 999999) sdiv 1000000 = days * 86400"
      using False by (simp add: signed_divide_int_def sgn_if) 
    moreover have "(days * 86400 - 86399) sdiv 86400 = days" using False by (simp add: signed_divide_int_def sgn_if)
    ultimately show ?thesis using u False by (simp add: usec_to_date_string_def Let_def)
  qed
  moreover have "days * 86400 * 1000000 = sint u" using u by simp
  ultimately show ?thesis using parse_date_only [OF assms(2)] by (simp only: word_of_int_sint)
qed

section \<open>The column is rebuilt\<close>

text \<open>Values whose text determines them: four-digit years, whole days in a date column, times of day,
  valid UTF-8.  Floats and binary payloads are written by renderers outside the crate.\<close>

fun reloadable :: "ColumnKind \<Rightarrow> TypedColumn \<Rightarrow> bool" where
  "reloadable KInt16 col \<longleftrightarrow> True"
| "reloadable KInt32 col \<longleftrightarrow> True"
| "reloadable KInt64 col \<longleftrightarrow> True"
| "reloadable KBool col \<longleftrightarrow> True"
| "reloadable KText (TText vs) \<longleftrightarrow> (\<forall>s. Some s \<in> set vs \<longrightarrow> utf8_valid s)"
| "reloadable KTimestamp (TInt64 vs) \<longleftrightarrow> (\<forall>u. Some u \<in> set vs \<longrightarrow> in_four_digit_years (sint u div 1000000 div 86400))"
| "reloadable KTimestampTz (TInt64 vs) \<longleftrightarrow> (\<forall>u. Some u \<in> set vs \<longrightarrow> in_four_digit_years (sint u div 1000000 div 86400))"
| "reloadable KDate (TInt64 vs) \<longleftrightarrow>
    (\<forall>u. Some u \<in> set vs \<longrightarrow> (\<exists>days. midnight u days \<and> in_four_digit_years days \<and> - 100000000 < days))"
| "reloadable KTime (TInt64 vs) \<longleftrightarrow> (\<forall>u. Some u \<in> set vs \<longrightarrow> 0 \<le> sint u \<and> sint u \<le> 86400000000)"
| "reloadable kind col \<longleftrightarrow> False"

lemma parse_dec_word: "parse_signed LENGTH('w) (dec_int (sint v)) = Some (sint (v :: 'w::len word))"
  using sint_lt [of v] sint_ge [of v] by (intro parse_signed_dec_int) simp_all

lemmas parse_dec_words = parse_dec_word [where 'w = 16, simplified] parse_dec_word [where 'w = 32, simplified]
  parse_dec_word [where 'w = 64, simplified]

lemma parse_bool_text: "parse_bool (bool_text b) = Some b" "utf8_valid (bool_text b)"
  by (cases b; simp add: parse_bool_def bool_text_def str_def)+

text \<open>One parsed value per kind.\<close>

lemma parse_rendered:
  "parse_str_and_append J (dec_int (sint a)) KInt16 (TInt16 v) i l = Some (Inr (TInt16 (v @ [Some a])))"
  "parse_str_and_append J (dec_int (sint b)) KInt32 (TInt32 w) i l = Some (Inr (TInt32 (w @ [Some b])))"
  "parse_str_and_append J (dec_int (sint c)) KInt64 (TInt64 x) i l = Some (Inr (TInt64 (x @ [Some c])))"
  "parse_str_and_append J (bool_text f) KBool (TBool y) i l = Some (Inr (TBool (y @ [Some f])))"
  "parse_str_and_append J s KText (TText z) i l = Some (Inr (TText (z @ [Some s])))"
  by (simp_all add: parse_str_and_append_def pushed_def parse_dec_words parse_bool_text)

lemma parse_rendered_times:
  "in_four_digit_years (sint u div 1000000 div 86400) \<Longrightarrow>
    parse_str_and_append J (usec_to_timestamp_string u) KTimestamp (TInt64 v) i l = Some (Inr (TInt64 (v @ [Some u])))"
  "in_four_digit_years (sint u div 1000000 div 86400) \<Longrightarrow>
    parse_str_and_append J (usec_to_timestamp_string u) KTimestampTz (TInt64 v) i l = Some (Inr (TInt64 (v @ [Some u])))"
  "midnight u days \<Longrightarrow> in_four_digit_years days \<Longrightarrow> - 100000000 < days \<Longrightarrow>
    parse_str_and_append J (usec_to_date_string u) KDate (TInt64 v) i l = Some (Inr (TInt64 (v @ [Some u])))"
  "0 \<le> sint u \<Longrightarrow> sint u \<le> 86400000000 \<Longrightarrow>
    parse_str_and_append J (usec_to_time_string u) KTime (TInt64 v) i l = Some (Inr (TInt64 (v @ [Some u])))"
  by (simp_all add: parse_str_and_append_def pushed_def parse_usec_to_timestamp_string parse_usec_to_date_string
      parse_usec_to_time_string)

text \<open>The rendering of a column of a kind, and the column it came from.\<close>

lemma reload_column:
  assumes M: "memchr_contract M" and d: "delimiter_ok d"
    and kind: "kind = classify_column force dt False" and "same_variant col (new_typed_column kind)" and "reloadable kind col"
  shows "load_fields M J null_text kind (map (field_text d) (column_texts R (lower dt) col)) (new_typed_column kind) i l
    = Some (Inr col)"
proof -
  have texts: "kind = KInt64 \<Longrightarrow> int64_text (lower dt) = (\<lambda>v. dec_int (sint v))"
    "kind = KTimestamp \<Longrightarrow> int64_text (lower dt) = usec_to_timestamp_string"
    "kind = KTimestampTz \<Longrightarrow> int64_text (lower dt) = usec_to_timestamp_string"
    "kind = KDate \<Longrightarrow> int64_text (lower dt) = usec_to_date_string"
    "kind = KTime \<Longrightarrow> int64_text (lower dt) = usec_to_time_string"
    using kind by (auto simp: classify_column_def int64_text_def Let_def starts_with_def split: if_splits)
  note load = load_fields_text [OF M d, where acc = "[]", unfolded append_Nil]
  note valid = ascii_utf8 [OF ascii_digits(3)] ascii_utf8 [OF ascii_usec(1)] ascii_utf8 [OF ascii_usec(2)]
    ascii_utf8 [OF ascii_usec(3)] parse_bool_text(2)
  show ?thesis
  proof (cases kind)
    case KText
    then obtain vs where "col = TText vs" using assms(4) by (cases col) (simp_all add: same_variant_def)
    then show ?thesis using load [where mk = TText and vs = vs and t = "\<lambda>s. s" and kind = KText] assms(5) KText
      by (simp add: column_texts_def parse_rendered option.map_ident comp_def)
  next
    case KInt16
    then obtain vs where "col = TInt16 vs" using assms(4) by (cases col) (simp_all add: same_variant_def)
    then show ?thesis using load [where mk = TInt16 and vs = vs and kind = KInt16] KInt16
      by (simp add: column_texts_def parse_rendered valid)
  next
    case KInt32
    then obtain vs where "col = TInt32 vs" using assms(4) by (cases col) (simp_all add: same_variant_def)
    then show ?thesis using load [where mk = TInt32 and vs = vs and kind = KInt32] KInt32
      by (simp add: column_texts_def parse_rendered valid)
  next
    case KBool
    then obtain vs where "col = TBool vs" using assms(4) by (cases col) (simp_all add: same_variant_def)
    then show ?thesis using load [where mk = TBool and vs = vs and kind = KBool] KBool
      by (simp add: column_texts_def parse_rendered valid)
  next
    case KInt64
    then obtain vs where "col = TInt64 vs" using assms(4) by (cases col) (simp_all add: same_variant_def)
    then show ?thesis using load [where mk = TInt64 and vs = vs and kind = KInt64] KInt64 texts
      by (simp add: column_texts_def parse_rendered valid)
  next
    case KTimestamp
    then obtain vs where "col = TInt64 vs" using assms(4) by (cases col) (simp_all add: same_variant_def)
    then show ?thesis using load [where mk = TInt64 and vs = vs and kind = KTimestamp] KTimestamp texts assms(5)
      by (simp add: column_texts_def parse_rendered_times valid)
  next
    case KTimestampTz
    then obtain vs where "col = TInt64 vs" using assms(4) by (cases col) (simp_all add: same_variant_def)
    then show ?thesis using load [where mk = TInt64 and vs = vs and kind = KTimestampTz] KTimestampTz texts assms(5)
      by (simp add: column_texts_def parse_rendered_times valid)
  next
    case KDate
    then obtain vs where "col = TInt64 vs" using assms(4) by (cases col) (simp_all add: same_variant_def)
    then show ?thesis using load [where mk = TInt64 and vs = vs and kind = KDate and t = usec_to_date_string] KDate texts assms(5)
        parse_rendered_times(3) by (simp add: column_texts_def valid) metis
  next
    case KTime
    then obtain vs where "col = TInt64 vs" using assms(4) by (cases col) (simp_all add: same_variant_def)
    then show ?thesis using load [where mk = TInt64 and vs = vs and kind = KTime] KTime texts assms(5)
      by (simp add: column_texts_def parse_rendered_times valid)
  qed (use assms(5) in simp_all)
qed

end
