(* ===== verification/Pruning.thy ===== *)
theory Pruning
  imports Batch_Qual Dictionary_Codec
begin

unbundle bit_operations_syntax

text \<open>
  Segment pruning from metadata (\<^verbatim>\<open>src/scan/exec/segments.rs\<close>): minimum/maximum filters, the
  classification of a segment by its quals, dictionary checks and tombstones. The main lemmas say that a
  segment that is skipped holds no row that the quals accept.
\<close>

section \<open>Encoding of constants\<close>

definition PG_EPOCH_OFFSET_USEC :: i64 where "PG_EPOCH_OFFSET_USEC = 946684800000000"
definition PG_EPOCH_OFFSET_DAYS :: i64 where "PG_EPOCH_OFFSET_DAYS = 10957"

definition encode_datum_to_i64 :: "datum \<Rightarrow> oid \<Rightarrow> i64 option" where
  "encode_datum_to_i64 d t =
     (if t = INT2OID \<or> t = INT4OID \<or> t = INT8OID then Some d
      else if t = TIMESTAMPOID \<or> t = TIMESTAMPTZOID then Some (d + PG_EPOCH_OFFSET_USEC)
      else if t = DATEOID then Some ((scast (ucast d :: i32) + PG_EPOCH_OFFSET_DAYS) * 86400000000)
      else if t = TIMEOID then Some d
      else if t = FLOAT4OID then Some (encode_f32_to_i64 (ucast d))
      else if t = FLOAT8OID then Some (encode_f64_to_i64 d)
      else None)"

section \<open>Minimum/maximum filters\<close>

record MinMaxFilter =
  f_col_idx :: i16
  f_op :: BatchCompareOp
  f_const_i64 :: i64
  f_in_list_i64 :: "i64 list option"

definition segment_passes_minmax_filter :: "MinMaxFilter \<Rightarrow> i64 \<Rightarrow> i64 \<Rightarrow> bool" where
  "segment_passes_minmax_filter f seg_min seg_max =
     (case f_op f of
        InList \<Rightarrow> (case f_in_list_i64 f of
                     Some values \<Rightarrow> list_ex (\<lambda>v. sint v \<ge> sint seg_min \<and> sint v \<le> sint seg_max) values
                   | None \<Rightarrow> True)
      | Eq \<Rightarrow> sint seg_min \<le> sint (f_const_i64 f) \<and> sint seg_max \<ge> sint (f_const_i64 f)
      | Ne \<Rightarrow> \<not> (seg_min = f_const_i64 f \<and> seg_max = f_const_i64 f)
      | Lt \<Rightarrow> sint seg_min < sint (f_const_i64 f)
      | Le \<Rightarrow> sint seg_min \<le> sint (f_const_i64 f)
      | Gt \<Rightarrow> sint seg_max > sint (f_const_i64 f)
      | Ge \<Rightarrow> sint seg_max \<ge> sint (f_const_i64 f)
      | _ \<Rightarrow> True)"

text \<open>
  The filters that \<^verbatim>\<open>load_segments_heap\<close> builds for the column statistics: no \<^verbatim>\<open>LIKE\<close>, no column that the
  meta table already covers, no segment-by column, no column without a blob or already used as a point
  lookup, and only constants that encode.
\<close>

definition minmax_filter_of ::
    "string list \<Rightarrow> string list \<Rightarrow> string list \<Rightarrow> u16 option list \<Rightarrow> i16 list \<Rightarrow> BatchQual \<Rightarrow> MinMaxFilter list option" where
  "minmax_filter_of col_names segment_by attno_names col_idx_map point_prefilter_cols bq =
     (if op bq \<in> {Like, NotLike} then Some []
      else do {
        col_name \<leftarrow> index col_names (col_idx bq);
        if ''_min_'' @ col_name \<in> set attno_names \<or> col_name \<in> set segment_by then Some []
        else do {
          ci_opt \<leftarrow> index col_idx_map (col_idx bq);
          case ci_opt of
            None \<Rightarrow> Some []
          | Some ci16 \<Rightarrow>
              if ucast ci16 \<in> set point_prefilter_cols then Some []
              else (case encode_datum_to_i64 (const_datum bq) (type_oid bq) of
                      None \<Rightarrow> Some []
                    | Some const_i64 \<Rightarrow>
                        (case in_list_i64 bq of
                           None \<Rightarrow> Some [\<lparr>f_col_idx = ucast ci16, f_op = op bq, f_const_i64 = const_i64, f_in_list_i64 = None\<rparr>]
                         | Some vals \<Rightarrow>
                             (case those (map (\<lambda>v. encode_datum_to_i64 v (type_oid bq)) vals) of
                                None \<Rightarrow> Some []
                              | Some enc \<Rightarrow>
                                  Some [\<lparr>f_col_idx = ucast ci16, f_op = op bq, f_const_i64 = const_i64, f_in_list_i64 = Some enc\<rparr>])))
        }
      })"

definition build_minmax_filters ::
    "string list \<Rightarrow> string list \<Rightarrow> string list \<Rightarrow> u16 option list \<Rightarrow> i16 list \<Rightarrow> BatchQual list \<Rightarrow> MinMaxFilter list option" where
  "build_minmax_filters col_names segment_by attno_names col_idx_map point_prefilter_cols bqs =
     map_option concat (those (map (minmax_filter_of col_names segment_by attno_names col_idx_map point_prefilter_cols) bqs))"

section \<open>Whole-segment classification\<close>

record ColMinMax =
  min_encoded :: i64
  max_encoded :: i64
  min_null :: bool
  max_null :: bool
  cm_type_oid :: oid

record ColSum =
  nonnull_count :: i64
  nonzero_count :: i64

definition segment_all_rows_pass :: "ColMinMax \<Rightarrow> BatchCompareOp \<Rightarrow> datum \<Rightarrow> bool option" where
  "segment_all_rows_pass cm p const =
     (if min_null cm \<or> max_null cm then None
      else do {
        c \<leftarrow> encode_datum_to_i64 const (cm_type_oid cm);
        let mn = sint (min_encoded cm);
        let mx = sint (max_encoded cm);
        let k = sint c;
        case p of
          Eq \<Rightarrow> if mn = k \<and> mx = k then Some True else if mx < k \<or> mn > k then Some False else None
        | Ne \<Rightarrow> if mn > k \<or> mx < k then Some True else if mn = k \<and> mx = k then Some False else None
        | Gt \<Rightarrow> if mn > k then Some True else if mx \<le> k then Some False else None
        | Ge \<Rightarrow> if mn \<ge> k then Some True else if mx < k then Some False else None
        | Lt \<Rightarrow> if mx < k then Some True else if mn \<ge> k then Some False else None
        | Le \<Rightarrow> if mx \<le> k then Some True else if mn > k then Some False else None
        | _ \<Rightarrow> None
      })"

datatype SegmentQualResult = AllPass | NonePass | Ambiguous

definition is_zero_const :: "datum \<Rightarrow> oid \<Rightarrow> bool" where
  "is_zero_const d t =
     (if t = INT2OID then (ucast d :: i16) = 0
      else if t = INT4OID then (ucast d :: i32) = 0
      else if t = INT8OID then d = 0
      else if t = FLOAT4OID then \<not> is_nan32 (ucast d) \<and> float_key (ucast d :: u32) = 0
      else if t = FLOAT8OID then \<not> is_nan64 d \<and> float_key d = 0
      else False)"

text \<open>The part of \<^verbatim>\<open>SegmentData\<close> the classification and the tombstones read.\<close>

record SegmentData =
  row_count :: i32
  col_minmax :: "string \<rightharpoonup> ColMinMax"
  col_sums :: "string \<rightharpoonup> ColSum"
  tombstones :: "u32 list option"

fun numeric_quals_loop ::
    "SegmentData \<Rightarrow> string list \<Rightarrow> BatchQual list \<Rightarrow> bool \<Rightarrow> bool \<Rightarrow> bool \<Rightarrow> (bool \<times> bool \<times> bool) option" where
  "numeric_quals_loop seg col_names [] any_numeric any_nonepass any_ambiguous = Some (any_numeric, any_nonepass, any_ambiguous)"
| "numeric_quals_loop seg col_names (bq # bqs) any_numeric any_nonepass any_ambiguous =
     (if \<not> is_batch_comparable_type (type_oid bq)
      then numeric_quals_loop seg col_names bqs any_numeric any_nonepass any_ambiguous
      else do {
        col_name \<leftarrow> index col_names (col_idx bq);
        case col_minmax seg col_name of
          None \<Rightarrow> numeric_quals_loop seg col_names bqs True any_nonepass True
        | Some cm \<Rightarrow>
            (case segment_all_rows_pass cm (op bq) (const_datum bq) of
               Some True \<Rightarrow> numeric_quals_loop seg col_names bqs True any_nonepass any_ambiguous
             | Some False \<Rightarrow> numeric_quals_loop seg col_names bqs True True any_ambiguous
             | None \<Rightarrow> numeric_quals_loop seg col_names bqs True any_nonepass True)
      })"

text \<open>The NULL check of both classifiers over the quals that \<open>skip\<close> does not exempt.\<close>

fun nonnull_check :: "SegmentData \<Rightarrow> string list \<Rightarrow> (BatchQual \<Rightarrow> string \<Rightarrow> bool) \<Rightarrow> BatchQual list \<Rightarrow> SegmentQualResult option" where
  "nonnull_check seg col_names exempt [] = Some AllPass"
| "nonnull_check seg col_names exempt (bq # bqs) = do {
     col_name \<leftarrow> index col_names (col_idx bq);
     if exempt bq col_name then nonnull_check seg col_names exempt bqs
     else (case col_sums seg col_name of
             Some cs \<Rightarrow> if sint (nonnull_count cs) < sint (row_count seg) then Some Ambiguous
                        else nonnull_check seg col_names exempt bqs
           | None \<Rightarrow> Some Ambiguous)
   }"

definition classify_segment_quals_numeric :: "SegmentData \<Rightarrow> BatchQual list \<Rightarrow> string list \<Rightarrow> SegmentQualResult option" where
  "classify_segment_quals_numeric seg bqs col_names = do {
     (any_numeric, any_nonepass, any_ambiguous) \<leftarrow> numeric_quals_loop seg col_names bqs False False False;
     if \<not> any_numeric then Some Ambiguous
     else if any_nonepass then Some NonePass
     else if any_ambiguous then Some Ambiguous
     else nonnull_check seg col_names (\<lambda>_ _. False) (filter (\<lambda>bq. is_batch_comparable_type (type_oid bq)) bqs)
   }"

text \<open>\<^verbatim>\<open>Inl r\<close> is an early return of the first loop, \<^verbatim>\<open>Inr any_nonepass\<close> its fall-through.\<close>

fun quals_loop ::
    "SegmentData \<Rightarrow> string list \<Rightarrow> BatchQual list \<Rightarrow> bool \<Rightarrow> (SegmentQualResult + bool) option" where
  "quals_loop seg col_names [] any_nonepass = Some (Inr any_nonepass)"
| "quals_loop seg col_names (bq # bqs) any_nonepass = do {
     col_name \<leftarrow> index col_names (col_idx bq);
     case col_minmax seg col_name of
       None \<Rightarrow> Some (Inl Ambiguous)
     | Some cm \<Rightarrow>
         (case segment_all_rows_pass cm (op bq) (const_datum bq) of
            Some True \<Rightarrow> quals_loop seg col_names bqs any_nonepass
          | Some False \<Rightarrow> Some (Inl NonePass)
          | None \<Rightarrow>
              (case col_sums seg col_name of
                 Some cs \<Rightarrow>
                   if is_zero_const (const_datum bq) (type_oid bq) \<and> 0 \<le> sint (nonzero_count cs)
                      \<and> sint (nonnull_count cs) = sint (row_count seg)
                      \<and> (op bq = Ne \<and> nonzero_count cs = 0 \<or> op bq = Eq \<and> nonzero_count cs = nonnull_count cs)
                   then quals_loop seg col_names bqs True
                   else Some (Inl Ambiguous)
               | None \<Rightarrow> Some (Inl Ambiguous)))
   }"

definition classify_segment_quals :: "SegmentData \<Rightarrow> BatchQual list \<Rightarrow> string list \<Rightarrow> string \<Rightarrow> SegmentQualResult option" where
  "classify_segment_quals seg bqs col_names time_column = do {
     r \<leftarrow> quals_loop seg col_names bqs False;
     case r of
       Inl res \<Rightarrow> Some res
     | Inr any_nonepass \<Rightarrow>
         if any_nonepass then Some NonePass
         else nonnull_check seg col_names (\<lambda>_ col_name. col_name = time_column) bqs
   }"

section \<open>Tombstones\<close>

definition live_row_count :: "SegmentData \<Rightarrow> i32" where
  "live_row_count seg =
     (case tombstones seg of Some t \<Rightarrow> row_count seg - word_of_nat (length t) | None \<Rightarrow> row_count seg)"

definition clear_offsets :: "u32 list \<Rightarrow> bool list \<Rightarrow> bool list" where
  "clear_offsets offs sel = fold (\<lambda>off sel. if unat off < length sel then sel[unat off := False] else sel) offs sel"

definition tombstone_preselection :: "SegmentData \<Rightarrow> nat \<Rightarrow> bool list option" where
  "tombstone_preselection seg n = map_option (\<lambda>tombs. clear_offsets tombs (replicate n True)) (tombstones seg)"

section \<open>The encoding agrees with the comparisons\<close>

text \<open>
  Datums on which the encoding is exact: sign-extended integers, timestamps and dates whose Unix-epoch
  microseconds fit 64 bits. A float constant must be neither zero (\<open>-0.0\<close> encodes below \<open>0.0\<close>) nor a NaN.
\<close>

definition datum_ok :: "oid \<Rightarrow> datum \<Rightarrow> bool" where
  "datum_ok t d \<longleftrightarrow>
     (t = INT2OID \<longrightarrow> scast (ucast d :: i16) = d)
     \<and> (t \<in> {INT4OID, DATEOID} \<longrightarrow> scast (ucast d :: i32) = d)
     \<and> (t \<in> {TIMESTAMPOID, TIMESTAMPTZOID} \<longrightarrow> sint d < 2 ^ 63 - 946684800000000)
     \<and> (t = DATEOID \<longrightarrow> - 106751991 \<le> sint d + 10957 \<and> sint d + 10957 \<le> 106751991)"

definition const_ok :: "oid \<Rightarrow> datum \<Rightarrow> bool" where
  "const_ok t c \<longleftrightarrow> datum_ok t c
     \<and> (t = FLOAT8OID \<longrightarrow> \<not> is_nan64 c \<and> float_mag c \<noteq> 0)
     \<and> (t = FLOAT4OID \<longrightarrow> \<not> is_nan32 (ucast c) \<and> float_mag (ucast c :: u32) \<noteq> 0)"

fun holds :: "BatchCompareOp \<Rightarrow> int \<Rightarrow> int \<Rightarrow> bool" where
  "holds Eq a b = (a = b)"
| "holds Ne a b = (a \<noteq> b)"
| "holds Lt a b = (a < b)"
| "holds Le a b = (a \<le> b)"
| "holds Gt a b = (a > b)"
| "holds Ge a b = (a \<ge> b)"
| "holds _ a b = True"

lemma signed_test_holds: "signed_test p v c = Some b \<Longrightarrow> b \<longleftrightarrow> holds p (sint v) (sint c)"
  by (cases p) (auto dest: signed_word_eqI)

lemma sint_word_sum_small:
  fixes d off :: i64
  assumes "0 \<le> sint off" and "sint d + sint off < 2 ^ 63"
  shows "sint (d + off) = sint d + sint off"
  using assms sint_greater_eq [of d] by (simp add: sint_word_ariths signed_take_bit_int_eq_self)

lemma sint_word_prod_small:
  fixes a b :: i64
  assumes "- (2 ^ 63) \<le> sint a * sint b" and "sint a * sint b < 2 ^ 63"
  shows "sint (a * b) = sint a * sint b"
  using assms by (simp add: sint_word_ariths signed_take_bit_int_eq_self)

lemma sint_narrow:
  assumes "scast (ucast d :: 'b::len word) = (d :: i64)" and "LENGTH('b) \<le> 64"
  shows "sint (ucast d :: 'b word) = sint d"
proof -
  have "sint (scast (ucast d :: 'b word) :: i64) = sint (ucast d :: 'b word)"
    using assms(2) by (intro sint_up_scast) (simp add: is_up)
  with assms(1) show ?thesis by simp
qed

lemma sint_date_usec:
  fixes d :: i64
  assumes "- 106751991 \<le> sint d + 10957" and "sint d + 10957 \<le> 106751991"
  shows "sint ((d + 10957) * 86400000000) = (sint d + 10957) * 86400000000"
proof -
  have sum: "sint (d + 10957) = sint d + 10957"
    using assms sint_word_sum_small [of 10957 d] by simp
  have "(sint d + 10957) * 86400000000 \<le> 106751991 * 86400000000" "- 106751991 * 86400000000 \<le> (sint d + 10957) * 86400000000"
    using assms by (intro mult_right_mono; simp)+
  then show ?thesis using sint_word_prod_small [of "d + 10957" 86400000000] sum by simp
qed

lemma float_test_encoded:
  fixes v c :: "'a::len word"
  assumes nan: "\<And>b. is_nan b \<longleftrightarrow> K < float_mag b" and "\<not> is_nan c" and "float_mag c \<noteq> 0"
    and "float_test is_nan p v c = Some True"
  shows "holds p (if float_neg v then - float_mag v - 1 else float_mag v) (if float_neg c then - float_mag c - 1 else float_mag c)"
proof -
  have "0 \<le> float_mag v" "0 < float_mag c" using assms(3) float_mag_nonneg [of v] float_mag_nonneg [of c] by linarith+
  with assms(2,4) nan [of v] nan [of c] show ?thesis
    by (cases p) (auto simp: float_test_def Let_def float_key_def split: if_splits)
qed

lemma float_test_complete:
  fixes v c :: "'a::len word"
  assumes "\<not> is_nan v" and "\<not> is_nan c" and "float_mag c \<noteq> 0" and "p \<in> {Eq, Ne, Lt, Le, Gt, Ge}"
    and "holds p (if float_neg v then - float_mag v - 1 else float_mag v) (if float_neg c then - float_mag c - 1 else float_mag c)"
  shows "float_test is_nan p v c = Some True"
proof -
  have "0 \<le> float_mag v" "0 < float_mag c" using assms(3) float_mag_nonneg [of v] float_mag_nonneg [of c] by linarith+
  with assms show ?thesis
    by (cases p) (auto simp: float_test_def Let_def float_key_def split: if_splits)
qed

definition exact_type :: "oid \<Rightarrow> bool" where
  "exact_type t \<longleftrightarrow> t \<in> {INT2OID, INT4OID, INT8OID, DATEOID, TIMESTAMPOID, TIMESTAMPTZOID}"

lemma encode_exact:
  assumes "exact_type t"
  shows "\<exists>f. strict_mono f \<and> (\<forall>d. datum_ok t d \<longrightarrow> (\<exists>e. encode_datum_to_i64 d t = Some e \<and> sint e = f (sint d)))"
proof -
  consider "t \<in> {INT2OID, INT4OID, INT8OID}" | "t \<in> {TIMESTAMPOID, TIMESTAMPTZOID}" | "t = DATEOID"
    using assms by (auto simp: exact_type_def)
  then show ?thesis
  proof cases
    case 1
    then show ?thesis by (intro exI [of _ id]) (auto simp: encode_datum_to_i64_def strict_mono_def)
  next
    case 2
    then show ?thesis
      by (intro exI [of _ "\<lambda>x. x + 946684800000000"])
        (auto simp: encode_datum_to_i64_def strict_mono_def PG_EPOCH_OFFSET_USEC_def datum_ok_def sint_word_sum_small)
  next
    case 3
    have "\<exists>e. encode_datum_to_i64 d t = Some e \<and> sint e = (sint d + 10957) * 86400000000" if "datum_ok t d" for d
      using that 3 sint_date_usec [of d]
      by (simp only: encode_datum_to_i64_def PG_EPOCH_OFFSET_DAYS_def datum_ok_def) simp
    then show ?thesis by (intro exI [of _ "\<lambda>x. (x + 10957) * 86400000000"]) (simp add: strict_mono_def)
  qed
qed

lemma holds_mono: "strict_mono f \<Longrightarrow> holds p (f a) (f b) \<longleftrightarrow> holds p a b" for f :: "int \<Rightarrow> int"
  by (cases p) (simp_all add: strict_mono_eq strict_mono_less strict_mono_less_eq)

lemma exact_encoded:
  assumes "exact_type t" and "datum_ok t d" and "datum_ok t c"
    and "encode_datum_to_i64 d t = Some e" and "encode_datum_to_i64 c t = Some k"
  shows "holds p (sint e) (sint k) \<longleftrightarrow> holds p (sint d) (sint c)"
proof -
  obtain f where f: "strict_mono f" "\<forall>d. datum_ok t d \<longrightarrow> (\<exists>e. encode_datum_to_i64 d t = Some e \<and> sint e = f (sint d))"
    using encode_exact [OF assms(1)] by blast
  then have "sint e = f (sint d)" "sint k = f (sint c)" using assms(2-5) by fastforce+
  with holds_mono [OF f(1)] show ?thesis by simp
qed

text \<open>The test of an exact type is the comparison of the sign-extended datums.\<close>

lemma exact_qual_test:
  assumes "exact_type (type_oid bq)" and "op bq \<noteq> InList" and "qual_test bq = Some tst"
    and "datum_ok (type_oid bq) d" and "datum_ok (type_oid bq) (const_datum bq)" and "tst d = Some b"
  shows "b \<longleftrightarrow> holds (op bq) (sint d) (sint (const_datum bq))"
proof -
  let ?t = "type_oid bq" and ?c = "const_datum bq"
  consider "?t \<in> {INT8OID, TIMESTAMPOID, TIMESTAMPTZOID}" | "?t \<in> {INT4OID, DATEOID}" | "?t = INT2OID"
    using assms(1) by (auto simp: exact_type_def)
  then show ?thesis
  proof cases
    case 1
    then have "signed_test (op bq) d ?c = Some b" using assms(2,3,6) by (auto simp: qual_test_def Let_def)
    then show ?thesis by (rule signed_test_holds)
  next
    case 2
    then have "signed_test (op bq) (ucast d :: i32) (ucast ?c) = Some b" using assms(2,3,6) by (auto simp: qual_test_def Let_def)
    moreover have "sint (ucast d :: i32) = sint d" "sint (ucast ?c :: i32) = sint ?c"
      by (rule sint_narrow; use 2 assms(4,5) in \<open>auto simp: datum_ok_def\<close>)+
    ultimately show ?thesis using signed_test_holds by metis
  next
    case 3
    then have "signed_test (op bq) (ucast d :: i16) (ucast ?c) = Some b" using assms(2,3,6) by (auto simp: qual_test_def Let_def)
    moreover have "sint (ucast d :: i16) = sint d" "sint (ucast ?c :: i16) = sint ?c"
      by (rule sint_narrow; use 3 assms(4,5) in \<open>auto simp: datum_ok_def\<close>)+
    ultimately show ?thesis using signed_test_holds by metis
  qed
qed

lemma qual_test_encoded:
  assumes "op bq \<noteq> InList" and "qual_test bq = Some tst" and "datum_ok (type_oid bq) d"
    and "const_ok (type_oid bq) (const_datum bq)" and "tst d = Some True"
    and "encode_datum_to_i64 d (type_oid bq) = Some e" and "encode_datum_to_i64 (const_datum bq) (type_oid bq) = Some k"
  shows "holds (op bq) (sint e) (sint k)"
proof -
  have ok: "datum_ok (type_oid bq) (const_datum bq)" using assms(4) by (simp add: const_ok_def)
  consider (exact) "exact_type (type_oid bq)" | (f8) "type_oid bq = FLOAT8OID" | (f4) "type_oid bq = FLOAT4OID"
    using assms(1,2,6) by (auto simp: qual_test_def Let_def exact_type_def encode_datum_to_i64_def split: if_splits)
  then show ?thesis
  proof cases
    case exact
    with exact_encoded [OF exact assms(3) ok assms(6,7)] exact_qual_test [OF exact assms(1,2,3) ok assms(5)]
    show ?thesis by simp
  next
    case f8
    then have "float_test is_nan64 (op bq) d (const_datum bq) = Some True" using assms(1,2,5) by (auto simp: qual_test_def)
    with f8 assms(4,6,7) show ?thesis
      using float_test_encoded [of is_nan64 "0x7FF0000000000000" "const_datum bq"]
      by (auto simp: const_ok_def is_nan64_def encode_datum_to_i64_def sint_encode_f64)
  next
    case f4
    then have "float_test is_nan32 (op bq) (ucast d) (ucast (const_datum bq)) = Some True"
      using assms(1,2,5) by (auto simp: qual_test_def)
    with f4 assms(4,6,7) show ?thesis
      using float_test_encoded [of is_nan32 "0x7F800000" "ucast (const_datum bq)"]
      by (auto simp: const_ok_def is_nan32_def encode_datum_to_i64_def sint_encode_f32)
  qed
qed

section \<open>A pruned segment holds no matching row\<close>

definition qual_ok :: "BatchQual \<Rightarrow> bool" where
  "qual_ok bq \<longleftrightarrow> const_ok (type_oid bq) (const_datum bq)
     \<and> (\<forall>vs v. in_list_i64 bq = Some vs \<longrightarrow> v \<in> set vs \<longrightarrow> datum_ok (type_oid bq) v)"

lemma holds_in_range:
  assumes "p \<noteq> InList" and "sint mn \<le> e" and "e \<le> sint mx" and "holds p e (sint (f_const_i64 f))" and "f_op f = p"
  shows "segment_passes_minmax_filter f mn mx"
  using assms by (cases p) (auto simp: segment_passes_minmax_filter_def)

lemma in_list_datum:
  assumes "op bq = InList" and "in_list_i64 bq = Some vs" and "qual_test bq = Some tst" and "tst d = Some True"
    and "datum_ok (type_oid bq) d" and "\<forall>v \<in> set vs. datum_ok (type_oid bq) v"
  shows "d \<in> set vs"
proof -
  have narrow: "d = v" if "ucast d = (ucast v :: 'b::len word)" "scast (ucast d :: 'b word) = d" "scast (ucast v :: 'b word) = v" for v
    using that by metis
  consider "type_oid bq = INT2OID" | "type_oid bq \<in> {INT4OID, DATEOID}" | "type_oid bq \<in> {INT8OID, TIMESTAMPOID, TIMESTAMPTZOID}"
    using assms(1-3) by (auto simp: qual_test_def Let_def split: if_splits)
  then show ?thesis
  proof cases
    case 1
    then obtain v where "v \<in> set vs" "(ucast d :: i16) = ucast v" using assms(1-4) by (auto simp: qual_test_def)
    then show ?thesis using 1 assms(5,6) narrow by (fastforce simp: datum_ok_def)
  next
    case 2
    then obtain v where "v \<in> set vs" "(ucast d :: i32) = ucast v" using assms(1-4) by (auto simp: qual_test_def)
    then show ?thesis using 2 assms(5,6) narrow by (fastforce simp: datum_ok_def)
  next
    case 3
    then show ?thesis using assms(1-4) by (auto simp: qual_test_def)
  qed
qed

text \<open>The filter built for a qual lets every segment through that has an accepted row.\<close>

lemma minmax_filter_sound:
  assumes filt: "minmax_filter_of col_names segment_by attno_names col_idx_map point_cols bq = Some [f]"
    and ok: "qual_ok bq" "datum_ok (type_oid bq) d" and evaluated: "qual_test bq \<noteq> None"
    and row: "row_ok bq (d, n)" and enc: "encode_datum_to_i64 d (type_oid bq) = Some e"
    and "sint mn \<le> sint e" and "sint e \<le> sint mx"
  shows "segment_passes_minmax_filter f mn mx"
proof -
  obtain tst where tst: "qual_test bq = Some tst" "tst d = Some True" using evaluated row by (auto simp: row_ok_def)
  obtain k where k: "encode_datum_to_i64 (const_datum bq) (type_oid bq) = Some k" "f_op f = op bq" "f_const_i64 f = k"
    "f_in_list_i64 f = Option.bind (in_list_i64 bq) (\<lambda>vs. those (map (\<lambda>v. encode_datum_to_i64 v (type_oid bq)) vs))"
    using filt by (auto simp: minmax_filter_of_def split: if_splits option.splits bind_splits)
  show ?thesis
  proof (cases "op bq = InList")
    case True
    show ?thesis
    proof (cases "in_list_i64 bq")
      case (Some vs)
      have "d \<in> set vs" using in_list_datum [OF True Some tst ok(2)] ok(1) Some by (simp add: qual_ok_def)
      then obtain i where i: "i < length vs" "vs ! i = d" by (metis in_set_conv_nth)
      have "e \<in> set es" if "those (map (\<lambda>v. encode_datum_to_i64 v (type_oid bq)) vs) = Some es" for es
        using that \<open>d \<in> set vs\<close> enc by (induction vs arbitrary: es) (auto split: option.splits)
      then show ?thesis using True Some k assms(7,8)
        by (auto simp: segment_passes_minmax_filter_def list_ex_iff split: option.split)
    qed (use True k in \<open>simp add: segment_passes_minmax_filter_def\<close>)
  next
    case False
    have "holds (op bq) (sint e) (sint k)"
      using qual_test_encoded [OF False tst(1) ok(2) _ tst(2) enc k(1)] ok(1) by (simp add: qual_ok_def)
    with False k assms(7,8) show ?thesis using holds_in_range by blast
  qed
qed

section \<open>The classification of a segment is right\<close>

text \<open>A value the metadata may answer for: exact, and no NaN (PostgreSQL and the filters order NaNs differently).\<close>

definition value_ok :: "oid \<Rightarrow> datum \<Rightarrow> bool" where
  "value_ok t d \<longleftrightarrow> datum_ok t d \<and> (t = FLOAT8OID \<longrightarrow> \<not> is_nan64 d) \<and> (t = FLOAT4OID \<longrightarrow> \<not> is_nan32 (ucast d))"

definition ordered_type :: "oid \<Rightarrow> bool" where
  "ordered_type t \<longleftrightarrow> exact_type t \<or> t = FLOAT8OID \<or> t = FLOAT4OID"

lemma qual_test_complete:
  assumes "ordered_type (type_oid bq)" and "op bq \<in> {Eq, Ne, Lt, Le, Gt, Ge}" and "value_ok (type_oid bq) d"
    and "const_ok (type_oid bq) (const_datum bq)"
    and "encode_datum_to_i64 d (type_oid bq) = Some e" and "encode_datum_to_i64 (const_datum bq) (type_oid bq) = Some k"
    and "holds (op bq) (sint e) (sint k)"
  shows "row_ok bq (d, False)"
proof -
  have ok: "datum_ok (type_oid bq) d" "datum_ok (type_oid bq) (const_datum bq)"
    using assms(3,4) by (simp_all add: const_ok_def value_ok_def)
  have ni: "op bq \<noteq> InList" using assms(2) by auto
  consider (exact) "exact_type (type_oid bq)" | (f8) "type_oid bq = FLOAT8OID" | (f4) "type_oid bq = FLOAT4OID"
    using assms(1) by (auto simp: ordered_type_def)
  then show ?thesis
  proof cases
    case exact
    then obtain tst where tst: "qual_test bq = Some tst" using ni by (auto simp: qual_test_def Let_def exact_type_def)
    moreover have "comparable_qual bq" using assms(2) by (auto simp: comparable_qual_def)
    ultimately obtain b where b: "tst d = Some b" using qual_test_total by blast
    then have b_def: "b \<longleftrightarrow> holds (op bq) (sint d) (sint (const_datum bq))"
      using exact_qual_test [OF exact ni tst ok] by blast
    then have b by (simp only: exact_encoded [OF exact ok assms(5,6), symmetric] assms(7))
    with tst b show ?thesis by (simp add: row_ok_def)
  next
    case f8
    then have "float_test is_nan64 (op bq) d (const_datum bq) = Some True"
      using assms(2-7) by (intro float_test_complete) (auto simp: value_ok_def const_ok_def encode_datum_to_i64_def sint_encode_f64)
    with f8 ni show ?thesis by (simp add: row_ok_def qual_test_def)
  next
    case f4
    then have "float_test is_nan32 (op bq) (ucast d) (ucast (const_datum bq)) = Some True"
      using assms(2-7) by (intro float_test_complete) (auto simp: value_ok_def const_ok_def encode_datum_to_i64_def sint_encode_f32)
    with f4 ni show ?thesis by (simp add: row_ok_def qual_test_def)
  qed
qed

lemma encode_ordered: "ordered_type t \<Longrightarrow> \<exists>e. encode_datum_to_i64 d t = Some e"
  by (auto simp: ordered_type_def exact_type_def encode_datum_to_i64_def)

text \<open>\<open>cm\<close> covers the non-NULL cells of a column of its type.\<close>

definition covers :: "ColMinMax \<Rightarrow> cell list \<Rightarrow> bool" where
  "covers cm col \<longleftrightarrow> (\<not> min_null cm \<and> \<not> max_null cm \<longrightarrow>
     (\<forall>d e. (d, False) \<in> set col \<longrightarrow> encode_datum_to_i64 d (cm_type_oid cm) = Some e \<longrightarrow>
        sint (min_encoded cm) \<le> sint e \<and> sint e \<le> sint (max_encoded cm)))"

lemma segment_all_rows_pass_sound:
  assumes r: "segment_all_rows_pass cm (op bq) (const_datum bq) = Some b" and "covers cm col"
    and t: "cm_type_oid cm = type_oid bq" "ordered_type (type_oid bq)" and cell: "(d, False) \<in> set col"
    and ok: "const_ok (type_oid bq) (const_datum bq)" "value_ok (type_oid bq) d"
  shows "row_ok bq (d, False) \<longleftrightarrow> b"
proof -
  obtain e where e: "encode_datum_to_i64 d (type_oid bq) = Some e" using encode_ordered [OF t(2)] by blast
  obtain k where k: "encode_datum_to_i64 (const_datum bq) (type_oid bq) = Some k" using encode_ordered [OF t(2)] by blast
  have mm: "sint (min_encoded cm) \<le> sint e" "sint e \<le> sint (max_encoded cm)"
    using assms(2) r e cell t(1) by (auto simp: covers_def segment_all_rows_pass_def Let_def split: if_splits)
  have p: "op bq \<in> {Eq, Ne, Lt, Le, Gt, Ge}"
    using r k t(1) by (cases "op bq") (auto simp: segment_all_rows_pass_def Let_def split: if_splits)
  have b: "holds (op bq) (sint e) (sint k) \<longleftrightarrow> b"
    using r k mm t(1) p by (cases "op bq") (auto simp: segment_all_rows_pass_def Let_def split: if_splits)
  show ?thesis
  proof
    assume "row_ok bq (d, False)"
    moreover obtain tst where tst: "qual_test bq = Some tst"
      using t(2) p by (auto simp: qual_test_def Let_def ordered_type_def exact_type_def)
    ultimately have "tst d = Some True" by (simp add: row_ok_def)
    then have "holds (op bq) (sint e) (sint k)"
      using qual_test_encoded [OF _ tst _ ok(1) _ e k] p ok(2) by (auto simp: value_ok_def)
    with b show b by simp
  next
    assume b
    with b show "row_ok bq (d, False)" using qual_test_complete [OF t(2) p ok(2,1) e k] by simp
  qed
qed

text \<open>
  What the catalogue says of the column a qual reads: the cells are covered by the minimum and maximum,
  the counts are those of the column, except that the time column has a zero placeholder and no NULL.
\<close>

definition nonnulls :: "cell list \<Rightarrow> nat" where
  "nonnulls col = length (filter (\<lambda>c. \<not> snd c) col)"

definition described :: "SegmentData \<Rightarrow> string list \<Rightarrow> string \<Rightarrow> cell list list \<Rightarrow> BatchQual \<Rightarrow> bool" where
  "described seg col_names time_column cols bq \<longleftrightarrow>
     (let name = col_names ! col_idx bq; col = cols ! col_idx bq; t = type_oid bq
      in is_batch_comparable_type t \<and> col_idx bq < length col_names
         \<and> 0 < sint (row_count seg) \<and> int (length col) = sint (row_count seg)
         \<and> const_ok t (const_datum bq) \<and> (\<forall>d. (d, False) \<in> set col \<longrightarrow> value_ok t d)
         \<and> (\<forall>cm. col_minmax seg name = Some cm \<longrightarrow> covers cm col \<and> cm_type_oid cm = t)
         \<and> (\<forall>cs. col_sums seg name = Some cs \<longrightarrow>
              sint (nonnull_count cs) = (if name = time_column then 0 else int (nonnulls col))
              \<and> (0 \<le> sint (nonzero_count cs) \<longrightarrow>
                   sint (nonzero_count cs) = int (length (filter (\<lambda>c. \<not> snd c \<and> fst c \<noteq> 0) col))))
         \<and> (name = time_column \<longrightarrow> (\<forall>c \<in> set col. \<not> snd c)))"

definition never :: "cell list list \<Rightarrow> BatchQual \<Rightarrow> bool" where
  "never cols bq \<longleftrightarrow> (\<forall>c \<in> set (cols ! col_idx bq). \<not> row_ok bq c)"

definition nonnull_ok :: "cell list list \<Rightarrow> BatchQual \<Rightarrow> bool" where
  "nonnull_ok cols bq \<longleftrightarrow> (\<forall>c \<in> set (cols ! col_idx bq). \<not> snd c \<longrightarrow> row_ok bq c)"

lemma row_ok_null: "op bq \<noteq> InList \<Longrightarrow> is_batch_comparable_type (type_oid bq) \<Longrightarrow> \<not> row_ok bq (d, True)"
  by (auto simp: row_ok_def qual_test_def Let_def is_batch_comparable_type_def)

lemma qual_test_defined: "op bq \<noteq> InList \<Longrightarrow> is_batch_comparable_type (type_oid bq) \<Longrightarrow> \<exists>tst. qual_test bq = Some tst"
  by (auto simp: qual_test_def Let_def is_batch_comparable_type_def)

lemma comparable_encodes: "is_batch_comparable_type t \<Longrightarrow> encode_datum_to_i64 d t = Some k \<Longrightarrow> ordered_type t"
  by (auto simp: is_batch_comparable_type_def encode_datum_to_i64_def ordered_type_def exact_type_def split: if_splits)

lemma all_rows_pass_described:
  assumes "described seg col_names tc cols bq" and "col_minmax seg (col_names ! col_idx bq) = Some cm"
    and r: "segment_all_rows_pass cm (op bq) (const_datum bq) = Some b"
  shows "if b then nonnull_ok cols bq else never cols bq"
proof -
  have t: "cm_type_oid cm = type_oid bq" "is_batch_comparable_type (type_oid bq)" "covers cm (cols ! col_idx bq)"
    "const_ok (type_oid bq) (const_datum bq)" "\<forall>d. (d, False) \<in> set (cols ! col_idx bq) \<longrightarrow> value_ok (type_oid bq) d"
    using assms(1,2) by (auto simp: described_def Let_def)
  have "ordered_type (type_oid bq)" using r t(1,2) comparable_encodes
    by (auto simp: segment_all_rows_pass_def Let_def split: if_splits bind_splits)
  with t have rows: "row_ok bq (d, False) \<longleftrightarrow> b" if "(d, False) \<in> set (cols ! col_idx bq)" for d
    using segment_all_rows_pass_sound [OF r t(3,1) _ that t(4)] that by blast
  have "op bq \<noteq> InList" using r by (auto simp: segment_all_rows_pass_def Let_def split: if_splits bind_splits)
  then have "\<not> row_ok bq (d, True)" for d using row_ok_null t(2) by blast
  with rows have "\<forall>c \<in> set (cols ! col_idx bq). row_ok bq c \<longleftrightarrow> \<not> snd c \<and> b"
    by (metis (full_types) prod.collapse)
  then show ?thesis by (simp add: nonnull_ok_def never_def)
qed

lemma zero_const_int:
  assumes "is_zero_const c t" and "const_ok t c"
  shows "t \<in> {INT2OID, INT4OID, INT8OID} \<and> c = 0"
proof -
  have "t \<in> {INT2OID, INT4OID, INT8OID}"
    using assms by (auto simp: is_zero_const_def const_ok_def float_key_def split: if_splits)
  moreover have "c = 0" if "t = INT2OID" using assms that by (simp add: is_zero_const_def const_ok_def datum_ok_def)
  moreover have "c = 0" if "t = INT4OID" using assms that by (simp add: is_zero_const_def const_ok_def datum_ok_def)
  ultimately show ?thesis using assms by (auto simp: is_zero_const_def)
qed

lemma exact_int_eq:
  assumes "type_oid bq \<in> {INT2OID, INT4OID, INT8OID}" and "datum_ok (type_oid bq) d" and "datum_ok (type_oid bq) (const_datum bq)"
  shows "op bq = Eq \<Longrightarrow> row_ok bq (d, False) \<longleftrightarrow> d = const_datum bq"
    and "op bq = Ne \<Longrightarrow> row_ok bq (d, False) \<longleftrightarrow> d \<noteq> const_datum bq"
proof -
  have exact: "exact_type (type_oid bq)" using assms(1) by (auto simp: exact_type_def)
  have "row_ok bq (d, False) \<longleftrightarrow> holds (op bq) (sint d) (sint (const_datum bq))" if "op bq \<in> {Eq, Ne}"
  proof -
    have "op bq \<noteq> InList" "is_batch_comparable_type (type_oid bq)"
      using assms(1) that by (auto simp: is_batch_comparable_type_def)
    then obtain tst where tst: "qual_test bq = Some tst" using qual_test_defined by blast
    moreover have "comparable_qual bq" using that by (auto simp: comparable_qual_def)
    ultimately obtain b where b: "tst d = Some b" using qual_test_total by blast
    from exact_qual_test [OF exact \<open>op bq \<noteq> InList\<close> tst assms(2,3) b] b tst show ?thesis by (simp add: row_ok_def)
  qed
  then show "op bq = Eq \<Longrightarrow> row_ok bq (d, False) \<longleftrightarrow> d = const_datum bq"
    and "op bq = Ne \<Longrightarrow> row_ok bq (d, False) \<longleftrightarrow> d \<noteq> const_datum bq"
    by (auto dest: signed_word_eqI)
qed

lemma filter_full: "length xs \<le> length (filter P xs) \<Longrightarrow> x \<in> set xs \<Longrightarrow> P x"
  using length_filter_less [of x xs P] by (cases "P x") simp_all

lemma nonnulls_full: "length col \<le> nonnulls col \<Longrightarrow> \<forall>c \<in> set col. \<not> snd c"
  unfolding nonnulls_def by (blast dest: filter_full)

lemma zero_counts_never:
  assumes d: "described seg col_names tc cols bq" and cs: "col_sums seg (col_names ! col_idx bq) = Some cs"
    and zero: "is_zero_const (const_datum bq) (type_oid bq)" and "0 \<le> sint (nonzero_count cs)"
    and full: "sint (nonnull_count cs) = sint (row_count seg)"
    and counts: "op bq = Ne \<and> nonzero_count cs = 0 \<or> op bq = Eq \<and> nonzero_count cs = nonnull_count cs"
  shows "never cols bq"
proof -
  let ?col = "cols ! col_idx bq"
  have ok: "const_ok (type_oid bq) (const_datum bq)" "\<forall>d. (d, False) \<in> set ?col \<longrightarrow> value_ok (type_oid bq) d"
    and len: "0 < sint (row_count seg)" "int (length ?col) = sint (row_count seg)"
    and n: "sint (nonnull_count cs) = (if col_names ! col_idx bq = tc then 0 else int (nonnulls ?col))"
      "sint (nonzero_count cs) = int (length (filter (\<lambda>c. \<not> snd c \<and> fst c \<noteq> 0) ?col))"
    using d cs assms(4) by (auto simp: described_def Let_def)
  have "nonnulls ?col = length ?col" using full n(1) len by (auto split: if_splits)
  then have nn: "\<forall>c \<in> set ?col. \<not> snd c" using nonnulls_full [of ?col] by simp
  have c0: "type_oid bq \<in> {INT2OID, INT4OID, INT8OID}" "const_datum bq = 0" using zero_const_int [OF zero ok(1)] by simp_all
  have "\<not> row_ok bq c" if c: "c \<in> set ?col" for c
  proof -
    obtain d where d: "c = (d, False)" using nn c by (cases c) auto
    have dok: "datum_ok (type_oid bq) d" "datum_ok (type_oid bq) (const_datum bq)"
      using ok c d by (auto simp: value_ok_def const_ok_def)
    from counts show ?thesis
    proof
      assume ne: "op bq = Ne \<and> nonzero_count cs = 0"
      then have "filter (\<lambda>c. \<not> snd c \<and> fst c \<noteq> 0) ?col = []" using n(2) by simp
      then have "d = 0" using c d by (auto simp: filter_empty_conv)
      then show ?thesis using exact_int_eq(2) [OF c0(1) dok] ne d c0(2) by simp
    next
      assume eq: "op bq = Eq \<and> nonzero_count cs = nonnull_count cs"
      then have "length (filter (\<lambda>c. \<not> snd c \<and> fst c \<noteq> 0) ?col) = length ?col" using n(2) full len by simp
      then have "\<forall>c \<in> set ?col. \<not> snd c \<and> fst c \<noteq> 0" by (intro ballI filter_full [where P = "\<lambda>c. \<not> snd c \<and> fst c \<noteq> 0"]) simp_all
      then show ?thesis using exact_int_eq(1) [OF c0(1) dok] eq d c0(2) c by auto
    qed
  qed
  then show ?thesis by (simp add: never_def)
qed

lemma quals_loop_sound:
  assumes "\<forall>bq \<in> set bqs. described seg col_names tc cols bq" and "quals_loop seg col_names bqs a = Some r"
  shows "case r of Inl NonePass \<Rightarrow> \<exists>bq \<in> set bqs. never cols bq
    | Inl AllPass \<Rightarrow> False
    | Inl Ambiguous \<Rightarrow> True
    | Inr True \<Rightarrow> a \<or> (\<exists>bq \<in> set bqs. never cols bq)
    | Inr False \<Rightarrow> \<not> a \<and> (\<forall>bq \<in> set bqs. nonnull_ok cols bq)"
  using assms
proof (induction bqs arbitrary: a)
  case (Cons bq bqs)
  let ?name = "col_names ! col_idx bq"
  have d: "described seg col_names tc cols bq" and rest: "\<forall>bq \<in> set bqs. described seg col_names tc cols bq"
    using Cons.prems(1) by simp_all
  then have idx: "index col_names (col_idx bq) = Some ?name" by (simp add: described_def Let_def)
  show ?case
  proof (cases "col_minmax seg ?name")
    case None
    with Cons.prems(2) idx show ?thesis by auto
  next
    case (Some cm)
    show ?thesis
    proof (cases "segment_all_rows_pass cm (op bq) (const_datum bq)")
      case (Some b)
      with all_rows_pass_described [OF d \<open>col_minmax seg ?name = Some cm\<close>]
      have b: "if b then nonnull_ok cols bq else never cols bq" by blast
      show ?thesis
      proof (cases b)
        case True
        then have "quals_loop seg col_names bqs a = Some r"
          using Cons.prems(2) idx Some \<open>col_minmax seg ?name = Some cm\<close> by simp
        from Cons.IH [OF rest this] b True show ?thesis by (auto split: sum.splits SegmentQualResult.splits bool.splits)
      next
        case False
        then have "r = Inl NonePass" using Cons.prems(2) idx Some \<open>col_minmax seg ?name = Some cm\<close> by simp
        with b False show ?thesis by simp
      qed
    next
      case None
      note n = this
      show ?thesis
      proof (cases "r = Inl Ambiguous")
        case False
        then obtain cs where cs: "col_sums seg ?name = Some cs"
          "is_zero_const (const_datum bq) (type_oid bq)" "0 \<le> sint (nonzero_count cs)"
          "sint (nonnull_count cs) = sint (row_count seg)"
          "op bq = Ne \<and> nonzero_count cs = 0 \<or> op bq = Eq \<and> nonzero_count cs = nonnull_count cs"
          "quals_loop seg col_names bqs True = Some r"
          using Cons.prems(2) idx n Some by (auto split: option.splits if_splits)
        then have "never cols bq" using zero_counts_never [OF d cs(1-5)] by blast
        with Cons.IH [OF rest cs(6)] show ?thesis by (auto split: sum.splits SegmentQualResult.splits bool.splits)
      qed simp
    qed
  qed
qed (auto split: bool.split)

lemma nonnull_check_sound:
  assumes "\<forall>bq \<in> set bqs. described seg col_names tc cols bq" and "nonnull_check seg col_names exempt bqs = Some AllPass"
    and "\<forall>bq name. exempt bq name \<longrightarrow> name = tc"
  shows "\<forall>bq \<in> set bqs. \<forall>c \<in> set (cols ! col_idx bq). \<not> snd c"
  using assms(1,2)
proof (induction bqs)
  case (Cons bq bqs)
  let ?name = "col_names ! col_idx bq" and ?col = "cols ! col_idx bq"
  have d: "described seg col_names tc cols bq" using Cons.prems(1) by simp
  then have idx: "index col_names (col_idx bq) = Some ?name"
    and len: "0 < sint (row_count seg)" "int (length ?col) = sint (row_count seg)" by (simp_all add: described_def Let_def)
  have rest: "nonnull_check seg col_names exempt bqs = Some AllPass"
    using Cons.prems(2) idx by (auto split: if_splits option.splits)
  have "\<forall>c \<in> set ?col. \<not> snd c"
  proof (cases "?name = tc")
    case True
    then show ?thesis using d by (simp add: described_def Let_def)
  next
    case False
    then obtain cs where cs: "col_sums seg ?name = Some cs" "\<not> sint (nonnull_count cs) < sint (row_count seg)"
      using Cons.prems(2) idx assms(3) by (auto split: if_splits option.splits)
    then have "sint (nonnull_count cs) = int (nonnulls ?col)" using d False by (simp add: described_def Let_def)
    with cs(2) len have "length ?col \<le> nonnulls ?col" by simp
    then show ?thesis using nonnulls_full [of ?col] by simp
  qed
  with Cons.IH [OF _ rest] Cons.prems(1) show ?case by simp
qed simp

lemma classify_segment_quals_sound:
  assumes "\<forall>bq \<in> set bqs. described seg col_names tc cols bq"
  shows "classify_segment_quals seg bqs col_names tc = Some NonePass \<Longrightarrow> \<exists>bq \<in> set bqs. never cols bq"
    and "classify_segment_quals seg bqs col_names tc = Some AllPass \<Longrightarrow>
      \<forall>bq \<in> set bqs. \<forall>c \<in> set (cols ! col_idx bq). row_ok bq c"
proof -
  let ?check = "nonnull_check seg col_names (\<lambda>_ name. name = tc) bqs"
  have check: "?check \<noteq> Some NonePass" by (induction bqs) (auto split: if_splits option.splits bind_splits)
  {
    assume "classify_segment_quals seg bqs col_names tc = Some NonePass"
    then obtain r where r: "quals_loop seg col_names bqs False = Some r" "r = Inl NonePass \<or> r = Inr True"
      using check by (auto simp: classify_segment_quals_def split: bind_splits sum.splits if_splits)
    from quals_loop_sound [OF assms r(1)] r(2) show "\<exists>bq \<in> set bqs. never cols bq" by auto
  next
    assume all: "classify_segment_quals seg bqs col_names tc = Some AllPass"
    then obtain r where r: "quals_loop seg col_names bqs False = Some r" "r = Inl AllPass \<or> r = Inr False \<and> ?check = Some AllPass"
      by (auto simp: classify_segment_quals_def split: bind_splits sum.splits if_splits)
    from quals_loop_sound [OF assms r(1)] r(2) have "?check = Some AllPass" "\<forall>bq \<in> set bqs. nonnull_ok cols bq" by auto
    with nonnull_check_sound [OF assms] show "\<forall>bq \<in> set bqs. \<forall>c \<in> set (cols ! col_idx bq). row_ok bq c"
      by (auto simp: nonnull_ok_def)
  }
qed

lemma numeric_quals_loop_sound:
  assumes "\<forall>bq \<in> set bqs. is_batch_comparable_type (type_oid bq) \<longrightarrow> described seg col_names tc cols bq"
    and "numeric_quals_loop seg col_names bqs n p a = Some (n', p', a')"
  shows "(p' \<longrightarrow> p \<or> (\<exists>bq \<in> set bqs. is_batch_comparable_type (type_oid bq) \<and> never cols bq))
    \<and> (\<not> p' \<and> \<not> a' \<longrightarrow> \<not> p \<and> \<not> a \<and> (\<forall>bq \<in> set bqs. is_batch_comparable_type (type_oid bq) \<longrightarrow> nonnull_ok cols bq))"
  using assms
proof (induction bqs arbitrary: n p a)
  case (Cons bq bqs)
  have rest: "\<forall>bq \<in> set bqs. is_batch_comparable_type (type_oid bq) \<longrightarrow> described seg col_names tc cols bq"
    using Cons.prems(1) by simp
  show ?case
  proof (cases "is_batch_comparable_type (type_oid bq)")
    case False
    with Cons.IH [OF rest] Cons.prems(2) show ?thesis by simp
  next
    case True
    let ?name = "col_names ! col_idx bq"
    have d: "described seg col_names tc cols bq" using True Cons.prems(1) by simp
    then have idx: "index col_names (col_idx bq) = Some ?name" by (simp add: described_def Let_def)
    show ?thesis
    proof (cases "\<exists>cm b. col_minmax seg ?name = Some cm \<and> segment_all_rows_pass cm (op bq) (const_datum bq) = Some b")
      case False
      then have "numeric_quals_loop seg col_names bqs True p True = Some (n', p', a')"
        using Cons.prems(2) True idx by (auto split: option.splits)
      from Cons.IH [OF rest this] show ?thesis by auto
    next
      case some: True
      then obtain cm b where cm: "col_minmax seg ?name = Some cm" "segment_all_rows_pass cm (op bq) (const_datum bq) = Some b"
        by blast
      have "if b then nonnull_ok cols bq else never cols bq" by (rule all_rows_pass_described [OF d cm])
      moreover have "numeric_quals_loop seg col_names bqs True (if b then p else True) a = Some (n', p', a')"
        using Cons.prems(2) True idx cm by (cases b) simp_all
      ultimately show ?thesis using Cons.IH [OF rest, of True "if b then p else True" a] True by (cases b) auto
    qed
  qed
qed simp

lemma classify_segment_quals_numeric_sound:
  assumes "\<forall>bq \<in> set bqs. is_batch_comparable_type (type_oid bq) \<longrightarrow> described seg col_names tc cols bq"
  shows "classify_segment_quals_numeric seg bqs col_names = Some NonePass \<Longrightarrow>
      \<exists>bq \<in> set bqs. is_batch_comparable_type (type_oid bq) \<and> never cols bq"
    and "classify_segment_quals_numeric seg bqs col_names = Some AllPass \<Longrightarrow>
      \<forall>bq \<in> set bqs. is_batch_comparable_type (type_oid bq) \<longrightarrow> (\<forall>c \<in> set (cols ! col_idx bq). row_ok bq c)"
proof -
  let ?qs = "filter (\<lambda>bq. is_batch_comparable_type (type_oid bq)) bqs"
  have check: "nonnull_check seg col_names (\<lambda>_ _. False) qs \<noteq> Some NonePass" for qs
    by (induction qs) (auto split: if_splits option.splits bind_splits)
  {
    assume "classify_segment_quals_numeric seg bqs col_names = Some NonePass"
    then obtain n a where "numeric_quals_loop seg col_names bqs False False False = Some (n, True, a)"
      using check [of ?qs] by (auto simp: classify_segment_quals_numeric_def split: bind_splits if_splits)
    from numeric_quals_loop_sound [OF assms(1) this]
    show "\<exists>bq \<in> set bqs. is_batch_comparable_type (type_oid bq) \<and> never cols bq" by simp
  next
    assume "classify_segment_quals_numeric seg bqs col_names = Some AllPass"
    then obtain n p a where l: "numeric_quals_loop seg col_names bqs False False False = Some (n, p, a)"
      and r: "(if \<not> n then Some Ambiguous else if p then Some NonePass else if a then Some Ambiguous
         else nonnull_check seg col_names (\<lambda>_ _. False) ?qs) = Some AllPass"
      by (cases "numeric_quals_loop seg col_names bqs False False False") (auto simp: classify_segment_quals_numeric_def)
    from r have loop: "numeric_quals_loop seg col_names bqs False False False = Some (n, False, False)"
      and all: "nonnull_check seg col_names (\<lambda>_ _. False) ?qs = Some AllPass"
      using l by (simp_all split: if_splits)
    have "\<forall>bq \<in> set ?qs. \<forall>c \<in> set (cols ! col_idx bq). \<not> snd c"
      by (rule nonnull_check_sound [OF _ all, of tc]) (use assms(1) in auto)
    with numeric_quals_loop_sound [OF assms(1) loop]
    show "\<forall>bq \<in> set bqs. is_batch_comparable_type (type_oid bq) \<longrightarrow> (\<forall>c \<in> set (cols ! col_idx bq). row_ok bq c)"
      by (auto simp: nonnull_ok_def)
  }
qed

section \<open>Skipping a segment by its minimum and maximum\<close>

lemma encode_defined: "encode_datum_to_i64 c t = Some k \<Longrightarrow> \<exists>e. encode_datum_to_i64 d t = Some e"
  by (auto simp: encode_datum_to_i64_def split: if_splits)

lemma minmax_filter_encodes:
  "minmax_filter_of col_names segment_by attno_names col_idx_map point_cols bq = Some [f] \<Longrightarrow>
   \<exists>k. encode_datum_to_i64 (const_datum bq) (type_oid bq) = Some k"
  by (auto simp: minmax_filter_of_def split: if_splits option.splits bind_splits)

lemma skipped_segment_no_row:
  assumes filt: "minmax_filter_of col_names segment_by attno_names col_idx_map point_cols bq = Some [f]"
    and "qual_ok bq" and evaluated: "qual_test bq \<noteq> None"
    and vals: "\<forall>d. (d, False) \<in> set col \<longrightarrow> datum_ok (type_oid bq) d"
    and cover: "covers cm col" "cm_type_oid cm = type_oid bq" "\<not> min_null cm" "\<not> max_null cm"
    and skip: "\<not> segment_passes_minmax_filter f (min_encoded cm) (max_encoded cm)"
  shows "\<forall>c \<in> set col. \<not> row_ok bq c"
proof
  fix c
  assume c: "c \<in> set col"
  show "\<not> row_ok bq c"
  proof (cases "snd c")
    case True
    with evaluated show ?thesis by (auto simp: row_ok_def)
  next
    case False
    then obtain d where d: "c = (d, False)" by (cases c) auto
    obtain e where e: "encode_datum_to_i64 d (type_oid bq) = Some e"
      using minmax_filter_encodes [OF filt] encode_defined by blast
    have "sint (min_encoded cm) \<le> sint e" "sint e \<le> sint (max_encoded cm)"
      using cover c d e by (auto simp: covers_def)
    then show ?thesis
      using minmax_filter_sound [OF filt assms(2) _ evaluated _ e] vals c d skip by blast
  qed
qed

section \<open>Tombstones remove exactly the deleted rows\<close>

lemma length_clear_offsets [simp]: "length (clear_offsets offs sel) = length sel"
  by (induction offs arbitrary: sel) (auto simp: clear_offsets_def)

lemma nth_clear_offsets:
  "r < length sel \<Longrightarrow> clear_offsets offs sel ! r \<longleftrightarrow> sel ! r \<and> r \<notin> unat ` set offs"
proof (induction offs arbitrary: sel)
  case (Cons off offs)
  have "clear_offsets (off # offs) sel = clear_offsets offs (if unat off < length sel then sel[unat off := False] else sel)"
    by (simp add: clear_offsets_def)
  with Cons.IH [of "if unat off < length sel then sel[unat off := False] else sel"] Cons.prems
  show ?case by (auto simp: nth_list_update)
qed (simp add: clear_offsets_def)

lemma count_live:
  assumes "distinct offs" and "\<forall>off \<in> set offs. unat off < n"
  shows "length (filter id (clear_offsets offs (replicate n True))) + length offs = n"
proof -
  let ?sel = "clear_offsets offs (replicate n True)"
  have "length (filter id ?sel) = card {i. i < n \<and> ?sel ! i}"
    by (simp add: length_filter_conv_card)
  also have "{i. i < n \<and> ?sel ! i} = {..<n} - unat ` set offs" by (auto simp: nth_clear_offsets)
  also have "card \<dots> = n - card (unat ` set offs)"
    using assms(2) by (subst card_Diff_subset) auto
  also have "card (unat ` set offs) = length offs"
    using assms(1) by (subst card_image) (auto simp: inj_on_def distinct_card dest: unsigned_word_eqI)
  finally have "length (filter id ?sel) = n - length offs" .
  moreover have "length offs \<le> n"
    using assms card_mono [of "{..<n}" "unat ` set offs"] \<open>card (unat ` set offs) = length offs\<close> by auto
  ultimately show ?thesis by simp
qed

end
