(* ===== verification/Dict_Pruning.thy ===== *)
theory Dict_Pruning
  imports Pruning Compress
begin

text \<open>
  Skipping a segment by the dictionary of a text column (\<^verbatim>\<open>segment_skippable_by_dict\<close> of
  \<^verbatim>\<open>src/scan/exec/segments.rs\<close>), against what the compressor wrote.
\<close>

section \<open>The check\<close>

datatype DictCheck = DEq | DNe | DLike | DNotLike

definition dict_check :: "BatchQual \<Rightarrow> DictCheck option" where
  "dict_check bq =
     (case op bq of
        Like \<Rightarrow> (if like_strategy bq \<noteq> None then Some DLike else None)
      | NotLike \<Rightarrow> (if like_strategy bq \<noteq> None then Some DNotLike else None)
      | Eq \<Rightarrow> (if text_const bq \<noteq> None then Some DEq else None)
      | Ne \<Rightarrow> (if text_const bq \<noteq> None then Some DNe else None)
      | _ \<Rightarrow> None)"

definition dict_entry_matches :: "DictCheck \<Rightarrow> BatchQual \<Rightarrow> bytes \<Rightarrow> bool" where
  "dict_entry_matches chk bq s =
     (case chk of
        DEq \<Rightarrow> s = the (text_const bq)
      | DNe \<Rightarrow> s \<noteq> the (text_const bq)
      | DLike \<Rightarrow> like_strategy_matches (the (like_strategy bq)) s
      | DNotLike \<Rightarrow> \<not> like_strategy_matches (the (like_strategy bq)) s)"

text \<open>\<^verbatim>\<open><>\<close> can only skip a dictionary of one entry; its size is in the uncompressed prefix.\<close>

definition ne_not_single :: "DictCheck \<Rightarrow> bytes \<Rightarrow> bool option" where
  "ne_not_single chk payload =
     (if chk = DNe
      then if length payload < 4 then Some True
           else do { dict_size \<leftarrow> (read_le payload 0 4 :: u32 option); Some (1 < unat dict_size) }
      else Some False)"

text \<open>One qual: \<^verbatim>\<open>Some true\<close> skips the segment, \<^verbatim>\<open>Some false\<close> goes on; the outer option is a panic.\<close>

definition dict_qual_skips :: "lz4_flex \<Rightarrow> u16 option list \<Rightarrow> bytes list \<Rightarrow> BatchQual \<Rightarrow> bool option" where
  "dict_qual_skips L blob_idx_map compressed_blobs bq =
     (case dict_check bq of
        None \<Rightarrow> Some False
      | Some chk \<Rightarrow>
          (case Option.bind (index blob_idx_map (col_idx bq)) id of
             None \<Rightarrow> Some False
           | Some blob_idx \<Rightarrow> do {
               blob \<leftarrow> index compressed_blobs (unat blob_idx);
               if length blob < 6 then Some False
               else do {
                 tag \<leftarrow> from_u8 (blob ! 0);
                 if tag \<notin> {Dictionary, DictionaryLz4} then Some False
                 else do {
                   cc \<leftarrow> from_bytes_ref blob;
                   let payload = range_bytes blob (ref_data_range cc);
                   big \<leftarrow> ne_not_single chk payload;
                   if big then Some False
                   else do {
                     dict_data \<leftarrow> (if tag = DictionaryLz4 then normalize_lz4 L payload else Some payload);
                     any_match \<leftarrow> any_entry_matches dict_data (dict_entry_matches chk bq);
                     Some (\<not> any_match)
                   }
                 }
               }
             }))"

fun segment_skippable_by_dict :: "lz4_flex \<Rightarrow> BatchQual list \<Rightarrow> u16 option list \<Rightarrow> bytes list \<Rightarrow> bool option" where
  "segment_skippable_by_dict L [] blob_idx_map compressed_blobs = Some False"
| "segment_skippable_by_dict L (bq # bqs) blob_idx_map compressed_blobs = do {
     skip \<leftarrow> dict_qual_skips L blob_idx_map compressed_blobs bq;
     if skip then Some True else segment_skippable_by_dict L bqs blob_idx_map compressed_blobs
   }"

section \<open>A skipped segment has no matching text\<close>

lemma encode_text_entries:
  assumes lz: "lz4_contract L" and fits: "text_fits L vs" and utf8: "\<forall>s \<in> set vs. utf8_valid s"
    and enc: "encode_text_values L vs = Some (tag, payload)" and dict: "tag \<in> {Dictionary, DictionaryLz4}"
  shows "\<exists>norm. (if tag = DictionaryLz4 then normalize_lz4 L payload else Some payload) = Some norm
    \<and> any_entry_matches norm p = Some (\<exists>v \<in> set vs. p v)"
proof -
  have use: "should_use_dictionary vs" using enc dict by (auto simp: encode_text_values_def split: if_splits bind_splits)
  then have card: "card (set vs) \<le> 65535" using should_use_dictionary_card by auto
  have small: "length (pack_strings vs) < 2 ^ 32"
    and comp: "\<forall>raw. length raw \<le> length (pack_strings vs) \<longrightarrow> length (compress_prepend_size L raw) < 2 ^ 32"
    using fits by (simp_all add: text_fits_def)
  obtain es w idxs where plain: "dict_encode vs = Some (dict_payload es w idxs)" "represents es w idxs vs"
    using dict_encode_payload [OF card] by blast
  obtain buf es' w' idxs' where lz4: "dict_encode_lz4 L vs = Some buf"
    "normalize_lz4 L buf = Some (dict_payload es' w' idxs')" "represents es' w' idxs' vs"
    using normalize_encode_lz4 [OF lz card small comp] by blast
  have "tag = DictionaryLz4 \<and> payload = buf \<or> tag = Dictionary \<and> payload = dict_payload es w idxs"
    using enc use plain(1) lz4(1) by (auto simp: encode_text_values_def split: if_splits)
  then show ?thesis
    using lz4(2) any_entry_matches_payload [OF plain(2) small utf8] any_entry_matches_payload [OF lz4(3) small utf8] by auto
qed

text \<open>The blob of a column of texts, as the compressor writes it.\<close>

definition text_blob :: "lz4_flex \<Rightarrow> bytes option list \<Rightarrow> bytes \<Rightarrow> bool" where
  "text_blob L vs blob \<longleftrightarrow> length vs < 2 ^ 32 \<and> text_fits L (somes vs) \<and> (\<forall>s \<in> set (somes vs). utf8_valid s)
     \<and> compress_column_values L vs = Some blob"

lemma text_blob_view:
  assumes lz: "lz4_contract L" and blob: "text_blob L vs blob"
  obtains tag payload r where "encode_text_values L (somes vs) = Some (tag, payload)" and "6 \<le> length blob"
    and "from_u8 (blob ! 0) = Some tag" and "from_bytes_ref blob = Some r" and "range_bytes blob (ref_data_range r) = payload"
proof -
  have small: "length vs < 2 ^ 32" and fits: "text_fits L (somes vs)" and c: "compress_column_values L vs = Some blob"
    using blob by (simp_all add: text_blob_def)
  obtain tag payload where enc: "encode_text_values L (somes vs) = Some (tag, payload)"
    using encode_text_decodes [OF lz fits] by blast
  obtain blob' bm where b: "pack_column (encode_text_values L) vs = Some blob'"
    and fb: "from_bytes blob' = Some \<lparr>cc_type_tag = tag, cc_row_count = word_of_nat (length vs), cc_null_bitmap = bm, cc_data = payload\<rparr>"
    and len: "6 \<le> length blob'"
    using pack_column_shape [where encode = "encode_text_values L", OF small enc] by metis
  have same: "blob' = blob" using b c by (simp add: compress_column_values_def)
  obtain r where r: "from_bytes_ref blob = Some r"
      "ref_column blob r = \<lparr>cc_type_tag = tag, cc_row_count = word_of_nat (length vs), cc_null_bitmap = bm, cc_data = payload\<rparr>"
    using fb same from_bytes_ref_refines [of blob] by (cases "from_bytes_ref blob") auto
  have "from_u8 (blob ! 0) = Some (ref_tag r)"
    using r(1) len same by (auto simp: from_bytes_ref_def index_def split: bind_splits if_splits)
  with r have "from_u8 (blob ! 0) = Some tag" "range_bytes blob (ref_data_range r) = payload" by (simp_all add: ref_column_def)
  with enc len same r(1) show thesis using that by blast
qed

lemma dict_qual_skips_sound:
  assumes lz: "lz4_contract L"
    and blob: "\<And>bi. dict_check bq \<noteq> None \<Longrightarrow> index blob_idx_map (col_idx bq) = Some (Some bi) \<Longrightarrow>
      unat bi < length blobs \<and> text_blob L (cols ! col_idx bq) (blobs ! unat bi)"
  shows "\<exists>skip. dict_qual_skips L blob_idx_map blobs bq = Some skip
    \<and> (skip \<longrightarrow> (\<exists>chk. dict_check bq = Some chk \<and> (\<forall>s \<in> set (somes (cols ! col_idx bq)). \<not> dict_entry_matches chk bq s)))"
proof (cases "\<exists>chk bi. dict_check bq = Some chk \<and> index blob_idx_map (col_idx bq) = Some (Some bi)")
  case False
  then have "dict_check bq = None \<or> Option.bind (index blob_idx_map (col_idx bq)) id = None"
    by (cases "index blob_idx_map (col_idx bq)") auto
  then show ?thesis by (auto simp: dict_qual_skips_def split: option.splits)
next
  case True
  then obtain chk bi where chk: "dict_check bq = Some chk" and bi: "index blob_idx_map (col_idx bq) = Some (Some bi)" by blast
  let ?vs = "cols ! col_idx bq" and ?blob = "blobs ! unat bi"
  have in_range: "unat bi < length blobs" and tb: "text_blob L ?vs ?blob" using blob chk bi by auto
  obtain tag payload r where v: "encode_text_values L (somes ?vs) = Some (tag, payload)" "6 \<le> length ?blob"
    "from_u8 (?blob ! 0) = Some tag" "from_bytes_ref ?blob = Some r" "range_bytes ?blob (ref_data_range r) = payload"
    using text_blob_view [OF lz tb] by blast
  have fits: "text_fits L (somes ?vs)" "\<forall>s \<in> set (somes ?vs). utf8_valid s" using tb by (simp_all add: text_blob_def)
  have dict: "\<exists>norm. (if tag = DictionaryLz4 then normalize_lz4 L payload else Some payload) = Some norm
      \<and> any_entry_matches norm (dict_entry_matches chk bq) = Some (\<exists>s \<in> set (somes ?vs). dict_entry_matches chk bq s)"
    if "tag \<in> {Dictionary, DictionaryLz4}"
    by (rule encode_text_entries [OF lz fits v(1) that])
  have size: "4 \<le> length payload \<Longrightarrow> \<exists>n. (read_le payload 0 4 :: u32 option) = Some n" by (simp add: read_le_def)
  show ?thesis
  proof (cases "tag \<in> {Dictionary, DictionaryLz4}")
    case False
    then show ?thesis using chk bi in_range v by (auto simp: dict_qual_skips_def)
  next
    case True
    have "ne_not_single chk payload \<noteq> None" using size by (cases "length payload < 4") (auto simp: ne_not_single_def)
    then obtain b where b: "ne_not_single chk payload = Some b" by blast
    have "dict_qual_skips L blob_idx_map blobs bq = (if b then Some False
        else Some (\<not> (\<exists>s \<in> set (somes ?vs). dict_entry_matches chk bq s)))"
      using dict [OF True] True chk bi in_range v b
      by (auto simp: dict_qual_skips_def Let_def)
    then show ?thesis using chk by (cases b) auto
  qed
qed

lemma segment_skippable_by_dict_sound:
  assumes lz: "lz4_contract L"
    and blob: "\<forall>bq \<in> set bqs. \<forall>bi. dict_check bq \<noteq> None \<longrightarrow> index blob_idx_map (col_idx bq) = Some (Some bi) \<longrightarrow>
      unat bi < length blobs \<and> text_blob L (cols ! col_idx bq) (blobs ! unat bi)"
  shows "\<exists>skip. segment_skippable_by_dict L bqs blob_idx_map blobs = Some skip
    \<and> (skip \<longrightarrow> (\<exists>bq \<in> set bqs. \<exists>chk. dict_check bq = Some chk
         \<and> (\<forall>s \<in> set (somes (cols ! col_idx bq)). \<not> dict_entry_matches chk bq s)))"
  using blob
proof (induction bqs)
  case (Cons bq bqs)
  obtain skip where "dict_qual_skips L blob_idx_map blobs bq = Some skip"
    "skip \<longrightarrow> (\<exists>chk. dict_check bq = Some chk \<and> (\<forall>s \<in> set (somes (cols ! col_idx bq)). \<not> dict_entry_matches chk bq s))"
    using dict_qual_skips_sound [OF lz, of bq blob_idx_map blobs cols] Cons.prems by auto
  with Cons show ?case by (cases skip) auto
qed auto

end
