(* ===== verification/Spec2Isabelle.thy ===== *)
theory Spec2Isabelle
  imports Cond_Scan Copy_Rows Copy_Reload Dict_Pruning
begin

text \<open>
  Verification of the deltax columnar storage engine.
\<close>

section \<open>Columns\<close>

text \<open>C1. Whatever the column's declared type, the typed column that the type is classified to, filled
  with storable values, compresses without a panic, and the decompressor used by
  \<open>deltax_decompress_partition\<close> gives back the text of every row, NULLs in place.\<close>

theorem typed_column_roundtrip:
  assumes "rows col < 2 ^ 32" and "lz4_contract L" and "storable L (lower dt) col"
    and "same_variant col (new_typed_column (classify_column force dt False))"
  shows "\<exists>blob. compress_typed_column L force col dt = Some blob
    \<and> decompress_column_values L R blob dt = Some (column_texts R (lower dt) col)"
  using typed_column_reads [OF assms] by (simp add: reads_back_def)

definition plain_renderers :: renderers where
  "plain_renderers = \<lparr>r_f64 = (\<lambda>_. []), r_f32 = (\<lambda>_. []), r_jsonb = id, r_binary = (\<lambda>_. id)\<rparr>"

theorem typed_column_roundtrip_witness:
  "\<exists>blob. compress_typed_column stored_lz4 False (TText [Some [0x61], None, Some [0x61]]) ''text'' = Some blob
    \<and> decompress_column_values stored_lz4 plain_renderers blob ''text'' = Some [Some [0x61], None, Some [0x61]]"
proof -
  have "storable stored_lz4 (lower ''text'') (TText [Some [0x61], None, Some [0x61]])"
    by (simp add: text_fits_def encode_blocked_def DEFAULT_BLOCK_SIZE_def lz4_encode_def stored_lz4_def div_ceil_def
        pack_strings_def chunks.simps Let_def lower_def lower_char_def is_numeric_type_def starts_with_def)
  moreover have "same_variant (TText [Some [0x61], None, Some [0x61]]) (new_typed_column (classify_column False ''text'' False))"
    by (simp add: classify_column_def lower_def lower_char_def starts_with_def same_variant_def)
  ultimately show ?thesis
    using typed_column_roundtrip [of "TText [Some [0x61], None, Some [0x61]]" stored_lz4 "''text''" False plain_renderers]
      stored_lz4_contract by (simp add: column_texts_def)
qed

text \<open>C2. The bytes of a \<open>jsonb\<close> column come back exactly from its blob, NULLs in place.\<close>

theorem jsonb_bytes_roundtrip:
  assumes "length vs < 2 ^ 32" and "lz4_contract L" and "text_fits L (somes vs)"
  shows "\<exists>blob. compress_byte_values L vs = Some blob \<and> decompress_column_byte_values L blob = Some vs"
  using assms by (rule byte_values_roundtrip)

theorem jsonb_bytes_roundtrip_witness:
  "\<exists>blob. compress_byte_values stored_lz4 [Some [0xFF, 0], None] = Some blob
     \<and> decompress_column_byte_values stored_lz4 blob = Some [Some [0xFF, 0], None]"
  by (rule jsonb_bytes_roundtrip [OF _ stored_lz4_contract])
    (simp_all add: text_fits_def encode_blocked_def DEFAULT_BLOCK_SIZE_def lz4_encode_def stored_lz4_def div_ceil_def
        pack_strings_def chunks.simps Let_def)

text \<open>C3. A 64-bit integer column of fewer than \<open>2 ^ 32\<close> rows comes back exactly from the encoding that
  \<open>best_encoding_i64\<close> selects for it.\<close>

theorem i64_column_roundtrip:
  assumes "length vs < 2 ^ 32"
  shows "\<exists>blob. pack_column best_encoding_i64 vs = Some blob \<and> unpack_column decode_tagged_i64 blob = Some vs"
  using assms by (rule i64_codec.column_roundtrip) simp

theorem i64_column_roundtrip_witness:
  "\<exists>blob. pack_column best_encoding_i64 [Some 5, None, Some 7] = Some blob
     \<and> unpack_column decode_tagged_i64 blob = Some [Some 5, None, Some 7]"
  by (rule i64_column_roundtrip) simp



text \<open>C5. The header of a dictionary answers "does any row satisfy the predicate" for the whole column.\<close>

theorem dictionary_header_predicate:
  assumes "card (set vs) \<le> 65535" and "length (pack_strings vs) < 2 ^ 32" and "\<forall>s \<in> set vs. utf8_valid s"
  shows "\<exists>buf. dict_encode vs = Some buf \<and> any_entry_matches buf p = Some (\<exists>v \<in> set vs. p v)"
  using assms by (rule any_entry_matches_encode)

theorem dictionary_header_predicate_witness:
  "\<exists>buf. dict_encode [[0x61], [0x62]] = Some buf
     \<and> any_entry_matches buf (\<lambda>v. v = [0x62]) = Some (\<exists>v \<in> set [[0x61], [0x62 :: u8]]. v = [0x62])"
  by (rule dictionary_header_predicate) (simp_all add: pack_strings_def card_insert_if)

text \<open>C6. The width of frame-of-reference packing: the fast paths for 8, 16, 32 and 64 bits read what the bit loop reads.\<close>

theorem unpack_bits_u64_fast_paths:
  assumes "0 < bits" and "bits \<le> 64"
  shows "unpack_bits_u64 buf n bits = unpack_values buf bits 0 n"
  using assms by (rule unpack_bits_u64_eq)

theorem unpack_bits_u64_fast_paths_witness:
  "unpack_bits_u64 [1, 2, 3, 4] 2 16 = unpack_values [1, 2, 3, 4] 16 0 2"
  by (rule unpack_bits_u64_fast_paths) simp_all

text \<open>C7. Gorilla decoding after encoding gives the 64-bit float patterns back, NaNs and signed zeros included.\<close>

theorem gorilla_floats_roundtrip: "decode_floats (encode_floats vs) (length vs) = vs"
  by (rule decode_encode_floats)

text \<open>C8. Delta-of-delta decoding after encoding gives the timestamps back for every sequence of 64-bit values,
  deltas that overflow included.\<close>

theorem gorilla_timestamps_roundtrip: "decode_timestamps (encode_timestamps vs) (length vs) = vs"
  by (rule decode_encode_timestamps)

text \<open>C9. The borrowing parser of a blob sees what the owning parser sees, and fails where it fails.\<close>

theorem borrowed_view_refines: "map_option (ref_column bs) (from_bytes_ref bs) = from_bytes bs"
  by (rule from_bytes_ref_refines)

section \<open>Texts\<close>

text \<open>C10. A numeric rendered by PostgreSQL that fits the scaled codec is printed back unchanged.\<close>

theorem numeric_text_roundtrip:
  assumes "numeric_out s" and "parse_numeric_scaled s = Some (m, d)"
  shows "format_numeric_scaled m d = s"
  using assms by (rule format_parse_numeric)

theorem numeric_text_roundtrip_witness: "format_numeric_scaled (- 150) 2 = str ''-1.50''"
proof -
  have form: "numeric_out_form True 1 (str ''50'')"
    by (simp add: numeric_out_form_def numeric_mantissa_def str_def is_digit_def digit_val_def)
  moreover have "numeric_text True 1 (str ''50'') = str ''-1.50''" by (simp add: numeric_text_def str_def digit_def dec.simps)
  ultimately have "numeric_out (str ''-1.50'')" unfolding numeric_out_def by metis
  moreover have "parse_numeric_scaled (str ''-1.50'') = Some (- 150, 2)"
    by (simp add: parse_numeric_scaled_def str_def is_digit_def digit_val_def MAX_DSCALE_def)
  ultimately show ?thesis by (rule numeric_text_roundtrip)
qed

text \<open>C11. A timestamp of the years 0 to 9999 is parsed back from its text, negative and fractional values included.\<close>

theorem timestamp_text_roundtrip:
  assumes "in_four_digit_years (sint u div 1000000 div 86400)"
  shows "parse_timestamp_to_usec (usec_to_timestamp_string u) = Some u"
  using assms by (rule parse_usec_to_timestamp_string)

theorem timestamp_text_roundtrip_witness: "parse_timestamp_to_usec (usec_to_timestamp_string 1500000) = Some 1500000"
  by (rule timestamp_text_roundtrip) code_simp


section \<open>Predicates and pruning\<close>















text \<open>C19. The minimum and maximum stored for a column are its least and greatest encoded values, and nothing when
  every value is NULL.\<close>

theorem stored_minmax_bounds:
  assumes "supports_minmax dt"
  shows "bounds (compute_minmax_encoded_i64 col dt) (encoded_values col)"
  using assms by (rule compute_minmax_bounds)

theorem stored_minmax_bounds_witness:
  "bounds (compute_minmax_encoded_i64 (TInt16 [Some 3, None, Some (- 2)]) ''smallint'') (encoded_values (TInt16 [Some 3, None, Some (- 2)]))"
  by (rule stored_minmax_bounds) (simp add: supports_minmax_def lower_def lower_char_def)

text \<open>C20. The signed order of the encodings follows the IEEE order of doubles.\<close>

theorem float_encoding_monotone:
  assumes "float_key a < float_key b"
  shows "sint (encode_f64_to_i64 a) < sint (encode_f64_to_i64 b)"
  using assms by (rule encode_f64_less)

theorem float_encoding_monotone_witness: "sint (encode_f64_to_i64 0xBFF0000000000000) < sint (encode_f64_to_i64 0x3FF0000000000000)"
  by (rule float_encoding_monotone) (simp add: float_key_def float_neg_def float_mag_def bit_iff_odd take_bit_eq_mod)





section \<open>The blob cache\<close>





text \<open>C26. A pinned blob is never evicted, freed or overwritten: as long as a pin on it is held, every step of the cache
  leaves the bytes the pin lends out unchanged.\<close>

theorem pinned_blob_stable:
  assumes "reachable bytes n c pins evs" and "bytes < 2 ^ 63"
    and "cache_step (c, pins) ev (c', pins')" and "x \<in># pins"
  shows "\<exists>data. as_slice c x = Some data \<and> as_slice c' x = Some data"
  using reachable_inv [OF assms(1,2)] pinned_step [OF _ assms(3,4)] by blast

theorem pinned_blob_stable_witness:
  "\<exists>c x c' data. get_pinned sample_key sample_cache = Some (c, Some x)
     \<and> insert_blob probe_alloc (blob_key 8 2 1) (replicate 99 4) c = Some c'
     \<and> as_slice c x = Some data \<and> as_slice c' x = Some data"
proof -
  obtain c x where cx: "get_pinned sample_key sample_cache = Some (c, Some x)"
    "reachable 100 1 c {#x#} [Lookup sample_key (Some x), Insert sample_key [1, 2, 3]]"
    using sample_pinned by blast
  obtain c' where c': "insert_blob probe_alloc (blob_key 8 2 1) (replicate 99 4) c = Some c'"
    using insert_blob_ok [OF _ probe_alloc_contract, of "{#x#}" c "replicate 99 4" "blob_key 8 2 1"]
      reachable_inv [OF cx(2)] by auto
  then have "cache_step (c, {#x#}) (Insert (blob_key 8 2 1) (replicate 99 4)) (c', {#x#})"
    by (intro cache_step.ins [OF probe_alloc_contract]) simp_all
  then show ?thesis using pinned_blob_stable [OF cx(2)] cx(1) c' by fastforce
qed

text \<open>C27. A lookup hits only blobs that were inserted, and lends out the bytes that were inserted under that key.\<close>

theorem lookup_returns_inserted:
  assumes "reachable bytes n c pins evs" and "bytes < 2 ^ 63" and "get_pinned k c = Some (c', Some x)"
  shows "\<exists>data. as_slice c' x = Some data \<and> Insert k data \<in> set evs"
proof -
  have inv: "cache_inv pins c" using reachable_inv [OF assms(1,2)] by simp
  obtain data where "as_slice c' x = Some data" using get_pinned_slice [OF inv assms(3)] by auto
  moreover have "contents c k = Some data" using calculation assms(3) by (simp add: contents_def)
  ultimately show ?thesis using reachable_logged [OF assms(1,2)] by blast
qed

theorem lookup_returns_inserted_witness:
  "\<exists>c x data. get_pinned sample_key sample_cache = Some (c, Some x)
     \<and> as_slice c x = Some data \<and> Insert sample_key data \<in> set [Insert sample_key [1, 2, 3]]"
  using lookup_returns_inserted [OF sample_reachable] sample_pinned by fastforce

text \<open>C28. Inserting a blob that is not in the cache makes it available under its key, or is counted as a failure; in
  both cases every other key keeps its bytes or has been evicted.\<close>

theorem insert_then_lookup:
  assumes "reachable bytes n c pins evs" and "0 < bytes" and "bytes < 2 ^ 63" and "dsa_contract alloc"
    and "data \<noteq> []" and "length data < 2 ^ 32" and "contents c k = None" and "insert_blob alloc k data c = Some c'"
  shows "(contents c' k = Some data \<and> insert_failures_total c' = insert_failures_total c
         \<or> contents c' k = None \<and> insert_failures_total c' = insert_failures_total c + 1)
       \<and> (k' \<noteq> k \<longrightarrow> contents c' k' = contents c k' \<or> contents c' k' = None)"
proof -
  have inv: "cache_inv pins c" and on: "usable c" using reachable_inv [OF assms(1,3)] assms(2) by auto
  have new: "\<not> has_key c k" using contents_None_iff [OF inv on] assms(7) by simp
  have inv': "cache_inv pins c'" and on': "usable c'" and out: "stored c k data c' \<or> dropped alloc data c k c'"
    using insert_blob_inv [OF inv assms(4,6,8)] new assms(5) on by simp_all
  note st = stored_contents [OF inv inv' on on'] and dr = dropped_contents [OF inv inv' on on']
  from out show ?thesis
  proof
    assume s: "stored c k data c'"
    then show ?thesis using st(1) [OF s] st(2) [OF s, of k'] by (cases "contents c' k'") (auto simp: stored_def)
  next
    assume d: "dropped alloc data c k c'"
    then have "contents c' k = None" using dr [OF d, of k] assms(7) by (cases "contents c' k") auto
    then show ?thesis using d dr [OF d, of k'] by (cases "contents c' k'") (auto simp: dropped_def)
  qed
qed

theorem insert_then_lookup_witness:
  "(contents sample_cache sample_key = Some [1, 2, 3]
      \<and> insert_failures_total sample_cache = insert_failures_total (startup 100 1)
    \<or> contents sample_cache sample_key = None
      \<and> insert_failures_total sample_cache = insert_failures_total (startup 100 1) + 1)
   \<and> (contents sample_cache (blob_key 8 2 1) = contents (startup 100 1) (blob_key 8 2 1)
      \<or> contents sample_cache (blob_key 8 2 1) = None)"
proof -
  have "blob_key 8 2 1 \<noteq> sample_key" by (simp add: sample_key_def blob_key_def)
  then show ?thesis
    using insert_then_lookup [OF reachable.start _ _ probe_alloc_contract _ _ sample_contents(2) sample_insert,
        of "blob_key 8 2 1"] by simp
qed

text \<open>C29. An insertion is dropped only for want of room: if the allocator never fails, then every entry left in the
  shard of the key is pinned, and with them the new blob would exceed the configured size.\<close>

theorem insert_dropped_only_when_full:
  assumes "reachable bytes n c pins evs" and "0 < bytes" and "bytes < 2 ^ 63" and "dsa_contract alloc"
    and "\<forall>m a nbytes. finite_area a \<longrightarrow> alloc m a nbytes \<noteq> 0"
    and "data \<noteq> []" and "length data < 2 ^ 32" and "contents c k = None"
    and "insert_blob alloc k data c = Some c'" and "contents c' k = None"
  shows "all_pinned (shard_of (n_shards c) k) c' \<and> unat (max_bytes c') < unat (total_bytes c') + length data"
proof -
  have inv: "cache_inv pins c" and on: "usable c" using reachable_inv [OF assms(1,3)] assms(2) by auto
  have new: "\<not> has_key c k" using contents_None_iff [OF inv on] assms(8) by simp
  have inv': "cache_inv pins c'" and on': "usable c'" and out: "stored c k data c' \<or> dropped alloc data c k c'"
    using insert_blob_inv [OF inv assms(4,7,9)] new assms(6) on by simp_all
  then have "dropped alloc data c k c'" using stored_contents(1) [OF inv inv' on on'] assms(10) by auto
  then have full: "all_pinned (shard_of (n_shards c) k) c'" "no_room alloc (length data) c'"
    using assms(5) unfolding dropped_def by blast+
  have "unat (total_bytes c') = stored_bytes (cores_of c')"
    using inv' unat_u64 [of "max_bytes c'"] by (auto simp: cache_inv_def Let_def unat_of_nat take_bit_nat_eq_self)
  moreover have "unat (max_bytes c') < stored_bytes (cores_of c') + length data"
    using full(2) assms(5) unfolding no_room_def by blast
  ultimately show ?thesis using full(1) by simp
qed

theorem insert_dropped_only_when_full_witness:
  "\<exists>c'. insert_blob fresh_alloc sample_key [1, 2, 3] (startup 2 1) = Some c'
     \<and> all_pinned (shard_of (n_shards (startup 2 1)) sample_key) c'
     \<and> unat (max_bytes c') < unat (total_bytes c') + length [1, 2, 3 :: u8]"
proof -
  have none: "contents (startup 2 1) sample_key = None" by code_simp
  obtain c' where c': "insert_blob fresh_alloc sample_key [1, 2, 3] (startup 2 1) = Some c'"
    "cache_inv {#} c'" "usable c'" "max_bytes c' = 2"
    using insert_blob_ok [where k = sample_key and data = "[1, 2, 3]", OF startup_inv fresh_alloc_contract, of 2 1]
    by (auto simp: startup_def)
  then have "reachable 2 1 c' {#} [Insert sample_key [1, 2, 3]]"
    by (intro reachable.step [OF reachable.start] cache_step.ins [OF fresh_alloc_contract]) simp_all
  then have "contents c' sample_key = None"
    using reachable_logged [of 2 1 c' "{#}" _ sample_key] contents_fits [OF c'(2,3), of sample_key] c'(4)
    by (cases "contents c' sample_key") fastforce+
  then show ?thesis
    using insert_dropped_only_when_full [OF reachable.start _ _ fresh_alloc_contract _ _ _ none c'(1)]
      fresh_alloc_succeeds c'(1) by simp
qed

text \<open>C30. The configured number of shards is a power of two from 1 to 1024, so the two masks of the slot computation are
  remainders and every key has a slot in range.\<close>

theorem shard_slots_in_range:
  "(\<exists>j \<le> 10. configured_shards s = 2 ^ j)
   \<and> hash_to_shard_bucket k (configured_shards s)
     = (unat (hash_key k) div 256 mod configured_shards s, unat (hash_key k) mod 256)"
  using configured_shards_power [of s] slot_of_power [of _ k] by auto

section \<open>The condition cache\<close>

text \<open>C31. A selection stored as a payload is read back row by row, where the empty vector stands for a selection of
  every row; a reader that expects another row count gets a miss.\<close>

theorem condition_payload_roundtrip:
  assumes "encode_payload sel n = Some data"
  shows "\<exists>s. decode_payload data n = Some s \<and> selection_of s n = (if sel = [] then replicate n True else sel)
    \<and> (\<forall>m. m \<noteq> n \<longrightarrow> decode_payload data m = None)"
  using assms by (rule decode_encode_payload)

theorem condition_payload_roundtrip_witness:
  "\<exists>s. decode_payload [0xC1, 0, 0, 0, 3, 0, 0, 0, 5, 0, 0, 0, 0, 0, 0, 0] 3 = Some s
     \<and> selection_of s 3 = [True, False, True]"
proof -
  have bits: "pack_words 3 0 0 [True, False, True] = [5, 0, 0, 0, 0, 0, 0, 0]" by code_simp
  have count: "to_le 4 (word_of_nat 3 :: u32) = [3, 0, 0, 0]" by code_simp
  have "encode_payload [True, False, True] 3 = Some [0xC1, 0, 0, 0, 3, 0, 0, 0, 5, 0, 0, 0, 0, 0, 0, 0]"
    unfolding encode_payload_def bits count by (simp add: payload_constants)
  from condition_payload_roundtrip [OF this] show ?thesis by auto
qed







section \<open>Loading with COPY\<close>

text \<open>C34. A file in the text format that PostgreSQL writes, with any of the three line endings, is taken apart into the
  rows and values it was written from: NULLs, empty strings, and values with delimiters, backslashes and line breaks
  included.\<close>

theorem copy_text_roundtrip:
  assumes "memchr_contract M" and "delimiter_ok d" and "\<forall>r \<in> set vals. r \<noteq> []"
    and "\<forall>r \<in> set vals. \<forall>s. Some s \<in> set r \<longrightarrow> utf8_valid s"
  shows "read_rows M d null_text (file_text d e vals) = Some vals"
  using assms by (rule read_rows_file)

theorem copy_text_roundtrip_witness:
  "read_rows plain_memchr 0x09 null_text (file_text 0x09 CrLf [[Some [0x61, 0x09, 0x0A], None], [Some [], Some [0x5C]]])
   = Some [[Some [0x61, 0x09, 0x0A], None], [Some [], Some [0x5C]]]"
proof -
  have "delimiter_ok 0x09" by (simp add: delimiter_ok_def)
  then show ?thesis by (rule copy_text_roundtrip [OF plain_memchr_contract]) auto
qed



text \<open>C36. On the sorted, disjoint ranges of the catalog the binary search returns the partition that holds a timestamp, and
  there is none when it returns none; the ends of the ranges are exclusive and gaps belong to no partition.\<close>

theorem partition_lookup_correct:
  assumes "ranges_ok starts ends"
  shows "\<exists>r. find_partition starts ends t = Some r
    \<and> (\<forall>i. r = Some i \<longleftrightarrow> i < length starts \<and> sint (starts ! i) \<le> sint t \<and> sint t < sint (ends ! i))"
proof -
  obtain r where "find_partition starts ends t = Some r"
    "case r of Some i \<Rightarrow> in_range starts ends t i | None \<Rightarrow> \<forall>i. \<not> in_range starts ends t i"
    using find_partition_spec [OF assms] by blast
  then show ?thesis using in_range_unique [OF assms] unfolding in_range_def by (cases r) auto
qed

theorem partition_lookup_correct_witness:
  "find_partition [0, 20] [10, 30] 25 = Some (Some 1) \<and> find_partition [0, 20] [10, 30] 15 = Some None"
proof -
  have ok: "ranges_ok [0, 20] [10, 30]" by (simp add: ranges_ok_def nth_Cons' less_Suc_eq)
  have two: "i < length [0, 20 :: i64] \<longleftrightarrow> i = 0 \<or> i = 1" for i by auto
  obtain r r' where r: "find_partition [0, 20] [10, 30] 25 = Some r" "find_partition [0, 20] [10, 30] 15 = Some r'"
    and "r = Some 1 \<longleftrightarrow> True" "\<And>i. r' = Some i \<longleftrightarrow> False"
    using partition_lookup_correct [OF ok, of 25] partition_lookup_correct [OF ok, of 15] unfolding two by (auto simp: nth_Cons')
  then show ?thesis by (cases r') auto
qed

definition sample_env :: LoadEnv where
  "sample_env = \<lparr>env_memchr = plain_memchr, env_jsonb = Some, env_serde = (\<lambda>_. None)\<rparr>"

definition sample_load :: LoadConfig where
  "sample_load = \<lparr>delimiter = 0x09, null_string = null_text, kinds = [KTimestamp, KInt32], extract_targets = [],
     time_col_index = 0, range_starts = [0], range_ends = [0x7FFFFFFFFFFFFFFF], is_compressed = [False]\<rparr>"

definition sample_file :: bytes where
  "sample_file = file_text 0x09 Lf [[Some (str ''1970-01-02''), Some (str ''7'')], [Some (str ''1970-01-03''), None]]"

definition sample_partition :: WorkerPartitionResult where
  "sample_partition = \<lparr>wp_cols = [TInt64 [Some 86400000000, Some 172800000000], TInt32 [Some 7, None]], wp_rows = 2\<rparr>"

lemma sample_worker:
  "parse_lines_worker sample_env sample_load sample_file [(0, 12), (13, 26)] 1 0 = Some (Inr [Some sample_partition])"
  by code_simp

text \<open>C37. Parallel loading is sequential loading: however a batch of lines is divided over worker threads, their results
  put together in order are the result of one pass over all lines, with the same error for the same line when a line is
  rejected, and a failure when a worker panics.\<close>

theorem parallel_copy_sequential:
  assumes "line_ranges \<noteq> []" and "0 < n_workers"
  shows "merge_results (replicate n None) (spawn_workers E cfg buf line_ranges n base n_workers)
    = join_worker (parse_lines_worker E cfg buf line_ranges n base)"
  using assms by (rule spawn_workers_merge)

theorem parallel_copy_sequential_witness:
  "merge_results [None] (spawn_workers sample_env sample_load sample_file [(0, 12), (13, 26)] 1 0 2)
   = Inr [Some sample_partition]"
  using parallel_copy_sequential [of "[(0, 12), (13, 26)]" 2 1 sample_env sample_load sample_file 0]
  by (simp add: sample_worker [simplified])

text \<open>C38. The columns a worker fills stay typed and in step: each keeps the type its kind was given, and after any number of
  rows every column of a partition, the ones filled by JSON extraction included, holds exactly one value per row.\<close>

theorem copy_columns_in_step:
  assumes "parse_lines_worker E cfg buf line_ranges n base = Some (Inr parts)" and "config_ok cfg" and "Some wp \<in> set parts"
  shows "list_all2 same_variant (map new_worker_typed_column (kinds cfg)) (wp_cols wp)
    \<and> list_all (\<lambda>col. rows col = wp_rows wp) (wp_cols wp)"
proof -
  have "in_step cfg (replicate n None)" by (auto simp: in_step_def)
  then have "in_step cfg parts" using worker_loop_in_step assms(1,2) unfolding parse_lines_worker_def by blast
  then show ?thesis using assms(3) by (auto simp: in_step_def typed_parts_def aligned_def fresh_partition_def list_all_iff)
qed

theorem copy_columns_in_step_witness:
  "list_all2 same_variant [TInt64 [], TInt32 []] (wp_cols sample_partition)
   \<and> list_all (\<lambda>col. rows col = 2) (wp_cols sample_partition)"
  using copy_columns_in_step [OF sample_worker, of sample_partition]
  by (simp add: config_ok_def physical_count_def sample_load_def target_indices_def new_worker_typed_column_def
      sample_partition_def)
end
